(* ===== verification/Js_Prelude.thy ===== *)
theory Js_Prelude
  imports Complex_Main "HOL-Library.Word"
begin

text \<open>
  What every component shares: the JavaScript values the TypeScript sources compute with,
  and the part of the language's own library they call.

  \<^item> A string is the list of its UTF-16 code units (\<open>jstr\<close>), because the sources count,
    cut and compare code units; \<open>js\<close> writes an ASCII literal of the source.
  \<^item> A number is \<open>jsnum\<close>. Every finite double is represented by its shortest round-trip
    decimal \<open>Dec m e\<close> (the digits and exponent that \<^verbatim>\<open>Number::toString\<close> prints),
    so that printing is exact and equality is \<^verbatim>\<open>===\<close>; \<^verbatim>\<open>-0\<close> and \<^verbatim>\<open>0\<close> coincide.
  \<^item> A value (\<open>jsval\<close>) is a JSON-shaped value or \<^verbatim>\<open>undefined\<close>. An object is the list
    of its own enumerable properties in enumeration order; \<open>wf_val\<close> says its keys differ.
  \<^item> A \<^verbatim>\<open>Map\<close> is an association list in insertion order (\<open>map_set\<close>, \<open>map_delete\<close>).

  The collection \<open>js_lib\<close> gathers the definitions of the library operations.
\<close>

named_theorems js_lib \<open>definitions of the modelled standard-library operations\<close>
named_theorems wf_intros \<open>introduction rules for well-formedness of values\<close>

section \<open>Strings as UTF-16 code units\<close>

type_synonym code_unit = "16 word"
type_synonym jstr = "code_unit list"

primrec js :: "string \<Rightarrow> jstr" where
  "js [] = []"
| "js (c # cs) = of_char c # js cs"

lemma unat_of_char: "unat (of_char c :: code_unit) = of_char c"
proof -
  have "(of_char c :: nat) mod 65536 = of_char c mod 256 mod 65536" by simp
  also have "\<dots> = of_char c"
    by (subst mod_less) (auto intro: less_trans [of _ 256] simp del: of_char_mod_256)
  finally have "unat (of_nat (of_char c) :: code_unit) = of_char c" by (simp add: unat_of_nat)
  then show ?thesis by (simp only: of_nat_of_char)
qed

lemma of_char_inject [simp]: "(of_char c :: code_unit) = of_char d \<longleftrightarrow> c = d"
  by (metis unat_of_char of_char_eq_iff)

lemma js_inject [simp]: "js a = js b \<longleftrightarrow> a = b"
proof (induction a arbitrary: b)
  case Nil
  show ?case by (cases b) auto
next
  case (Cons c a)
  then show ?case by (cases b) auto
qed

lemma js_eq_Nil [simp]: "js a = [] \<longleftrightarrow> a = []" "[] = js a \<longleftrightarrow> a = []"
  by (cases a; simp)+

lemma length_js [simp]: "length (js a) = length a"
  by (induction a) auto

lemma js_append: "js (a @ b) = js a @ js b"
  by (induction a) auto

definition is_high_surrogate :: "code_unit \<Rightarrow> bool" where
  "is_high_surrogate c \<longleftrightarrow> 0xd800 \<le> c \<and> c \<le> 0xdbff"

definition is_low_surrogate :: "code_unit \<Rightarrow> bool" where
  "is_low_surrogate c \<longleftrightarrow> 0xdc00 \<le> c \<and> c \<le> 0xdfff"

text \<open>Literals stay folded, so that the simplifier compares them as HOL strings.\<close>

declare js.simps [simp del]

text \<open>\<^verbatim>\<open>Buffer.byteLength(s, 'utf8')\<close>: a surrogate pair is four bytes, and a lone
  surrogate is written as the replacement character, three bytes.\<close>

fun byte_length :: "jstr \<Rightarrow> nat" where
  "byte_length [] = 0"
| "byte_length [c] = (if c < 0x80 then 1 else if c < 0x800 then 2 else 3)"
| "byte_length (c # d # s) =
     (if is_high_surrogate c \<and> is_low_surrogate d then 4 + byte_length s
      else (if c < 0x80 then 1 else if c < 0x800 then 2 else 3) + byte_length (d # s))"

text \<open>A boundary between two strings that does not fall inside a surrogate pair.\<close>

definition pair_safe :: "jstr \<Rightarrow> jstr \<Rightarrow> bool" where
  "pair_safe a b \<longleftrightarrow> a = [] \<or> b = [] \<or> \<not> (is_high_surrogate (last a) \<and> is_low_surrogate (hd b))"

lemma byte_length_append:
  "pair_safe a b \<Longrightarrow> byte_length (a @ b) = byte_length a + byte_length b"
proof (induction a rule: byte_length.induct)
  case 1
  then show ?case by simp
next
  case (2 c)
  then show ?case by (cases b) (auto simp: pair_safe_def)
next
  case (3 c d s)
  have ds: "pair_safe (d # s) b" using "3.prems" by (auto simp: pair_safe_def)
  have s: "pair_safe s b" using "3.prems" by (auto simp: pair_safe_def split: if_splits)
  show ?case
  proof (cases "is_high_surrogate c \<and> is_low_surrogate d")
    case True
    then show ?thesis using "3.IH"(1) s by simp
  next
    case False
    then show ?thesis using "3.IH"(2) ds by auto
  qed
qed

lemma surrogates_disjoint: "is_high_surrogate c \<Longrightarrow> \<not> is_low_surrogate c"
  by (auto simp: is_high_surrogate_def is_low_surrogate_def word_le_nat_alt)

lemma byte_length_bounds: "length s \<le> byte_length s \<and> byte_length s \<le> 3 * length s"
  by (induction s rule: byte_length.induct) auto

lemma byte_length_eq_0 [simp]: "byte_length s = 0 \<longleftrightarrow> s = []"
  using byte_length_bounds [of s] by auto

lemma byte_length_replicate: "c < 0x80 \<Longrightarrow> byte_length (replicate n c) = n"
proof (induction n)
  case 0
  then show ?case by simp
next
  case (Suc n)
  have "pair_safe [c] (replicate n c)"
    using Suc.prems by (auto simp: pair_safe_def is_high_surrogate_def word_le_nat_alt word_less_nat_alt)
  from byte_length_append [OF this] show ?case using Suc by simp
qed

text \<open>ECMAScript \<^verbatim>\<open>\s\<close>.\<close>

definition is_whitespace :: "code_unit \<Rightarrow> bool" where
  "is_whitespace c \<longleftrightarrow>
     (9 \<le> c \<and> c \<le> 13) \<or> c = 0x20 \<or> c = 0xa0 \<or> c = 0x1680 \<or> (0x2000 \<le> c \<and> c \<le> 0x200a) \<or>
     c = 0x2028 \<or> c = 0x2029 \<or> c = 0x202f \<or> c = 0x205f \<or> c = 0x3000 \<or> c = 0xfeff"

section \<open>Searching and cutting strings\<close>

definition starts_with :: "'a list \<Rightarrow> 'a list \<Rightarrow> bool" where
  "starts_with s p \<longleftrightarrow> take (length p) s = p"

definition occurs_at :: "'a list \<Rightarrow> 'a list \<Rightarrow> nat \<Rightarrow> bool" where
  "occurs_at s p i \<longleftrightarrow> i + length p \<le> length s \<and> take (length p) (drop i s) = p"

text \<open>\<^verbatim>\<open>s.indexOf(p, from)\<close> for a search string that is not empty (the sources pass no
  empty one); \<open>None\<close> is the source's \<^verbatim>\<open>-1\<close>.\<close>

definition index_of :: "'a list \<Rightarrow> 'a list \<Rightarrow> nat \<Rightarrow> nat option" where
  "index_of s p from = find (occurs_at s p) [from..<Suc (length s)]"

text \<open>\<^verbatim>\<open>s.lastIndexOf(p)\<close>, again for a non-empty search string.\<close>

definition last_index_of :: "'a list \<Rightarrow> 'a list \<Rightarrow> nat option" where
  "last_index_of s p = find (occurs_at s p) (rev [0..<Suc (length s)])"

definition str_includes :: "'a list \<Rightarrow> 'a list \<Rightarrow> bool" where
  "str_includes s p \<longleftrightarrow> (\<exists>i\<in>set [0..<Suc (length s)]. occurs_at s p i)"

definition slice :: "'a list \<Rightarrow> nat \<Rightarrow> nat \<Rightarrow> 'a list" where
  "slice s i j = drop i (take j s)"

lemmas [js_lib] = starts_with_def occurs_at_def index_of_def last_index_of_def str_includes_def slice_def

text \<open>\<^verbatim>\<open>s.split(c)\<close> for a one-unit separator.\<close>

fun split_on :: "code_unit \<Rightarrow> jstr \<Rightarrow> jstr list" where
  "split_on c [] = [[]]"
| "split_on c (x # s) =
     (if x = c then [] # split_on c s
      else (case split_on c s of [] \<Rightarrow> [[x]] | w # ws \<Rightarrow> (x # w) # ws))"

lemma split_on_plain: "c \<notin> set s \<Longrightarrow> split_on c s = [s]"
  by (induction s) auto

lemma split_on_nonempty [simp]: "split_on c s \<noteq> []"
  by (induction s) (auto split: list.splits)

lemma split_on_append: "c \<notin> set b \<Longrightarrow> split_on c (a @ c # b) = split_on c a @ [b]"
proof (induction a)
  case Nil
  then show ?case by (simp add: split_on_plain)
next
  case (Cons x a)
  then show ?case by (cases "split_on c a") auto
qed

text \<open>\<^verbatim>\<open>ws.join(c)\<close> for a one-unit separator.\<close>

fun join_with :: "code_unit \<Rightarrow> jstr list \<Rightarrow> jstr" where
  "join_with c [] = []"
| "join_with c [w] = w"
| "join_with c (w # v # ws) = w @ c # join_with c (v # ws)"

lemma join_split_on [simp]: "join_with c (split_on c s) = s"
proof (induction s)
  case (Cons x s)
  then show ?case by (cases "split_on c s"; cases "tl (split_on c s)") auto
qed simp

lemma split_on_clean: "w \<in> set (split_on c s) \<Longrightarrow> c \<notin> set w"
proof (induction s arbitrary: w)
  case (Cons x s)
  then show ?case by (cases "split_on c s") (auto split: if_splits)
qed simp

lemma split_join_with: "ws \<noteq> [] \<Longrightarrow> (\<And>w. w \<in> set ws \<Longrightarrow> c \<notin> set w) \<Longrightarrow> split_on c (join_with c ws) = ws"
proof (induction c ws rule: join_with.induct)
  case (3 c w v ws)
  have "split_on c (a @ c # b) = a # split_on c b" if "c \<notin> set a" for a b
    using that by (induction a) auto
  with 3 show ?case by simp
qed (auto simp: split_on_plain)

lemma occurs_at_single: "occurs_at t [c] i \<longleftrightarrow> i < length t \<and> t ! i = c"
proof (cases "i < length t")
  case True
  then show ?thesis using Cons_nth_drop_Suc [OF True, symmetric] by (simp add: occurs_at_def)
qed (simp add: occurs_at_def)

lemma occurs_at_append: "occurs_at s p i \<longleftrightarrow> (\<exists>a b. s = a @ p @ b \<and> length a = i)"
proof
  assume h: "occurs_at s p i"
  let ?b = "drop (i + length p) s"
  have "s = take i s @ drop i s" by simp
  also have "drop i s = p @ ?b"
    using h by (metis append_take_drop_id add.commute drop_drop occurs_at_def)
  finally have "s = take i s @ p @ ?b \<and> length (take i s) = i"
    using h by (simp add: occurs_at_def)
  then show "\<exists>a b. s = a @ p @ b \<and> length a = i" by blast
next
  assume "\<exists>a b. s = a @ p @ b \<and> length a = i"
  then show "occurs_at s p i" by (auto simp: occurs_at_def)
qed

lemma str_includes_iff: "str_includes s p \<longleftrightarrow> (\<exists>i. occurs_at s p i)"
proof
  assume "\<exists>i. occurs_at s p i"
  then obtain i where i: "occurs_at s p i" ..
  then have "i \<in> set [0..<Suc (length s)]" by (auto simp: occurs_at_def)
  with i show "str_includes s p" unfolding str_includes_def by blast
qed (auto simp: str_includes_def)

lemma str_includes_append: "str_includes s p \<longleftrightarrow> (\<exists>a b. s = a @ p @ b)"
  by (auto simp: str_includes_iff occurs_at_append)

lemma find_upt_Some:
  "find P [a..<b] = Some i \<longleftrightarrow> a \<le> i \<and> i < b \<and> P i \<and> (\<forall>j. a \<le> j \<and> j < i \<longrightarrow> \<not> P j)"
proof -
  have "find P [a..<b] = Some i \<longleftrightarrow>
      (\<exists>k<b - a. P ([a..<b] ! k) \<and> i = [a..<b] ! k \<and> (\<forall>j<k. \<not> P ([a..<b] ! j)))"
    by (auto simp: find_Some_iff)
  also have "\<dots> \<longleftrightarrow> (\<exists>k<b - a. P (a + k) \<and> i = a + k \<and> (\<forall>j<k. \<not> P (a + j)))"
    by (rule ex_cong) (auto cong: conj_cong)
  also have "\<dots> \<longleftrightarrow> a \<le> i \<and> i < b \<and> P i \<and> (\<forall>j. a \<le> j \<and> j < i \<longrightarrow> \<not> P j)" (is "?l \<longleftrightarrow> ?r")
  proof
    assume ?l
    then obtain k where k: "k < b - a" "P (a + k)" "i = a + k" "\<forall>j<k. \<not> P (a + j)" by blast
    have "\<not> P j" if "a \<le> j" "j < i" for j
      using k(3,4) that spec [OF k(4), of "j - a"] by simp
    with k show ?r by auto
  next
    assume r: ?r
    then have "i - a < b - a \<and> P (a + (i - a)) \<and> i = a + (i - a) \<and> (\<forall>j<i - a. \<not> P (a + j))"
      by auto
    then show ?l by blast
  qed
  finally show ?thesis .
qed

lemma index_of_Some:
  "index_of s p n = Some i \<longleftrightarrow> n \<le> i \<and> occurs_at s p i \<and> (\<forall>j. n \<le> j \<and> j < i \<longrightarrow> \<not> occurs_at s p j)"
  unfolding index_of_def find_upt_Some by (auto simp: occurs_at_def)

lemma index_of_None: "index_of s p n = None \<longleftrightarrow> (\<forall>j\<ge>n. \<not> occurs_at s p j)"
  unfolding index_of_def find_None_iff by (auto simp: occurs_at_def)

lemma slice_empty [simp]: "j \<le> i \<Longrightarrow> slice s i j = []"
  by (simp add: slice_def)

lemma length_slice [simp]: "length (slice s i j) = min j (length s) - i"
  by (simp add: slice_def)

lemma slice_as_map: "b \<le> length s \<Longrightarrow> slice s a b = map ((!) s) [a..<b]"
  by (rule nth_equalityI) (auto simp: slice_def)

lemma upt_append_le: "a \<le> b \<Longrightarrow> b \<le> c \<Longrightarrow> c \<le> d \<Longrightarrow> [a..<d] = [a..<b] @ [b..<c] @ [c..<d]"
  by (metis append.assoc le_add_diff_inverse le_trans upt_add_eq_append)

section \<open>Numbers\<close>

datatype jsnum = Dec int int | PosInf | NegInf | NaN

text \<open>\<open>Dec m e\<close> is the double whose shortest decimal is \<open>m \<cdot> 10\<^sup>e\<close>; \<open>wf_num\<close> is the
  normal form that makes the representation unique.\<close>

fun wf_num :: "jsnum \<Rightarrow> bool" where
  "wf_num (Dec m e) \<longleftrightarrow> (m = 0 \<and> e = 0) \<or> m mod 10 \<noteq> 0"
| "wf_num _ \<longleftrightarrow> True"

fun num_is_finite :: "jsnum \<Rightarrow> bool" where
  "num_is_finite (Dec m e) \<longleftrightarrow> True"
| "num_is_finite _ \<longleftrightarrow> False"

text \<open>\<^verbatim>\<open>Number.isInteger\<close>: a double is a whole number exactly when its shortest decimal
  has no fractional digit.\<close>

fun num_is_integer :: "jsnum \<Rightarrow> bool" where
  "num_is_integer (Dec m e) \<longleftrightarrow> 0 \<le> e"
| "num_is_integer _ \<longleftrightarrow> False"

fun num_negative :: "jsnum \<Rightarrow> bool" where
  "num_negative (Dec m e) \<longleftrightarrow> m < 0"
| "num_negative NegInf \<longleftrightarrow> True"
| "num_negative _ \<longleftrightarrow> False"

fun int_of_num :: "jsnum \<Rightarrow> int" where
  "int_of_num (Dec m e) = m * 10 ^ nat e"
| "int_of_num _ = 0"

text \<open>The normal form of a whole number: trailing zeros move into the exponent.\<close>

function norm_dec :: "int \<Rightarrow> int \<Rightarrow> jsnum" where
  "norm_dec m e = (if m = 0 then Dec 0 0 else if m mod 10 = 0 then norm_dec (m div 10) (e + 1) else Dec m e)"
  by pat_completeness auto
termination
proof (relation "measure (\<lambda>(m, e). nat \<bar>m\<bar>)", goal_cases)
  case 1
  show ?case by simp
next
  case (2 m e)
  then have "m \<noteq> 0" "m = 10 * (m div 10)" by auto
  then show ?case by simp
qed

declare norm_dec.simps [simp del]

definition num_of_int :: "int \<Rightarrow> jsnum" where
  "num_of_int i = norm_dec i 0"

lemma wf_norm_dec: "wf_num (norm_dec m e)"
  by (induction m e rule: norm_dec.induct) (subst norm_dec.simps, simp)

lemma int_of_norm_dec: "0 \<le> e \<Longrightarrow> int_of_num (norm_dec m e) = m * 10 ^ nat e \<and> num_is_integer (norm_dec m e)"
proof (induction m e rule: norm_dec.induct)
  case (1 m e)
  show ?case
  proof (cases "m = 0 \<or> m mod 10 \<noteq> 0")
    case True
    then show ?thesis using "1.prems" by (subst (1 2) norm_dec.simps) auto
  next
    case False
    then have m: "m = 10 * (m div 10)" by auto
    have "m * 10 ^ nat e = m div 10 * 10 ^ nat (e + 1)"
      using "1.prems" by (subst m) (simp add: nat_add_distrib)
    then show ?thesis using "1.IH" False "1.prems" by (subst (1 2) norm_dec.simps) simp
  qed
qed

lemma int_of_num_of_int [simp]: "int_of_num (num_of_int i) = i"
  and num_is_integer_num_of_int [simp]: "num_is_integer (num_of_int i)"
  and wf_num_of_int [simp]: "wf_num (num_of_int i)"
  using int_of_norm_dec [of 0 i] by (simp_all add: num_of_int_def wf_norm_dec)

lemma num_of_int_inject [simp]: "num_of_int i = num_of_int j \<longleftrightarrow> i = j"
  by (metis int_of_num_of_int)

text \<open>The decimal digits a template literal writes for a count.\<close>

fun nat_to_js :: "nat \<Rightarrow> jstr" where
  "nat_to_js n = (if n < 10 then [48 + of_nat n] else nat_to_js (n div 10) @ [48 + of_nat (n mod 10)])"

declare nat_to_js.simps [simp del]

definition int_to_js :: "int \<Rightarrow> jstr" where
  "int_to_js i = (if i < 0 then 45 # nat_to_js (nat (- i)) else nat_to_js (nat i))"

section \<open>Maps in insertion order\<close>

fun map_set :: "('k \<times> 'v) list \<Rightarrow> 'k \<Rightarrow> 'v \<Rightarrow> ('k \<times> 'v) list" where
  "map_set [] k v = [(k, v)]"
| "map_set ((k', v') # m) k v = (if k' = k then (k, v) # m else (k', v') # map_set m k v)"

definition map_delete :: "('k \<times> 'v) list \<Rightarrow> 'k \<Rightarrow> ('k \<times> 'v) list" where
  "map_delete m k = filter (\<lambda>kv. fst kv \<noteq> k) m"

lemma map_of_map_set [simp]: "map_of (map_set m k v) = (map_of m)(k \<mapsto> v)"
  by (induction m) auto

lemma map_of_map_delete [simp]: "map_of (map_delete m k) = (map_of m)(k := None)"
  by (induction m) (auto simp: map_delete_def fun_eq_iff)

lemma keys_map_set [simp]: "fst ` set (map_set m k v) = insert k (fst ` set m)"
proof (induction m)
  case (Cons kv m)
  then show ?case by (cases kv) auto
qed simp

lemma distinct_map_set [intro]: "distinct (map fst m) \<Longrightarrow> distinct (map fst (map_set m k v))"
  by (induction m) auto

lemma distinct_map_delete [intro]: "distinct (map fst m) \<Longrightarrow> distinct (map fst (map_delete m k))"
  by (simp add: map_delete_def distinct_map_filter)

lemma length_map_set: "length (map_set m k v) = (if k \<in> fst ` set m then length m else Suc (length m))"
proof (induction m)
  case (Cons kv m)
  then show ?case by (cases kv) auto
qed simp

lemma length_map_delete_le [simp]: "length (map_delete m k) \<le> length m"
  by (simp add: map_delete_def)

lemma set_map_delete: "set (map_delete m k) = {kv \<in> set m. fst kv \<noteq> k}"
  by (simp add: map_delete_def)

text \<open>The locale of a keyed store, interpreted on the insertion-ordered map.\<close>

locale keyed_store =
  fixes emp :: 'm and get :: "'m \<Rightarrow> 'k \<Rightarrow> 'v option" and put :: "'m \<Rightarrow> 'k \<Rightarrow> 'v \<Rightarrow> 'm"
    and del :: "'m \<Rightarrow> 'k \<Rightarrow> 'm"
  assumes get_emp: "get emp k = None"
    and get_put: "get (put m k v) k' = (if k' = k then Some v else get m k')"
    and get_del: "get (del m k) k' = (if k' = k then None else get m k')"
begin

lemma put_put: "get (put (put m k v) k w) = get (put m k w)"
  by (simp add: fun_eq_iff get_put)

lemma del_put: "get (del (put m k v) k) = get (del m k)"
  by (simp add: fun_eq_iff get_put get_del)

lemma fold_put_last:
  "get (fold (\<lambda>(k, v) m. put m k v) kvs m) k = (case map_of (rev kvs) k of None \<Rightarrow> get m k | Some v \<Rightarrow> Some v)"
  by (induction kvs arbitrary: m) (auto simp: get_put map_add_def split: option.splits)

end

interpretation js_map: keyed_store "[]" map_of map_set map_delete
  by unfold_locales auto

text \<open>\<^verbatim>\<open>new Map(entries)\<close> and \<^verbatim>\<open>Object.fromEntries(entries)\<close> before key ordering: a later
  entry of the same key replaces the value and keeps the place.\<close>

definition from_entries :: "('k \<times> 'v) list \<Rightarrow> ('k \<times> 'v) list" where
  "from_entries kvs = fold (\<lambda>(k, v) m. map_set m k v) kvs []"

lemma distinct_fold_map_set:
  "distinct (map fst m) \<Longrightarrow> distinct (map fst (fold (\<lambda>(k, v) m. map_set m k v) kvs m))"
  by (induction kvs arbitrary: m) auto

lemma distinct_from_entries [simp]: "distinct (map fst (from_entries kvs))"
  by (simp add: from_entries_def distinct_fold_map_set)

lemma map_of_from_entries: "map_of (from_entries kvs) k = map_of (rev kvs) k"
  by (simp add: from_entries_def js_map.fold_put_last split: option.splits)

lemma map_set_fresh: "k \<notin> fst ` set m \<Longrightarrow> map_set m k v = m @ [(k, v)]"
  by (induction m) auto

lemma fold_map_set_fresh:
  "distinct (map fst kvs) \<Longrightarrow> fst ` set kvs \<inter> fst ` set m = {} \<Longrightarrow>
   fold (\<lambda>(k, v) m. map_set m k v) kvs m = m @ kvs"
  by (induction kvs arbitrary: m) (auto simp: map_set_fresh)

lemma from_entries_distinct [simp]: "distinct (map fst kvs) \<Longrightarrow> from_entries kvs = kvs"
  by (simp add: from_entries_def fold_map_set_fresh)

section \<open>Values\<close>

datatype jsval =
    JUndef
  | JNull
  | JBool bool
  | JNum jsnum
  | JStr jstr
  | JArr "jsval list"
  | JObj "(jstr \<times> jsval) list"

fun wf_val :: "jsval \<Rightarrow> bool" where
  "wf_val (JNum n) \<longleftrightarrow> wf_num n"
| "wf_val (JArr vs) \<longleftrightarrow> (\<forall>v\<in>set vs. wf_val v)"
| "wf_val (JObj kvs) \<longleftrightarrow> distinct (map fst kvs) \<and> (\<forall>kv\<in>set kvs. wf_val (snd kv))"
| "wf_val _ \<longleftrightarrow> True"

text \<open>Reading a property of a value known to be an object; a missing one is
  \<^verbatim>\<open>undefined\<close>. \<^verbatim>\<open>Object.hasOwn\<close> is \<open>has_own\<close>.\<close>

definition get_prop :: "(jstr \<times> jsval) list \<Rightarrow> jstr \<Rightarrow> jsval" where
  "get_prop kvs k = (case map_of kvs k of None \<Rightarrow> JUndef | Some v \<Rightarrow> v)"

definition has_own :: "(jstr \<times> jsval) list \<Rightarrow> jstr \<Rightarrow> bool" where
  "has_own kvs k \<longleftrightarrow> map_of kvs k \<noteq> None"

lemma has_own_iff: "has_own kvs k \<longleftrightarrow> k \<in> fst ` set kvs"
  by (auto simp: has_own_def map_of_eq_None_iff)

fun is_record :: "jsval \<Rightarrow> bool" where
  "is_record (JObj _) \<longleftrightarrow> True"
| "is_record _ \<longleftrightarrow> False"

fun is_string :: "jsval \<Rightarrow> bool" where
  "is_string (JStr _) \<longleftrightarrow> True"
| "is_string _ \<longleftrightarrow> False"

lemma size_snd_jsval [termination_simp]:
  "(k, v) \<in> set kvs \<Longrightarrow> size v < Suc (size_list (\<lambda>x. Suc (size (snd x))) kvs)"
  by (induction kvs) auto

lemma size_get_prop:
  assumes "get_prop kvs k = v" "v \<noteq> JUndef"
  shows "size v < size (JObj kvs)"
proof -
  have "(k, v) \<in> set kvs" using assms by (auto simp: get_prop_def split: option.splits dest: map_of_SomeD)
  then show ?thesis by (induction kvs) auto
qed

lemma size_get_prop_elem [termination_simp]:
  assumes "get_prop kvs k = JArr vs" "v \<in> set vs"
  shows "size v < Suc (size_list (\<lambda>x. Suc (size (snd x))) kvs)"
proof -
  have "size v \<le> size_list size vs" using assms(2) by (rule size_list_estimation') simp
  moreover have "size_prod (\<lambda>_. 0) size = (\<lambda>x :: jstr \<times> jsval. Suc (size (snd x)))"
    by (auto simp: fun_eq_iff size_prod_simp)
  ultimately show ?thesis using size_get_prop [OF assms(1)] by simp
qed

lemma wf_val_prop [wf_intros]: "wf_val (JObj kvs) \<Longrightarrow> wf_val (get_prop kvs k)"
  by (auto simp: get_prop_def split: option.splits dest!: map_of_SomeD)

section \<open>Code that throws\<close>

text \<open>A call that may throw returns \<open>Inl\<close> the error; \<open>bind_res\<close> is the rest of the code after
  it and \<open>map_res\<close> a \<^verbatim>\<open>map\<close> whose callback may throw, left to right.\<close>

definition bind_res :: "'e + 'a \<Rightarrow> ('a \<Rightarrow> 'e + 'b) \<Rightarrow> 'e + 'b" where
  "bind_res r k = (case r of Inl e \<Rightarrow> Inl e | Inr x \<Rightarrow> k x)"

lemma bind_res_simps [simp]: "bind_res (Inl e) k = Inl e" "bind_res (Inr x) k = k x"
  by (simp_all add: bind_res_def)

lemma bind_res_Inr [simp]: "bind_res r k = Inr y \<longleftrightarrow> (\<exists>x. r = Inr x \<and> k x = Inr y)"
  by (cases r) auto

fun map_res :: "('a \<Rightarrow> 'e + 'b) \<Rightarrow> 'a list \<Rightarrow> 'e + 'b list" where
  "map_res f [] = Inr []"
| "map_res f (x # xs) = bind_res (f x) (\<lambda>y. bind_res (map_res f xs) (\<lambda>ys. Inr (y # ys)))"

lemma map_res_Inr: "map_res f xs = Inr ys \<longleftrightarrow> list_all2 (\<lambda>x y. f x = Inr y) xs ys"
  by (induction xs arbitrary: ys) (auto simp: list_all2_Cons1)

end
