(* ===== verification/Json_Text.thy ===== *)
theory Json_Text
  imports Js_Prelude
begin

text \<open>
  \<^verbatim>\<open>JSON.stringify\<close> as the sources use it: no replacer and no indentation, on the values
  of \<open>jsval\<close>. The frame codec bounds the UTF-8 size of this text, the tool-result cap
  measures its length, and redaction compares scalars through it.
  \<open>num_to_js\<close> is \<^verbatim>\<open>Number::toString\<close> of the language standard, read off the shortest
  decimal.
\<close>

section \<open>Numbers and strings\<close>

definition zeros :: "nat \<Rightarrow> jstr" where
  "zeros n = replicate n 48"

text \<open>The exponent suffix \<^verbatim>\<open>e+x\<close> or \<^verbatim>\<open>e-x\<close>.\<close>

definition exponent_js :: "int \<Rightarrow> jstr" where
  "exponent_js x = js ''e'' @ (if x < 0 then js ''-'' else js ''+'') @ nat_to_js (nat \<bar>x\<bar>)"

text \<open>A positive number with digits \<open>ds\<close> (there are \<open>k\<close>) and decimal point after place \<open>n\<close>.\<close>

definition digits_js :: "jstr \<Rightarrow> int \<Rightarrow> jstr" where
  "digits_js ds n =
     (let k = int (length ds) in
      if k \<le> n \<and> n \<le> 21 then ds @ zeros (nat (n - k))
      else if 0 < n \<and> n \<le> 21 then take (nat n) ds @ js ''.'' @ drop (nat n) ds
      else if -6 < n \<and> n \<le> 0 then js ''0.'' @ zeros (nat (- n)) @ ds
      else if k = 1 then ds @ exponent_js (n - 1)
      else take 1 ds @ js ''.'' @ drop 1 ds @ exponent_js (n - 1))"

fun num_to_js :: "jsnum \<Rightarrow> jstr" where
  "num_to_js (Dec m e) =
     (if m = 0 then js ''0''
      else (if m < 0 then js ''-'' else []) @
        (let ds = nat_to_js (nat \<bar>m\<bar>) in digits_js ds (int (length ds) + e)))"
| "num_to_js PosInf = js ''Infinity''"
| "num_to_js NegInf = js ''-Infinity''"
| "num_to_js NaN = js ''NaN''"

definition hex_digit :: "nat \<Rightarrow> code_unit" where
  "hex_digit n = (if n < 10 then 48 + of_nat n else 87 + of_nat n)"

definition unicode_escape :: "code_unit \<Rightarrow> jstr" where
  "unicode_escape c =
     [92, 117, hex_digit (unat c div 4096), hex_digit (unat c div 256 mod 16),
      hex_digit (unat c div 16 mod 16), hex_digit (unat c mod 16)]"

definition escape_unit :: "code_unit \<Rightarrow> jstr" where
  "escape_unit c =
     (if c = 34 then [92, 34] else if c = 92 then [92, 92]
      else if c = 8 then [92, 98] else if c = 9 then [92, 116]
      else if c = 10 then [92, 110] else if c = 12 then [92, 102]
      else if c = 13 then [92, 114]
      else if c < 32 \<or> is_high_surrogate c \<or> is_low_surrogate c then unicode_escape c
      else [c])"

text \<open>A surrogate pair is written as it is; a lone surrogate is escaped.\<close>

fun quote_body :: "jstr \<Rightarrow> jstr" where
  "quote_body [] = []"
| "quote_body [c] = escape_unit c"
| "quote_body (c # d # s) =
     (if is_high_surrogate c \<and> is_low_surrogate d then c # d # quote_body s
      else escape_unit c @ quote_body (d # s))"

definition json_quote :: "jstr \<Rightarrow> jstr" where
  "json_quote s = 34 # quote_body s @ [34]"

section \<open>Values\<close>

fun join :: "jstr \<Rightarrow> jstr list \<Rightarrow> jstr" where
  "join sep [] = []"
| "join sep [x] = x"
| "join sep (x # y # xs) = x @ sep @ join sep (y # xs)"

definition defined_entries :: "(jstr \<times> jsval) list \<Rightarrow> (jstr \<times> jsval) list" where
  "defined_entries kvs = filter (\<lambda>kv. snd kv \<noteq> JUndef) kvs"

lemma defined_entries_size [termination_simp]:
  "(k, v) \<in> set (defined_entries kvs) \<Longrightarrow> size v < Suc (size_list (\<lambda>x. Suc (size (snd x))) kvs)"
  by (auto simp: defined_entries_def intro: size_snd_jsval)

text \<open>The text of a value in element position, where \<^verbatim>\<open>undefined\<close> is written \<^verbatim>\<open>null\<close>.\<close>

fun stringify_text :: "jsval \<Rightarrow> jstr" where
  "stringify_text JUndef = js ''null''"
| "stringify_text JNull = js ''null''"
| "stringify_text (JBool b) = (if b then js ''true'' else js ''false'')"
| "stringify_text (JNum n) = (if num_is_finite n then num_to_js n else js ''null'')"
| "stringify_text (JStr s) = json_quote s"
| "stringify_text (JArr vs) = js ''['' @ join (js '','') (map stringify_text vs) @ js '']''"
| "stringify_text (JObj kvs) =
     js ''{'' @ join (js '','') (map (\<lambda>kv. json_quote (fst kv) @ js '':'' @ stringify_text (snd kv)) (defined_entries kvs))
       @ js ''}''"

text \<open>\<^verbatim>\<open>JSON.stringify(value)\<close>; \<open>None\<close> is its \<^verbatim>\<open>undefined\<close>.\<close>

definition json_stringify :: "jsval \<Rightarrow> jstr option" where
  "json_stringify v = (if v = JUndef then None else Some (stringify_text v))"

lemma json_stringify_Some [simp]: "v \<noteq> JUndef \<Longrightarrow> json_stringify v = Some (stringify_text v)"
  by (simp add: json_stringify_def)

lemma stringify_defined_entries: "stringify_text (JObj (defined_entries kvs)) = stringify_text (JObj kvs)"
  by (simp add: defined_entries_def)

end
