(* ===== verification/Json_Parse.thy ===== *)
theory Json_Parse
  imports Json_Text
begin

text \<open>
  \<^verbatim>\<open>JSON.parse\<close> without a reviver, by the grammar of the language standard, and the round trip
  through \<^verbatim>\<open>JSON.stringify\<close>. A number literal is read exactly and then rounded to the double
  nearest to it: \<open>nearest\<close> is that rounding, and a number held by the program is one it leaves
  alone. Objects with a repeated key keep the last value at the first key's place.

  The parser runs on fuel, one unit per call; \<open>json_parse\<close> gives it twice the length of the text
  and two more, and \<open>parse_fuel\<close> shows that no larger amount changes an answer.
\<close>

section \<open>Tokens\<close>

definition json_ws :: "code_unit \<Rightarrow> bool" where
  "json_ws c \<longleftrightarrow> c = 9 \<or> c = 10 \<or> c = 13 \<or> c = 32"

definition skip_ws :: "jstr \<Rightarrow> jstr" where
  "skip_ws s = dropWhile json_ws s"

text \<open>The text after an expected character.\<close>

fun expect :: "code_unit \<Rightarrow> jstr \<Rightarrow> jstr option" where
  "expect c [] = None"
| "expect c (d # s) = (if d = c then Some s else None)"

definition is_digit :: "code_unit \<Rightarrow> bool" where
  "is_digit c \<longleftrightarrow> 48 \<le> c \<and> c \<le> 57"

definition digits_val :: "jstr \<Rightarrow> nat" where
  "digits_val ds = foldl (\<lambda>n c. 10 * n + (unat c - 48)) 0 ds"

definition take_digits :: "jstr \<Rightarrow> (jstr \<times> jstr) option" where
  "take_digits s =
     (case takeWhile is_digit s of [] \<Rightarrow> None | ds \<Rightarrow> Some (ds, dropWhile is_digit s))"

definition parse_fraction :: "jstr \<Rightarrow> (jstr \<times> jstr) option" where
  "parse_fraction s = (case expect 46 s of Some r \<Rightarrow> take_digits r | None \<Rightarrow> Some ([], s))"

definition exponent_digits :: "int \<Rightarrow> jstr \<Rightarrow> (int \<times> jstr) option" where
  "exponent_digits sign s = map_option (\<lambda>(ds, t). (sign * int (digits_val ds), t)) (take_digits s)"

definition parse_exponent :: "jstr \<Rightarrow> (int \<times> jstr) option" where
  "parse_exponent s =
     (case s of
        [] \<Rightarrow> Some (0, [])
      | c # r \<Rightarrow>
          if c = 101 \<or> c = 69
          then (case expect 45 r of
                  Some r' \<Rightarrow> exponent_digits (-1) r'
                | None \<Rightarrow> (case expect 43 r of Some r' \<Rightarrow> exponent_digits 1 r' | None \<Rightarrow> exponent_digits 1 r))
          else Some (0, s))"

definition parse_magnitude :: "int \<Rightarrow> jstr \<Rightarrow> (jsnum \<times> jstr) option" where
  "parse_magnitude sign s =
     Option.bind (take_digits s) (\<lambda>(ds, r1).
       if hd ds = 48 \<and> length ds > 1 then None
       else Option.bind (parse_fraction r1) (\<lambda>(fs, r2).
         Option.bind (parse_exponent r2) (\<lambda>(x, r3).
           Some (norm_dec (sign * int (digits_val (ds @ fs))) (x - int (length fs)), r3))))"

definition parse_number :: "jstr \<Rightarrow> (jsnum \<times> jstr) option" where
  "parse_number s = (case expect 45 s of Some r \<Rightarrow> parse_magnitude (-1) r | None \<Rightarrow> parse_magnitude 1 s)"

definition hex_val :: "code_unit \<Rightarrow> nat option" where
  "hex_val c =
     (if 48 \<le> c \<and> c \<le> 57 then Some (unat c - 48)
      else if 97 \<le> c \<and> c \<le> 102 then Some (unat c - 87)
      else if 65 \<le> c \<and> c \<le> 70 then Some (unat c - 55) else None)"

definition simple_escape :: "code_unit \<Rightarrow> code_unit option" where
  "simple_escape c =
     (if c = 34 \<or> c = 92 \<or> c = 47 then Some c else if c = 98 then Some 8 else if c = 116 then Some 9
      else if c = 110 then Some 10 else if c = 102 then Some 12 else if c = 114 then Some 13 else None)"

definition hex_unit :: "code_unit \<Rightarrow> code_unit \<Rightarrow> code_unit \<Rightarrow> code_unit \<Rightarrow> code_unit option" where
  "hex_unit a b c d =
     (case (hex_val a, hex_val b, hex_val c, hex_val d) of
        (Some w, Some x, Some y, Some z) \<Rightarrow> Some (of_nat (w * 4096 + x * 256 + y * 16 + z))
      | _ \<Rightarrow> None)"

text \<open>The characters of a string literal after its opening quote.\<close>

fun parse_string :: "jstr \<Rightarrow> (jstr \<times> jstr) option" where
  "parse_string [] = None"
| "parse_string (c # s) =
     (if c = 34 then Some ([], s)
      else if c < 32 then None
      else if c = 92 then
        (case s of
           [] \<Rightarrow> None
         | e # t \<Rightarrow>
             if e = 117 then
               (case t of
                  h1 # h2 # h3 # h4 # t' \<Rightarrow>
                    (case hex_unit h1 h2 h3 h4 of
                       None \<Rightarrow> None
                     | Some u \<Rightarrow> map_option (\<lambda>(b, r). (u # b, r)) (parse_string t'))
                | _ \<Rightarrow> None)
             else
               (case simple_escape e of
                  None \<Rightarrow> None
                | Some u \<Rightarrow> map_option (\<lambda>(b, r). (u # b, r)) (parse_string t)))
      else map_option (\<lambda>(b, r). (c # b, r)) (parse_string s))"

section \<open>Values\<close>

definition keyword :: "string \<Rightarrow> jsval \<Rightarrow> jstr \<Rightarrow> (jsval \<times> jstr) option" where
  "keyword k v s = (if take (length k) s = js k then Some (v, drop (length k) s) else None)"

fun parse_value :: "(jsnum \<Rightarrow> jsnum) \<Rightarrow> nat \<Rightarrow> jstr \<Rightarrow> (jsval \<times> jstr) option"
  and parse_elements :: "(jsnum \<Rightarrow> jsnum) \<Rightarrow> nat \<Rightarrow> jstr \<Rightarrow> (jsval list \<times> jstr) option"
  and parse_members :: "(jsnum \<Rightarrow> jsnum) \<Rightarrow> nat \<Rightarrow> jstr \<Rightarrow> ((jstr \<times> jsval) list \<times> jstr) option" where
  "parse_value nearest 0 s = None"
| "parse_value nearest (Suc n) s =
     (case skip_ws s of
        [] \<Rightarrow> None
      | c # r \<Rightarrow>
          if c = 123 then
            (case expect 125 (skip_ws r) of
               Some t \<Rightarrow> Some (JObj [], t)
             | None \<Rightarrow> map_option (\<lambda>(kvs, t). (JObj (from_entries kvs), t)) (parse_members nearest n r))
          else if c = 91 then
            (case expect 93 (skip_ws r) of
               Some t \<Rightarrow> Some (JArr [], t)
             | None \<Rightarrow> map_option (\<lambda>(vs, t). (JArr vs, t)) (parse_elements nearest n r))
          else if c = 34 then map_option (\<lambda>(b, t). (JStr b, t)) (parse_string r)
          else if c = 116 then keyword ''true'' (JBool True) (c # r)
          else if c = 102 then keyword ''false'' (JBool False) (c # r)
          else if c = 110 then keyword ''null'' JNull (c # r)
          else map_option (\<lambda>(x, t). (JNum (nearest x), t)) (parse_number (c # r)))"
| "parse_elements nearest 0 s = None"
| "parse_elements nearest (Suc n) s =
     Option.bind (parse_value nearest n s) (\<lambda>(v, r).
       case expect 44 (skip_ws r) of
         Some t \<Rightarrow> map_option (\<lambda>(vs, u). (v # vs, u)) (parse_elements nearest n t)
       | None \<Rightarrow> map_option (\<lambda>t. ([v], t)) (expect 93 (skip_ws r)))"
| "parse_members nearest 0 s = None"
| "parse_members nearest (Suc n) s =
     Option.bind (expect 34 (skip_ws s)) (\<lambda>r.
       Option.bind (parse_string r) (\<lambda>(k, r1).
         Option.bind (expect 58 (skip_ws r1)) (\<lambda>r2.
           Option.bind (parse_value nearest n r2) (\<lambda>(v, r3).
             case expect 44 (skip_ws r3) of
               Some t \<Rightarrow> map_option (\<lambda>(kvs, u). ((k, v) # kvs, u)) (parse_members nearest n t)
             | None \<Rightarrow> map_option (\<lambda>t. ([(k, v)], t)) (expect 125 (skip_ws r3))))))"

definition json_parse :: "(jsnum \<Rightarrow> jsnum) \<Rightarrow> jstr \<Rightarrow> jsval option" where
  "json_parse nearest s =
     (case parse_value nearest (2 * length s + 2) s of
        Some (v, r) \<Rightarrow> if skip_ws r = [] then Some v else None
      | None \<Rightarrow> None)"

section \<open>Numbers read back\<close>

lemma js_punctuation:
  "js ''e'' = [101]" "js ''-'' = [45]" "js ''+'' = [43]" "js ''.'' = [46]" "js ''0'' = [48]" "js ''0.'' = [48, 46]"
  "js '','' = [44]" "js '':'' = [58]" "js ''['' = [91]" "js '']'' = [93]" "js ''{'' = [123]" "js ''}'' = [125]"
  by code_simp+

lemma digits_val_snoc [simp]: "digits_val (ds @ [c]) = 10 * digits_val ds + (unat c - 48)"
  by (simp add: digits_val_def)

lemma unat_digit: "d < 10 \<Longrightarrow> unat (48 + of_nat d :: code_unit) = 48 + d"
  by (simp add: unat_word_ariths unat_of_nat)

lemma is_digit_digit: "d < 10 \<Longrightarrow> is_digit (48 + of_nat d)"
  by (simp add: is_digit_def word_le_nat_alt unat_digit)

lemma nat_to_js_digits: "\<forall>c\<in>set (nat_to_js n). is_digit c"
  by (induction n rule: nat_to_js.induct) (subst nat_to_js.simps, auto simp: is_digit_digit)

lemma nat_to_js_nonempty [simp]: "nat_to_js n \<noteq> []"
  by (subst nat_to_js.simps) simp

lemma digits_val_nat_to_js [simp]: "digits_val (nat_to_js n) = n"
proof (induction n rule: nat_to_js.induct)
  case (1 n)
  show ?case
  proof (cases "n < 10")
    case True
    then show ?thesis by (subst nat_to_js.simps) (simp add: digits_val_def unat_digit)
  next
    case False
    then show ?thesis using 1 by (subst nat_to_js.simps) (simp add: unat_digit)
  qed
qed

lemma hd_nat_to_js: "0 < n \<Longrightarrow> hd (nat_to_js n) \<noteq> 48"
proof (induction n rule: nat_to_js.induct)
  case (1 n)
  show ?case
  proof (cases "n < 10")
    case True
    then have "unat (48 + of_nat n :: code_unit) \<noteq> unat (48 :: code_unit)" using 1(2) by (simp add: unat_digit)
    then show ?thesis using True by (subst nat_to_js.simps) auto
  next
    case False
    then show ?thesis using 1 by (subst nat_to_js.simps) simp
  qed
qed

lemma digits_val_zeros_right [simp]: "digits_val (ds @ zeros n) = digits_val ds * 10 ^ n"
proof (induction n)
  case (Suc n)
  have "ds @ zeros (Suc n) = (ds @ zeros n) @ [48]" by (simp add: zeros_def replicate_append_same)
  then show ?case using Suc by (simp del: append_assoc)
qed (simp add: zeros_def)

lemma digits_val_zeros_left [simp]: "digits_val (zeros n @ ds) = digits_val ds" "digits_val (48 # ds) = digits_val ds"
  by (induction n) (simp_all add: digits_val_def zeros_def)

lemma is_digit_zeros [simp]: "\<forall>c\<in>set (zeros n). is_digit c"
  by (simp add: zeros_def is_digit_def)

definition num_stop :: "jstr \<Rightarrow> bool" where
  "num_stop rest \<longleftrightarrow> (\<forall>c r. rest = c # r \<longrightarrow> \<not> is_digit c \<and> c \<noteq> 46 \<and> c \<noteq> 101 \<and> c \<noteq> 69)"

definition no_digit :: "jstr \<Rightarrow> bool" where
  "no_digit rest \<longleftrightarrow> (\<forall>c r. rest = c # r \<longrightarrow> \<not> is_digit c)"

lemma no_digit_simps [simp]: "no_digit []" "no_digit (c # r) \<longleftrightarrow> \<not> is_digit c"
  by (simp_all add: no_digit_def)

lemma num_stop_no_digit: "num_stop rest \<Longrightarrow> no_digit rest"
  by (auto simp: num_stop_def no_digit_def)

lemma take_digits_append:
  assumes "\<forall>c\<in>set ds. is_digit c" "ds \<noteq> []" "no_digit rest"
  shows "take_digits (ds @ rest) = Some (ds, rest)"
proof -
  have "takeWhile is_digit rest = []" "dropWhile is_digit rest = rest"
    using assms(3) by (cases rest; simp)+
  then show ?thesis using assms by (cases ds) (simp_all add: take_digits_def takeWhile_append2 dropWhile_append2)
qed

lemma parse_fraction_none: "num_stop rest \<Longrightarrow> parse_fraction rest = Some ([], rest)"
  by (cases rest) (auto simp: parse_fraction_def num_stop_def)

lemma parse_exponent_none: "num_stop rest \<Longrightarrow> parse_exponent rest = Some (0, rest)"
  by (cases rest) (auto simp: parse_exponent_def num_stop_def)

lemma parse_exponent_js:
  assumes "num_stop rest"
  shows "parse_exponent (exponent_js x @ rest) = Some (x, rest)"
proof -
  have d: "take_digits (nat_to_js k @ rest) = Some (nat_to_js k, rest)" for k
    using assms by (simp add: take_digits_append nat_to_js_digits num_stop_no_digit)
  show ?thesis by (simp add: exponent_js_def parse_exponent_def exponent_digits_def js_punctuation d)
qed

lemma norm_dec_done: "m mod 10 \<noteq> 0 \<Longrightarrow> norm_dec m e = Dec m e"
  by (subst norm_dec.simps) auto

lemma norm_dec_0 [simp]: "norm_dec 0 e = Dec 0 0"
  by (subst norm_dec.simps) simp

lemma norm_dec_shift: "m \<noteq> 0 \<Longrightarrow> norm_dec (m * 10 ^ j) e = norm_dec m (e + int j)"
proof (induction j arbitrary: e)
  case (Suc j)
  have "m * 10 ^ Suc j \<noteq> 0" "m * 10 ^ Suc j mod 10 = 0" "m * 10 ^ Suc j div 10 = m * 10 ^ j"
    using Suc.prems by auto
  then have "norm_dec (m * 10 ^ Suc j) e = norm_dec (m * 10 ^ j) (e + 1)"
    by (subst norm_dec.simps) presburger
  then show ?case using Suc by (simp add: algebra_simps)
qed simp

lemma parse_magnitude_parts:
  assumes "\<forall>c\<in>set ds. is_digit c" "ds \<noteq> []" "hd ds \<noteq> 48 \<or> length ds = 1" "no_digit r1"
    and "parse_fraction r1 = Some (fs, r2)" "parse_exponent r2 = Some (x, rest)"
  shows "parse_magnitude sign (ds @ r1) = Some (norm_dec (sign * int (digits_val (ds @ fs))) (x - int (length fs)), rest)"
  using assms by (auto simp: parse_magnitude_def take_digits_append)

lemma parse_fraction_digits:
  assumes "\<forall>c\<in>set fs. is_digit c" "fs \<noteq> []" "no_digit r"
  shows "parse_fraction (46 # fs @ r) = Some (fs, r)"
  using assms by (simp add: parse_fraction_def take_digits_append)

lemma not_digit [simp]: "\<not> is_digit 46" "\<not> is_digit 101" "is_digit 48"
  by (simp_all add: is_digit_def)

lemma no_digit_exponent [simp]: "no_digit (exponent_js x @ r)"
  by (simp add: exponent_js_def js_punctuation)

lemma parse_fraction_exponent: "parse_fraction (exponent_js x @ r) = Some ([], exponent_js x @ r)"
  by (simp add: parse_fraction_def exponent_js_def js_punctuation)

lemma parse_magnitude_js:
  assumes k: "0 < k" and stop: "num_stop rest"
  shows "parse_magnitude sign (digits_js (nat_to_js k) (int (length (nat_to_js k)) + e) @ rest) =
    Some (norm_dec (sign * int k) e, rest)"
proof -
  let ?ds = "nat_to_js k" and ?n = "int (length (nat_to_js k)) + e"
  let ?l = "length ?ds"
  have ds: "\<forall>c\<in>set ?ds. is_digit c" "hd ?ds \<noteq> 48" "0 < ?l"
    using k by (simp_all add: nat_to_js_digits hd_nat_to_js)
  have nd: "no_digit rest" using stop by (rule num_stop_no_digit)
  consider (whole) "0 \<le> e" "?n \<le> 21" | (point) "e < 0" "0 < ?n" "?n \<le> 21" | (small) "-6 < ?n" "?n \<le> 0"
    | (one) "21 < ?n \<or> ?n \<le> -6" "?l = 1" | (many) "21 < ?n \<or> ?n \<le> -6" "1 < ?l"
    using ds(3) by linarith
  then show ?thesis
  proof cases
    case whole
    have "digits_js ?ds ?n = ?ds @ zeros (nat e)" using whole by (simp add: digits_js_def Let_def)
    moreover have "parse_magnitude sign ((?ds @ zeros (nat e)) @ rest) =
        Some (norm_dec (sign * int (digits_val ((?ds @ zeros (nat e)) @ []))) (0 - int (length ([] :: jstr))), rest)"
      using ds stop nd is_digit_zeros
      by (intro parse_magnitude_parts) (auto simp: parse_fraction_none parse_exponent_none)
    ultimately show ?thesis using whole k norm_dec_shift [of "sign * int k" "nat e" 0]
      by (cases "sign = 0") (simp_all add: ac_simps)
  next
    case point
    let ?a = "take (nat ?n) ?ds" and ?b = "drop (nat ?n) ?ds"
    have ab: "?a @ ?b = ?ds" "?a \<noteq> []" "?b \<noteq> []" "length ?b = nat (- e)" using point ds(3) by auto
    have "digits_js ?ds ?n = ?a @ 46 # ?b" using point by (simp add: digits_js_def js_punctuation Let_def)
    moreover have "parse_magnitude sign (?a @ 46 # ?b @ rest) =
        Some (norm_dec (sign * int (digits_val (?a @ ?b))) (0 - int (length ?b)), rest)"
      using ds stop nd ab(2,3) set_take_subset [of "nat ?n" ?ds] set_drop_subset [of "nat ?n" ?ds]
      by (intro parse_magnitude_parts [OF _ _ _ _ parse_fraction_digits parse_exponent_none]) auto
    ultimately show ?thesis using point ab(1,4) by simp
  next
    case small
    let ?b = "zeros (nat (- ?n)) @ ?ds"
    have "e < 0" using small ds(3) by linarith
    then have "digits_js ?ds ?n = [48] @ 46 # ?b" using small by (simp add: digits_js_def js_punctuation Let_def)
    moreover have "parse_magnitude sign ([48] @ 46 # ?b @ rest) =
        Some (norm_dec (sign * int (digits_val ([48] @ ?b))) (0 - int (length ?b)), rest)"
      using ds stop nd is_digit_zeros by (intro parse_magnitude_parts [OF _ _ _ _ parse_fraction_digits parse_exponent_none]) auto
    moreover have "0 - int (length ?b) = e" using small by (simp add: zeros_def)
    ultimately show ?thesis by (simp del: length_append of_nat_add)
  next
    case one
    have "digits_js ?ds ?n = ?ds @ exponent_js e" using one by (auto simp: digits_js_def Let_def)
    moreover have "parse_magnitude sign (?ds @ exponent_js e @ rest) =
        Some (norm_dec (sign * int (digits_val (?ds @ []))) (e - int (length ([] :: jstr))), rest)"
      using ds one(2) stop by (intro parse_magnitude_parts [OF _ _ _ _ parse_fraction_exponent parse_exponent_js]) auto
    ultimately show ?thesis by simp
  next
    case many
    let ?a = "take 1 ?ds" and ?b = "drop 1 ?ds"
    have ab: "?a @ ?b = ?ds" "?a \<noteq> []" "?b \<noteq> []" "int (length ?b) = int ?l - 1" using many(2) by auto
    have "digits_js ?ds ?n = ?a @ 46 # ?b @ exponent_js (?n - 1)"
      using many by (auto simp: digits_js_def js_punctuation Let_def)
    moreover have "parse_magnitude sign (?a @ 46 # ?b @ exponent_js (?n - 1) @ rest) =
        Some (norm_dec (sign * int (digits_val (?a @ ?b))) (?n - 1 - int (length ?b)), rest)"
      using ds stop ab(2,3) set_take_subset [of 1 ?ds] set_drop_subset [of 1 ?ds]
      by (intro parse_magnitude_parts [OF _ _ _ _ parse_fraction_digits parse_exponent_js]) auto
    ultimately show ?thesis using ab(1,4) by simp
  qed
qed

lemma digits_js_hd:
  assumes "\<forall>c\<in>set ds. is_digit c" "ds \<noteq> []"
  shows "\<exists>c r. digits_js ds n = c # r \<and> is_digit c"
proof -
  obtain d ds' where ds: "ds = d # ds'" "is_digit d" using assms by (cases ds) auto
  have "take (nat n) ds = d # take (nat n - 1) ds'" if "0 < n" using that ds(1) by (simp add: take_Cons')
  then show ?thesis using ds by (simp add: digits_js_def js_punctuation Let_def)
qed

lemma parse_number_js:
  assumes "wf_num n" "num_is_finite n" "num_stop rest"
  shows "parse_number (num_to_js n @ rest) = Some (n, rest)"
proof -
  obtain m e where n: "n = Dec m e" using assms(2) by (cases n) auto
  have pos: "parse_magnitude sign (digits_js (nat_to_js (nat \<bar>m\<bar>)) (int (length (nat_to_js (nat \<bar>m\<bar>))) + e) @ rest) =
      Some (norm_dec (sign * \<bar>m\<bar>) e, rest)" if "m \<noteq> 0" for sign
    using parse_magnitude_js [of "nat \<bar>m\<bar>" rest sign e] that assms(3) by simp
  consider "m = 0" "e = 0" | "m < 0" "m mod 10 \<noteq> 0" | "0 < m" "m mod 10 \<noteq> 0"
    using assms(1) n by (cases m "0 :: int" rule: linorder_cases) auto
  then show ?thesis
  proof cases
    case 1
    have "parse_magnitude 1 ([48] @ rest) = Some (norm_dec (1 * int (digits_val ([48] @ []))) (0 - int (length ([] :: jstr))), rest)"
      using assms(3) by (intro parse_magnitude_parts) (auto simp: parse_fraction_none parse_exponent_none num_stop_no_digit)
    then show ?thesis using n 1 by (simp add: parse_number_def js_punctuation norm_dec.simps digits_val_def)
  next
    case 2
    then show ?thesis using n pos [of "-1"] by (simp add: parse_number_def js_punctuation norm_dec_done Let_def)
  next
    case 3
    have "expect 45 (digits_js (nat_to_js (nat m)) (int (length (nat_to_js (nat m))) + e) @ rest) = None"
      using digits_js_hd [of "nat_to_js (nat m)" "int (length (nat_to_js (nat m))) + e"] nat_to_js_digits
      by (auto simp: is_digit_def)
    then show ?thesis using n pos [of 1] 3 by (simp add: parse_number_def norm_dec_done Let_def)
  qed
qed

section \<open>Strings read back\<close>

lemma hex_val_digit: "n < 16 \<Longrightarrow> hex_val (hex_digit n) = Some n"
proof -
  assume "n < 16"
  then consider "n < 10" | "n = 10" | "n = 11" | "n = 12" | "n = 13" | "n = 14" | "n = 15" by linarith
  then show ?thesis
  proof cases
    case 1
    then show ?thesis by (simp add: hex_val_def hex_digit_def word_le_nat_alt unat_digit)
  qed (simp_all add: hex_val_def hex_digit_def)
qed

lemma hex_digits_val:
  fixes n :: nat
  shows "n div 4096 * 4096 + n div 256 mod 16 * 256 + n div 16 mod 16 * 16 + n mod 16 = n"
proof -
  have sum: "q3 * 4096 + r2 * 256 + r1 * 16 + r0 = m"
    if "q3 * 16 + r2 = q2" "q2 * 16 + r1 = q1" "q1 * 16 + r0 = m" for q1 q2 q3 r0 r1 r2 m :: nat
    using that by linarith
  have "n div 256 = n div 16 div 16" "n div 4096 = n div 16 div 16 div 16" by (simp_all add: div_mult2_eq [symmetric])
  then show ?thesis by (simp only:) (rule sum; rule div_mult_mod_eq)
qed

lemma hex_unit_escape:
  "hex_unit (hex_digit (unat c div 4096)) (hex_digit (unat c div 256 mod 16)) (hex_digit (unat c div 16 mod 16))
     (hex_digit (unat c mod 16)) = Some c"
proof -
  have "unat c < 65536" using unsigned_less [of c] by simp
  then have "unat c div 4096 < 16" by (simp add: div_less_iff_less_mult)
  moreover have "unat c div 4096 * 4096 + unat c div 256 mod 16 * 256 + unat c div 16 mod 16 * 16 + unat c mod 16 = unat c"
    by (rule hex_digits_val)
  ultimately show ?thesis by (simp add: hex_unit_def hex_val_digit del: of_nat_add of_nat_mult)
qed

definition prepend :: "code_unit \<Rightarrow> (jstr \<times> jstr) option \<Rightarrow> (jstr \<times> jstr) option" where
  "prepend c p = map_option (\<lambda>(b, r). (c # b, r)) p"

lemma parse_plain_unit:
  assumes "c \<noteq> 34" "\<not> c < 32" "c \<noteq> 92"
  shows "parse_string (c # t) = prepend c (parse_string t)"
  using assms by (simp add: prepend_def)

lemma parse_escaped_unit: "parse_string (escape_unit c @ t) = prepend c (parse_string t)"
proof (cases "c = 34 \<or> c = 92 \<or> c = 8 \<or> c = 9 \<or> c = 10 \<or> c = 12 \<or> c = 13")
  case True
  then show ?thesis by (auto simp: escape_unit_def simple_escape_def prepend_def)
next
  case False
  show ?thesis
  proof (cases "c < 32 \<or> is_high_surrogate c \<or> is_low_surrogate c")
    case True
    then have "escape_unit c = unicode_escape c" using False by (simp add: escape_unit_def)
    then show ?thesis by (simp add: unicode_escape_def hex_unit_escape prepend_def)
  next
    case unit: False
    then have "escape_unit c = [c]" using False by (simp add: escape_unit_def)
    then show ?thesis using False unit by (simp add: parse_plain_unit del: parse_string.simps)
  qed
qed

lemma surrogate_plain:
  assumes "is_high_surrogate c \<or> is_low_surrogate c"
  shows "c \<noteq> 34" "\<not> c < 32" "c \<noteq> 92"
  using assms by (auto simp: is_high_surrogate_def is_low_surrogate_def word_le_nat_alt word_less_nat_alt)

lemma parse_string_quote: "parse_string (quote_body s @ 34 # rest) = Some (s, rest)"
proof (induction s rule: quote_body.induct)
  case (2 c)
  then show ?case by (simp add: parse_escaped_unit prepend_def)
next
  case (3 c d s)
  show ?case
  proof (cases "is_high_surrogate c \<and> is_low_surrogate d")
    case True
    then show ?thesis using "3.IH"(1) by (simp add: parse_plain_unit surrogate_plain prepend_def del: parse_string.simps)
  next
    case False
    then have "quote_body (c # d # s) = escape_unit c @ quote_body (d # s)" by auto
    then show ?thesis using "3.IH"(2) [OF False] by (simp add: parse_escaped_unit prepend_def del: parse_string.simps quote_body.simps)
  qed
qed simp

section \<open>Values read back\<close>

text \<open>\<^verbatim>\<open>JSON.parse(JSON.stringify(v))\<close>: members that are \<^verbatim>\<open>undefined\<close> are dropped, other values JSON cannot
  write become \<^verbatim>\<open>null\<close>.\<close>

fun json_projection :: "jsval \<Rightarrow> jsval" where
  "json_projection JUndef = JNull"
| "json_projection (JNum n) = (if num_is_finite n then JNum n else JNull)"
| "json_projection (JArr vs) = JArr (map json_projection vs)"
| "json_projection (JObj kvs) = JObj (map (\<lambda>(k, v). (k, json_projection v)) (defined_entries kvs))"
| "json_projection v = v"

lemma wf_projection: "wf_val v \<Longrightarrow> wf_val (json_projection v)"
proof (induction v rule: json_projection.induct)
  case (4 kvs)
  have "distinct (map fst (defined_entries kvs))"
    using 4 by (simp add: defined_entries_def distinct_map_filter)
  then show ?case using 4 by (auto simp: comp_def case_prod_beta' defined_entries_def)
qed auto

text \<open>Every finite number of the value is a double.\<close>

fun held :: "(jsnum \<Rightarrow> jsnum) \<Rightarrow> jsval \<Rightarrow> bool" where
  "held nearest (JNum n) \<longleftrightarrow> (num_is_finite n \<longrightarrow> nearest n = n)"
| "held nearest (JArr vs) \<longleftrightarrow> (\<forall>v\<in>set vs. held nearest v)"
| "held nearest (JObj kvs) \<longleftrightarrow> (\<forall>kv\<in>set kvs. held nearest (snd kv))"
| "held nearest _ \<longleftrightarrow> True"

lemma js_keywords:
  "js ''null'' = [110, 117, 108, 108]" "js ''true'' = [116, 114, 117, 101]" "js ''false'' = [102, 97, 108, 115, 101]"
  by code_simp+

definition value_start :: "code_unit \<Rightarrow> bool" where
  "value_start c \<longleftrightarrow> is_digit c \<or> c \<in> {45, 34, 91, 123, 110, 116, 102}"

lemma value_start_facts:
  assumes "value_start c"
  shows "\<not> json_ws c" "c \<noteq> 93" "c \<noteq> 125"
  using assms by (auto simp: value_start_def json_ws_def is_digit_def)

lemma num_to_js_start:
  assumes "num_is_finite n"
  obtains c r where "num_to_js n = c # r" "is_digit c \<or> c = 45"
proof -
  obtain m e where n: "n = Dec m e" using assms by (cases n) auto
  show thesis
  proof (cases "m = 0 \<or> m < 0")
    case True
    then show thesis using that n by (auto simp: js_punctuation)
  next
    case False
    obtain c r where "digits_js (nat_to_js (nat m)) (int (length (nat_to_js (nat m))) + e) = c # r" "is_digit c"
      using digits_js_hd [of "nat_to_js (nat m)" "int (length (nat_to_js (nat m))) + e"] nat_to_js_digits by auto
    then show thesis using that n False by (simp add: Let_def)
  qed
qed

lemma stringify_start:
  obtains c r where "stringify_text v = c # r" "value_start c"
proof (cases v)
  case (JNum n)
  show thesis
  proof (cases "num_is_finite n")
    case True
    then obtain c r where "num_to_js n = c # r" "is_digit c \<or> c = 45" by (rule num_to_js_start)
    then show thesis using that JNum True by (auto simp: value_start_def)
  qed (use that JNum in \<open>auto simp: value_start_def js_keywords\<close>)
next
  case (JBool b)
  then show thesis using that by (cases b) (auto simp: value_start_def js_keywords)
qed (use that in \<open>auto simp: value_start_def js_keywords js_punctuation json_quote_def\<close>)

lemma skip_ws_start [simp]: "\<not> json_ws c \<Longrightarrow> skip_ws (c # r) = c # r"
  by (simp add: skip_ws_def)

lemma skip_ws_value: "skip_ws (stringify_text v @ rest) = stringify_text v @ rest"
  by (rule stringify_start [of v]) (simp add: value_start_facts)

definition reads :: "(jsnum \<Rightarrow> jsnum) \<Rightarrow> jsval \<Rightarrow> bool" where
  "reads nearest v \<longleftrightarrow>
     (\<forall>n rest. num_stop rest \<longrightarrow> 2 * length (stringify_text v) + 1 \<le> n \<longrightarrow>
        parse_value nearest n (stringify_text v @ rest) = Some (json_projection v, rest))"

lemma stop_facts [simp]: "num_stop []" "num_stop (44 # r)" "num_stop (93 # r)" "num_stop (125 # r)" "num_stop (10 # r)"
  by (simp_all add: num_stop_def is_digit_def)

lemma json_ws_facts [simp]: "\<not> json_ws 44" "\<not> json_ws 93" "\<not> json_ws 125" "\<not> json_ws 58" "\<not> json_ws 34"
  "\<not> json_ws 91" "\<not> json_ws 123"
  by (simp_all add: json_ws_def)

lemma parse_elements_join:
  assumes "vs \<noteq> []" "\<forall>v\<in>set vs. reads nearest v" "2 * length (join [44] (map stringify_text vs)) + 2 \<le> n"
  shows "parse_elements nearest n (join [44] (map stringify_text vs) @ 93 # rest) = Some (map json_projection vs, rest)"
  using assms
proof (induction vs arbitrary: n)
  case (Cons v vs)
  obtain k where n: "n = Suc k" using Cons.prems(3) by (cases n) auto
  have v: "parse_value nearest k (stringify_text v @ r) = Some (json_projection v, r)"
    if "num_stop r" "2 * length (stringify_text v) + 1 \<le> k" for r
    using Cons.prems(2) that by (simp add: reads_def)
  show ?case
  proof (cases vs)
    case Nil
    then show ?thesis using n v Cons.prems(3) by simp
  next
    case (Cons w ws)
    then show ?thesis using n v Cons.prems Cons.IH [of k] by simp
  qed
qed simp

lemma parse_members_join:
  assumes "kvs \<noteq> []" "\<forall>kv\<in>set kvs. reads nearest (snd kv)"
    "2 * length (join [44] (map (\<lambda>kv. json_quote (fst kv) @ 58 # stringify_text (snd kv)) kvs)) + 2 \<le> n"
  shows "parse_members nearest n (join [44] (map (\<lambda>kv. json_quote (fst kv) @ 58 # stringify_text (snd kv)) kvs) @ 125 # rest) =
    Some (map (\<lambda>(k, v). (k, json_projection v)) kvs, rest)"
  using assms
proof (induction kvs arbitrary: n)
  case (Cons kv kvs)
  obtain m where n: "n = Suc m" using Cons.prems(3) by (cases n) auto
  obtain k v where kv: "kv = (k, v)" by (cases kv)
  have v: "parse_value nearest m (stringify_text v @ r) = Some (json_projection v, r)"
    if "num_stop r" "2 * length (stringify_text v) + 1 \<le> m" for r
    using Cons.prems(2) that kv by (simp add: reads_def)
  show ?case
  proof (cases kvs)
    case Nil
    then show ?thesis using n v kv Cons.prems(3) by (simp add: json_quote_def parse_string_quote)
  next
    case (Cons w ws)
    then show ?thesis using n v kv Cons.prems Cons.IH [of m] by (simp add: json_quote_def parse_string_quote)
  qed
qed simp

lemma parse_object_start:
  assumes "kvs \<noteq> []"
  shows "expect 125 (skip_ws (join [44] (map (\<lambda>kv. json_quote (fst kv) @ 58 # stringify_text (snd kv)) kvs) @ r)) = None"
proof -
  obtain k v rest where "kvs = (k, v) # rest" using assms by (cases kvs) auto
  then show ?thesis by (cases rest) (simp_all add: json_quote_def)
qed

lemma parse_array_start:
  assumes "vs \<noteq> []"
  shows "expect 93 (skip_ws (join [44] (map stringify_text vs) @ r)) = None"
proof -
  obtain v rest where vs: "vs = v # rest" using assms by (cases vs) auto
  obtain c t where "stringify_text v = c # t" "value_start c" by (rule stringify_start)
  then show ?thesis using vs by (cases rest) (simp_all add: value_start_facts)
qed

lemma stringify_object:
  "stringify_text (JObj kvs) =
     123 # join [44] (map (\<lambda>kv. json_quote (fst kv) @ 58 # stringify_text (snd kv)) (defined_entries kvs)) @ [125]"
  "stringify_text (JArr vs) = 91 # join [44] (map stringify_text vs) @ [93]"
  by (simp_all add: js_punctuation)

lemma readsI:
  assumes "\<And>k rest. num_stop rest \<Longrightarrow> 2 * length (stringify_text v) \<le> k \<Longrightarrow>
    parse_value nearest (Suc k) (stringify_text v @ rest) = Some (json_projection v, rest)"
  shows "reads nearest v"
  unfolding reads_def using assms by (metis Suc_eq_plus1 Suc_le_D Suc_le_mono)

lemma reads_number:
  assumes "wf_num n" "num_is_finite n" "nearest n = n"
  shows "reads nearest (JNum n)"
proof (rule readsI)
  fix k rest
  assume "num_stop rest"
  obtain c r where c: "num_to_js n = c # r" "is_digit c \<or> c = 45" using assms(2) by (rule num_to_js_start)
  have "\<not> json_ws c" "c \<noteq> 123" "c \<noteq> 91" "c \<noteq> 34" "c \<noteq> 116" "c \<noteq> 102" "c \<noteq> 110"
    using c(2) by (auto simp: is_digit_def json_ws_def)
  moreover have "parse_number (c # r @ rest) = Some (n, rest)"
    using parse_number_js [OF assms(1,2) \<open>num_stop rest\<close>] c(1) by simp
  ultimately show "parse_value nearest (Suc k) (stringify_text (JNum n) @ rest) = Some (json_projection (JNum n), rest)"
    using c(1) assms by simp
qed

lemma reads_null: "stringify_text v = js ''null'' \<Longrightarrow> json_projection v = JNull \<Longrightarrow> reads nearest v"
  by (rule readsI) (simp add: keyword_def js_keywords json_ws_def)

lemma reads_array:
  assumes "\<And>v. v \<in> set vs \<Longrightarrow> reads nearest v"
  shows "reads nearest (JArr vs)"
proof (cases "vs = []")
  case True
  then show ?thesis by (intro readsI) (simp add: js_punctuation)
next
  case False
  then show ?thesis using assms
    by (intro readsI) (simp add: stringify_object parse_elements_join parse_array_start del: stringify_text.simps)
qed

lemma reads_object:
  assumes "\<And>kv. kv \<in> set (defined_entries kvs) \<Longrightarrow> reads nearest (snd kv)" "distinct (map fst kvs)"
  shows "reads nearest (JObj kvs)"
proof (cases "defined_entries kvs = []")
  case True
  then show ?thesis by (intro readsI) (simp add: js_punctuation)
next
  case False
  have "distinct (map fst (map (\<lambda>(k, v). (k, json_projection v)) (defined_entries kvs)))"
    using assms(2) by (simp add: defined_entries_def distinct_map_filter comp_def case_prod_beta')
  then show ?thesis using assms(1) False
    by (intro readsI)
      (simp add: stringify_object parse_members_join parse_object_start del: stringify_text.simps)
qed

lemma reads_value: "wf_val v \<Longrightarrow> held nearest v \<Longrightarrow> reads nearest v"
proof (induction v rule: stringify_text.induct)
  case (4 n)
  then show ?case using reads_number by (cases "num_is_finite n") (auto intro: reads_null)
next
  case (5 s)
  show ?case by (rule readsI) (simp add: json_quote_def parse_string_quote)
next
  case (6 vs)
  then show ?case by (intro reads_array) simp
next
  case (7 kvs)
  then show ?case by (intro reads_object) (auto simp: defined_entries_def)
next
  case (3 b)
  show ?case by (rule readsI) (cases b; simp add: keyword_def js_keywords json_ws_def)
qed (auto intro: reads_null)

lemma json_parse_stringify:
  assumes "wf_val v" "held nearest v" "\<forall>c\<in>set ws. json_ws c"
  shows "json_parse nearest (stringify_text v @ ws) = Some (json_projection v)"
proof -
  have "num_stop ws" using assms(3) by (cases ws) (auto simp: num_stop_def json_ws_def is_digit_def)
  moreover have "skip_ws ws = []" using assms(3) by (simp add: skip_ws_def)
  ultimately show ?thesis
    using reads_value [OF assms(1,2)] by (simp add: json_parse_def reads_def del: parse_value.simps)
qed

section \<open>Fuel\<close>

lemma skip_ws_le: "length (skip_ws s) \<le> length s"
  by (simp add: skip_ws_def length_dropWhile_le)

lemma expect_length: "expect c s = Some r \<Longrightarrow> length s = Suc (length r)"
  by (cases s) (auto split: if_splits)

lemma expect_skip: "expect c (skip_ws s) = Some r \<Longrightarrow> length r < length s"
  using skip_ws_le [of s] expect_length [of c "skip_ws s" r] by simp

lemma parse_string_step:
  assumes "parse_string s = Some (b, r)"
  shows "length r < length s \<or> (\<exists>t b'. length t < length s \<and> parse_string t = Some (b', r))"
proof (cases s)
  case (Cons c t)
  consider (quote) "c = 34" | (escape) "c \<noteq> 34" "\<not> c < 32" "c = 92" | (plain) "c \<noteq> 34" "\<not> c < 32" "c \<noteq> 92"
    using assms Cons by (cases "c = 34"; cases "c < 32"; cases "c = 92") auto
  then show ?thesis
  proof cases
    case escape
    then obtain e u where t: "t = e # u" using assms Cons by (cases t) auto
    show ?thesis
    proof (cases "e = 117")
      case True
      then obtain h1 h2 h3 h4 u' where u: "u = h1 # h2 # h3 # h4 # u'"
        using assms Cons t escape by (auto split: list.splits)
      then obtain b' where "parse_string u' = Some (b', r)"
        using assms Cons t True escape by (auto split: option.splits)
      then show ?thesis using Cons t u by (intro disjI2 exI [of _ u'] exI [of _ b']) simp
    next
      case False
      then obtain b' where "parse_string u = Some (b', r)"
        using assms Cons t escape by (auto split: option.splits)
      then show ?thesis using Cons t by (intro disjI2 exI [of _ u] exI [of _ b']) simp
    qed
  next
    case plain
    then obtain b' where "parse_string t = Some (b', r)" using assms Cons by auto
    then show ?thesis using Cons by (intro disjI2 exI [of _ t] exI [of _ b']) simp
  qed (use assms Cons in auto)
qed (use assms in simp)

lemma parse_string_length: "parse_string s = Some (b, r) \<Longrightarrow> length r < length s"
proof (induction "length s" arbitrary: s b rule: less_induct)
  case less
  then show ?case using parse_string_step [OF less.prems] by (meson less_trans)
qed

lemma take_digits_length: "take_digits s = Some (ds, r) \<Longrightarrow> length r < length s"
proof -
  assume "take_digits s = Some (ds, r)"
  then have "takeWhile is_digit s \<noteq> []" "r = dropWhile is_digit s" by (auto simp: take_digits_def split: list.splits)
  then show ?thesis by (metis add_less_cancel_right length_append length_greater_0_conv takeWhile_dropWhile_id less_add_same_cancel2)
qed

lemma parse_number_length: "parse_number s = Some (x, r) \<Longrightarrow> length r < length s"
proof -
  have frac: "length t \<le> length u" if "parse_fraction u = Some (fs, t)" for u fs t
    using that take_digits_length expect_length [of 46 u]
    by (fastforce simp: parse_fraction_def split: option.splits)
  have ex: "length t \<le> length u" if "parse_exponent u = Some (y, t)" for u y t
    using that take_digits_length expect_length
    by (fastforce simp: parse_exponent_def exponent_digits_def split: list.splits option.splits if_splits)
  have mag: "length t < length u" if "parse_magnitude sign u = Some (y, t)" for sign u y t
    using that frac ex take_digits_length
    by (fastforce simp: parse_magnitude_def bind_eq_Some_conv split: if_splits prod.splits)
  assume "parse_number s = Some (x, r)"
  then show ?thesis using mag expect_length [of 45 s]
    by (fastforce simp: parse_number_def split: option.splits)
qed

lemma keyword_length: "keyword k v s = Some (w, r) \<Longrightarrow> k \<noteq> [] \<Longrightarrow> length r < length s"
  by (cases s; cases k) (auto simp: keyword_def split: if_splits)

lemma parse_consumes:
  "(\<forall>s v r. parse_value nearest n s = Some (v, r) \<longrightarrow> length r < length s) \<and>
   (\<forall>s vs r. parse_elements nearest n s = Some (vs, r) \<longrightarrow> length r < length s) \<and>
   (\<forall>s kvs r. parse_members nearest n s = Some (kvs, r) \<longrightarrow> length r < length s)"
proof (induction n)
  case (Suc n)
  have "length r < length s" if "parse_value nearest (Suc n) s = Some (v, r)" for s v r
  proof -
    note given = that
    obtain c t where c: "skip_ws s = c # t" using given by (cases "skip_ws s") auto
    then have le: "length t < length s" using skip_ws_le [of s] by simp
    have "length r < Suc (length t)"
      using given c Suc.IH expect_skip [of _ t r] parse_string_length [of t] parse_number_length [of "c # t"]
        keyword_length [of _ _ "c # t"]
      by (auto split: if_splits option.splits intro: less_SucI)
    then show ?thesis using le by simp
  qed
  moreover have "length r < length s" if "parse_elements nearest (Suc n) s = Some (vs, r)" for s vs r
  proof -
    note given = that
    obtain v t where v: "parse_value nearest n s = Some (v, t)" using given by (auto simp: bind_eq_Some_conv)
    then have "length t < length s" using Suc.IH by blast
    moreover have "length r < length t"
      using given v Suc.IH expect_skip [of _ t] by (fastforce split: option.splits)
    ultimately show ?thesis by simp
  qed
  moreover have "length r < length s" if "parse_members nearest (Suc n) s = Some (kvs, r)" for s kvs r
  proof -
    note given = that
    obtain t k t1 t2 v t3 where parts: "expect 34 (skip_ws s) = Some t" "parse_string t = Some (k, t1)"
      "expect 58 (skip_ws t1) = Some t2" "parse_value nearest n t2 = Some (v, t3)"
      using given by (auto simp: bind_eq_Some_conv)
    then have "length t3 < length s"
      using Suc.IH expect_skip parse_string_length by (meson less_trans)
    moreover have "length r < length t3"
      using given parts Suc.IH expect_skip [of _ t3] by (fastforce split: option.splits)
    ultimately show ?thesis by simp
  qed
  ultimately show ?case by blast
qed simp

definition fuel_ok :: "(jsnum \<Rightarrow> jsnum) \<Rightarrow> nat \<Rightarrow> bool" where
  "fuel_ok nearest n \<longleftrightarrow>
     (\<forall>s m. 2 * length s + 1 \<le> n \<longrightarrow> n \<le> m \<longrightarrow> parse_value nearest m s = parse_value nearest n s) \<and>
     (\<forall>s m. 2 * length s + 2 \<le> n \<longrightarrow> n \<le> m \<longrightarrow> parse_elements nearest m s = parse_elements nearest n s) \<and>
     (\<forall>s m. 2 * length s + 2 \<le> n \<longrightarrow> n \<le> m \<longrightarrow> parse_members nearest m s = parse_members nearest n s)"

lemma fuel_okD:
  assumes "fuel_ok nearest n" "n \<le> m"
  shows "2 * length s + 1 \<le> n \<Longrightarrow> parse_value nearest m s = parse_value nearest n s"
    "2 * length s + 2 \<le> n \<Longrightarrow> parse_elements nearest m s = parse_elements nearest n s"
    "2 * length s + 2 \<le> n \<Longrightarrow> parse_members nearest m s = parse_members nearest n s"
  using assms unfolding fuel_ok_def by blast+

lemma fuel_value:
  assumes IH: "fuel_ok nearest n" and given: "2 * length s + 1 \<le> Suc n" "Suc n \<le> m"
  shows "parse_value nearest m s = parse_value nearest (Suc n) s"
proof -
    obtain k where m: "m = Suc k" "n \<le> k" using given(2) by (cases m) auto
  show ?thesis
  proof (cases "skip_ws s")
    case (Cons c r)
    then have "2 * length r + 2 \<le> n" using skip_ws_le [of s] given(1) by simp
    then have "parse_members nearest k r = parse_members nearest n r" "parse_elements nearest k r = parse_elements nearest n r"
      using fuel_okD(2,3) [OF IH m(2)] by blast+
    then show ?thesis using m(1) Cons by (simp split: option.split)
  qed (simp add: m(1))
qed

lemma fuel_elements:
  assumes IH: "fuel_ok nearest n" and given: "2 * length s + 2 \<le> Suc n" "Suc n \<le> m"
  shows "parse_elements nearest m s = parse_elements nearest (Suc n) s"
proof -
    obtain k where m: "m = Suc k" "n \<le> k" using given(2) by (cases m) auto
  have v: "parse_value nearest k s = parse_value nearest n s" using fuel_okD(1) [OF IH m(2)] given(1) by simp
  have "parse_elements nearest k t = parse_elements nearest n t"
    if "parse_value nearest n s = Some (v, r)" "expect 44 (skip_ws r) = Some t" for v r t
  proof -
    have "length r < length s" using parse_consumes that(1) by blast
    then have "2 * length t + 2 \<le> n" using expect_skip [OF that(2)] given(1) by simp
    then show ?thesis using fuel_okD(2) [OF IH m(2)] by blast
  qed
  then show ?thesis using m(1) v by (cases "parse_value nearest n s") (auto split: option.split)
qed

lemma fuel_members:
  assumes IH: "fuel_ok nearest n" and given: "2 * length s + 2 \<le> Suc n" "Suc n \<le> m"
  shows "parse_members nearest m s = parse_members nearest (Suc n) s"
proof -
    obtain k where m: "m = Suc k" "n \<le> k" using given(2) by (cases m) auto
  have v: "parse_value nearest k t = parse_value nearest n t" if "length t < length s" for t
    using fuel_okD(1) [OF IH m(2)] that given(1) by simp
  have e: "parse_members nearest k t = parse_members nearest n t" if "length t < length s" for t
    using fuel_okD(3) [OF IH m(2)] that given(1) by simp
  show ?thesis
  proof (cases "Option.bind (expect 34 (skip_ws s)) parse_string")
    case None
    then show ?thesis using m(1) by (cases "expect 34 (skip_ws s)") simp_all
  next
    case (Some kr)
    then obtain r key r1 where r: "expect 34 (skip_ws s) = Some r" "parse_string r = Some (key, r1)"
      by (cases kr) (auto simp: bind_eq_Some_conv)
    have r1: "length r1 < length s" using expect_skip [OF r(1)] parse_string_length [OF r(2)] by simp
    show ?thesis
    proof (cases "expect 58 (skip_ws r1)")
      case None
      then show ?thesis using m(1) r by simp
    next
      case (Some r2)
      then have r2: "length r2 < length s" using r1 expect_skip [OF Some] by simp
      show ?thesis
      proof (cases "parse_value nearest n r2")
        case None
        then show ?thesis using m(1) r Some v [OF r2] by simp
      next
        case (Some w)
        then obtain x r3 where w: "parse_value nearest n r2 = Some (x, r3)" by (cases w) auto
        then have "length r3 < length s" using r2 parse_consumes by (meson less_trans)
        then have "parse_members nearest k t = parse_members nearest n t" if "expect 44 (skip_ws r3) = Some t" for t
          using e [of t] expect_skip [OF that] by simp
        then show ?thesis using m(1) r \<open>expect 58 (skip_ws r1) = Some r2\<close> v [OF r2] w by (simp split: option.split)
      qed
    qed
  qed
qed

lemma fuel_enough: "fuel_ok nearest n"
proof (induction n)
  case (Suc n)
  show ?case
    unfolding fuel_ok_def
    by (intro conjI allI impI) (blast intro: fuel_value [OF Suc] fuel_elements [OF Suc] fuel_members [OF Suc])+
qed (simp add: fuel_ok_def)

lemma parse_fuel:
  "2 * length s + 2 \<le> n \<Longrightarrow> parse_value nearest n s = parse_value nearest (2 * length s + 2) s"
  by (rule fuel_okD(1) [OF fuel_enough]) simp_all

end
