(* ===== verification/Json_Rpc.thy ===== *)
theory Json_Rpc
  imports Json_Parse
begin

text \<open>
  The wire messages of the Machine protocol (\<^verbatim>\<open>packages/machine-protocol\<close>): the JSON-RPC
  message types (\<^verbatim>\<open>json-rpc.ts\<close>), the value guards (\<^verbatim>\<open>values.ts\<close>), the closed error
  codes (\<^verbatim>\<open>errors.ts\<close>), the bounds (\<^verbatim>\<open>constants.ts\<close>) and the frame codec (\<^verbatim>\<open>frame.ts\<close>).
  The decoder reads with \<open>json_parse\<close>, whose \<open>None\<close> is the exception the source's \<^verbatim>\<open>try\<close> catches.
\<close>

section \<open>Bounds and error codes\<close>

definition CONTROL_STREAM_ID :: int where
  "CONTROL_STREAM_ID = 0"

definition MAX_MESSAGE_BYTES :: nat where
  "MAX_MESSAGE_BYTES = 1024 * 1024"

definition MAX_FRAME_BYTES :: nat where
  "MAX_FRAME_BYTES = MAX_MESSAGE_BYTES + 512"

definition HEARTBEAT_INTERVAL_MS :: int where
  "HEARTBEAT_INTERVAL_MS = 15000"

definition HEARTBEAT_MISSES :: int where
  "HEARTBEAT_MISSES = 3"

definition MAX_CONCURRENT_STREAMS :: nat where
  "MAX_CONCURRENT_STREAMS = 64"

definition CANCEL_NOTIFICATION :: jstr where
  "CANCEL_NOTIFICATION = js ''cancel''"

datatype machine_error_code =
    Path_Not_Registered
  | Budget_Exhausted
  | Incompatible_Version
  | Invalid_Params
  | Internal

fun code_text :: "machine_error_code \<Rightarrow> jstr" where
  "code_text Path_Not_Registered = js ''path_not_registered''"
| "code_text Budget_Exhausted = js ''budget_exhausted''"
| "code_text Incompatible_Version = js ''incompatible_version''"
| "code_text Invalid_Params = js ''invalid_params''"
| "code_text Internal = js ''internal''"

definition MACHINE_ERROR_CODES :: "machine_error_code list" where
  "MACHINE_ERROR_CODES = [Path_Not_Registered, Budget_Exhausted, Incompatible_Version, Invalid_Params, Internal]"

fun MACHINE_ERROR_JSON_RPC :: "machine_error_code \<Rightarrow> int" where
  "MACHINE_ERROR_JSON_RPC Path_Not_Registered = -32001"
| "MACHINE_ERROR_JSON_RPC Budget_Exhausted = -32002"
| "MACHINE_ERROR_JSON_RPC Incompatible_Version = -32003"
| "MACHINE_ERROR_JSON_RPC Invalid_Params = -32602"
| "MACHINE_ERROR_JSON_RPC Internal = -32603"

text \<open>\<^verbatim>\<open>isMachineErrorCode\<close>, as the code a string spells.\<close>

definition isMachineErrorCode :: "jstr \<Rightarrow> machine_error_code option" where
  "isMachineErrorCode value = find (\<lambda>code. code_text code = value) MACHINE_ERROR_CODES"

lemma isMachineErrorCode_text [simp]: "isMachineErrorCode (code_text c) = Some c"
  by (cases c) (simp_all add: isMachineErrorCode_def MACHINE_ERROR_CODES_def)

section \<open>Messages\<close>

datatype json_rpc_id = IdNum jsnum | IdStr jstr

text \<open>An optional property is an option; an error may carry the id \<^verbatim>\<open>null\<close>.\<close>

datatype message =
    Request json_rpc_id jstr "jsval option"
  | Notification jstr "jsval option"
  | Success json_rpc_id jsval
  | Failure "json_rpc_id option" jsnum jstr "jsval option"

record frame =
  frame_s :: int
  frame_m :: message

fun has_id :: "message \<Rightarrow> bool" where
  "has_id (Notification _ _) \<longleftrightarrow> False"
| "has_id _ \<longleftrightarrow> True"

fun has_method :: "message \<Rightarrow> bool" where
  "has_method (Request _ _ _) \<longleftrightarrow> True"
| "has_method (Notification _ _) \<longleftrightarrow> True"
| "has_method _ \<longleftrightarrow> False"

definition isJsonRpcRequest :: "message \<Rightarrow> bool" where
  "isJsonRpcRequest m \<longleftrightarrow> has_id m \<and> has_method m"

definition isJsonRpcNotification :: "message \<Rightarrow> bool" where
  "isJsonRpcNotification m \<longleftrightarrow> \<not> has_id m \<and> has_method m"

definition isJsonRpcSuccess :: "message \<Rightarrow> bool" where
  "isJsonRpcSuccess m \<longleftrightarrow> has_id m \<and> (case m of Success _ _ \<Rightarrow> True | _ \<Rightarrow> False)"

definition isJsonRpcError :: "message \<Rightarrow> bool" where
  "isJsonRpcError m \<longleftrightarrow> has_id m \<and> (case m of Failure _ _ _ _ \<Rightarrow> True | _ \<Rightarrow> False)"

section \<open>Guards on decoded values\<close>

fun isSerializableRecord :: "jsval \<Rightarrow> (jstr \<times> jsval) list option" where
  "isSerializableRecord (JObj kvs) = Some kvs"
| "isSerializableRecord _ = None"

fun isStringValue :: "jsval \<Rightarrow> jstr option" where
  "isStringValue (JStr s) = Some s"
| "isStringValue _ = None"

fun isIntegerValue :: "jsval \<Rightarrow> jsnum option" where
  "isIntegerValue (JNum n) = (if num_is_integer n then Some n else None)"
| "isIntegerValue _ = None"

fun isIdValue :: "jsval \<Rightarrow> json_rpc_id option" where
  "isIdValue (JStr s) = Some (IdStr s)"
| "isIdValue (JNum n) = (if num_is_integer n then Some (IdNum n) else None)"
| "isIdValue _ = None"

text \<open>An optional property read from a record: absent when it is \<^verbatim>\<open>undefined\<close>.\<close>

definition opt_val :: "jsval \<Rightarrow> jsval option" where
  "opt_val v = (if v = JUndef then None else Some v)"

section \<open>Decoding messages\<close>

definition toError :: "(jstr \<times> jsval) list \<Rightarrow> jsval \<Rightarrow> message option" where
  "toError record err =
     (case isSerializableRecord err of
        None \<Rightarrow> None
      | Some e \<Rightarrow>
          (case (isIntegerValue (get_prop e (js ''code'')), isStringValue (get_prop e (js ''message''))) of
             (Some code, Some msg) \<Rightarrow>
               (let raw = get_prop record (js ''id''); data = opt_val (get_prop e (js ''data'')) in
                if raw = JNull \<or> raw = JUndef then Some (Failure None code msg data)
                else (case isIdValue raw of
                        None \<Rightarrow> None
                      | Some i \<Rightarrow> Some (Failure (Some i) code msg data)))
           | _ \<Rightarrow> None))"

definition toCall :: "(jstr \<times> jsval) list \<Rightarrow> jstr \<Rightarrow> message option" where
  "toCall record meth =
     (let params = opt_val (get_prop record (js ''params'')); raw = get_prop record (js ''id'') in
      if raw = JUndef then Some (Notification meth params)
      else (case isIdValue raw of None \<Rightarrow> None | Some i \<Rightarrow> Some (Request i meth params)))"

definition toSuccess :: "(jstr \<times> jsval) list \<Rightarrow> message option" where
  "toSuccess record =
     (case isIdValue (get_prop record (js ''id'')) of
        None \<Rightarrow> None
      | Some i \<Rightarrow> (let r = get_prop record (js ''result'') in if r = JUndef then None else Some (Success i r)))"

definition toJsonRpcMessage :: "jsval \<Rightarrow> message option" where
  "toJsonRpcMessage value =
     (case isSerializableRecord value of
        None \<Rightarrow> None
      | Some record \<Rightarrow>
          if get_prop record (js ''jsonrpc'') \<noteq> JStr (js ''2.0'') then None
          else (let err = get_prop record (js ''error''); meth = get_prop record (js ''method'') in
                if err \<noteq> JUndef then toError record err
                else if meth \<noteq> JUndef then
                  (case isStringValue meth of
                     None \<Rightarrow> None
                   | Some name \<Rightarrow> if get_prop record (js ''result'') = JUndef then toCall record name else None)
                else toSuccess record))"

section \<open>Encoding messages\<close>

fun id_val :: "json_rpc_id \<Rightarrow> jsval" where
  "id_val (IdNum n) = JNum n"
| "id_val (IdStr s) = JStr s"

definition opt_entry :: "string \<Rightarrow> jsval option \<Rightarrow> (jstr \<times> jsval) list" where
  "opt_entry k v = (case v of None \<Rightarrow> [] | Some x \<Rightarrow> [(js k, x)])"

text \<open>The object a message is, with its properties in the order the sources write them.\<close>

fun message_val :: "message \<Rightarrow> jsval" where
  "message_val (Request i meth params) =
     JObj ([(js ''jsonrpc'', JStr (js ''2.0'')), (js ''id'', id_val i), (js ''method'', JStr meth)]
           @ opt_entry ''params'' params)"
| "message_val (Notification meth params) =
     JObj ([(js ''jsonrpc'', JStr (js ''2.0'')), (js ''method'', JStr meth)] @ opt_entry ''params'' params)"
| "message_val (Success i r) =
     JObj [(js ''jsonrpc'', JStr (js ''2.0'')), (js ''id'', id_val i), (js ''result'', r)]"
| "message_val (Failure i code msg data) =
     JObj [(js ''jsonrpc'', JStr (js ''2.0'')), (js ''id'', case i of None \<Rightarrow> JNull | Some x \<Rightarrow> id_val x),
           (js ''error'', JObj ([(js ''code'', JNum code), (js ''message'', JStr msg)] @ opt_entry ''data'' data))]"

definition frame_val :: "frame \<Rightarrow> jsval" where
  "frame_val f = JObj [(js ''s'', JNum (num_of_int (frame_s f))), (js ''m'', message_val (frame_m f))]"

datatype frame_error = FrameSizeError nat

definition encodeFrame :: "frame \<Rightarrow> frame_error + jstr" where
  "encodeFrame f =
     (let byteSize = byte_length (stringify_text (message_val (frame_m f))) in
      if byteSize > MAX_MESSAGE_BYTES then Inl (FrameSizeError byteSize)
      else Inr (stringify_text (frame_val f) @ [10]))"

section \<open>Decoding frames\<close>

datatype frame_decode_result =
    Decoded frame
  | Malformed "int option"
  | Oversize int

definition parseJsonObject :: "(jsnum \<Rightarrow> jsnum) \<Rightarrow> jstr \<Rightarrow> (jstr \<times> jsval) list option" where
  "parseJsonObject nearest line =
     (case json_parse nearest line of None \<Rightarrow> None | Some v \<Rightarrow> isSerializableRecord v)"

definition decodeFrame :: "(jsnum \<Rightarrow> jsnum) \<Rightarrow> jstr \<Rightarrow> frame_decode_result" where
  "decodeFrame nearest line =
     (case parseJsonObject nearest line of
        None \<Rightarrow> Malformed None
      | Some parsed \<Rightarrow>
          (case isIntegerValue (get_prop parsed (js ''s'')) of
             None \<Rightarrow> Malformed None
           | Some n \<Rightarrow>
               if num_negative n then Malformed None
               else
                 (let stream = int_of_num n; msg = get_prop parsed (js ''m'') in
                  if msg = JUndef then Malformed (Some stream)
                  else if (case json_stringify msg of
                             None \<Rightarrow> False
                           | Some serialized \<Rightarrow> byte_length serialized > MAX_MESSAGE_BYTES)
                       then Oversize stream
                  else (case toJsonRpcMessage msg of
                          None \<Rightarrow> Malformed (Some stream)
                        | Some m \<Rightarrow> Decoded \<lparr>frame_s = stream, frame_m = m\<rparr>))))"

section \<open>Lemmas\<close>

text \<open>A message the sender may build: ids are whole numbers or strings, an error's code is
  a whole number, and no payload is \<^verbatim>\<open>undefined\<close> (the types of \<^verbatim>\<open>json-rpc.ts\<close>).\<close>

fun wf_id :: "json_rpc_id \<Rightarrow> bool" where
  "wf_id (IdNum n) \<longleftrightarrow> num_is_integer n \<and> wf_num n"
| "wf_id (IdStr _) \<longleftrightarrow> True"

definition wf_opt :: "jsval option \<Rightarrow> bool" where
  "wf_opt v \<longleftrightarrow> (\<forall>x. v = Some x \<longrightarrow> x \<noteq> JUndef \<and> wf_val x)"

fun wf_message :: "message \<Rightarrow> bool" where
  "wf_message (Request i _ params) \<longleftrightarrow> wf_id i \<and> wf_opt params"
| "wf_message (Notification _ params) \<longleftrightarrow> wf_opt params"
| "wf_message (Success i r) \<longleftrightarrow> wf_id i \<and> r \<noteq> JUndef \<and> wf_val r"
| "wf_message (Failure i code _ data) \<longleftrightarrow>
     (\<forall>x. i = Some x \<longrightarrow> wf_id x) \<and> num_is_integer code \<and> wf_num code \<and> wf_opt data"

lemma isIdValue_id_val [simp]: "wf_id i \<Longrightarrow> isIdValue (id_val i) = Some i"
  by (cases i) auto

lemma id_val_defined [simp]: "id_val i \<noteq> JUndef" "id_val i \<noteq> JNull"
  by (cases i; simp)+

lemmas message_key_simps = get_prop_def opt_entry_def opt_val_def wf_opt_def

lemma toJsonRpcMessage_message_val:
  "wf_message m \<Longrightarrow> toJsonRpcMessage (message_val m) = Some m"
proof (induction m)
  case (Request i meth params)
  then show ?case
    by (auto simp: toJsonRpcMessage_def toCall_def message_key_simps split: option.splits)
next
  case (Notification meth params)
  then show ?case
    by (auto simp: toJsonRpcMessage_def toCall_def message_key_simps split: option.splits)
next
  case (Success i r)
  then show ?case by (auto simp: toJsonRpcMessage_def toSuccess_def message_key_simps)
next
  case (Failure i code msg data)
  then show ?case
    by (cases i; cases data) (auto simp: toJsonRpcMessage_def toError_def message_key_simps)
qed

lemma message_val_defined [simp]: "message_val m \<noteq> JUndef"
  by (cases m) auto

lemma num_negative_num_of_int [simp]: "num_negative (num_of_int i) \<longleftrightarrow> i < 0"
proof -
  have "num_negative (norm_dec m e) \<longleftrightarrow> m < 0" for m e
  proof (induction m e rule: norm_dec.induct)
    case (1 m e)
    show ?case
    proof (cases "m = 0 \<or> m mod 10 \<noteq> 0")
      case True
      then show ?thesis by (subst norm_dec.simps) auto
    next
      case False
      then have "m = 10 * (m div 10)" by auto
      then have "m div 10 < 0 \<longleftrightarrow> m < 0" by linarith
      then show ?thesis using "1.IH" False by (subst norm_dec.simps) simp
    qed
  qed
  then show ?thesis by (simp add: num_of_int_def)
qed

end
