(* ===== verification/Framer.thy ===== *)
theory Framer
  imports Json_Rpc
begin

text \<open>
  The two small state machines under a Machine session: the newline framer
  (\<^verbatim>\<open>packages/machine-protocol/src/framer.ts\<close>) and the heartbeat (\<^verbatim>\<open>heartbeat.ts\<close>).

  The framer is proved to implement an abstract specification on the whole stream text
  (\<open>frame_spec\<close>), however the stream is cut into chunks, and to buffer no more than the
  frame bound. Node's \<^verbatim>\<open>StringDecoder\<close> is the argument \<open>dec_write\<close>; it hands on whole
  code points, which is the hypothesis \<open>chunks_safe\<close> of the refinement.
\<close>

section \<open>The line framer\<close>

datatype framer_event = Line jstr | OversizeLine

datatype chunk = TextChunk jstr | BufferChunk "8 word list"

record framer =
  fr_pending :: jstr
  fr_pendingBytes :: nat
  fr_skipping :: bool

definition createLineFramer :: framer where
  "createLineFramer = \<lparr>fr_pending = [], fr_pendingBytes = 0, fr_skipping = False\<rparr>"

text \<open>What one turn of the loop takes: the text up to the first newline, and what follows
  the newline (\<open>None\<close> when the text is not terminated).\<close>

definition line_body :: "jstr \<Rightarrow> jstr" where
  "line_body rest = takeWhile (\<lambda>c. c \<noteq> 10) rest"

definition line_rest :: "jstr \<Rightarrow> jstr option" where
  "line_rest rest = (case dropWhile (\<lambda>c. c \<noteq> 10) rest of [] \<Rightarrow> None | _ # r \<Rightarrow> Some r)"

definition framer_turn :: "nat \<Rightarrow> framer \<Rightarrow> jstr \<Rightarrow> bool \<Rightarrow> framer \<times> framer_event list" where
  "framer_turn maxLineBytes f body terminated =
     (if fr_skipping f then (if terminated then f\<lparr>fr_skipping := False\<rparr> else f, [])
      else
        (let pending = fr_pending f @ body; pendingBytes = fr_pendingBytes f + byte_length body in
         if pendingBytes > maxLineBytes
         then (\<lparr>fr_pending = [], fr_pendingBytes = 0, fr_skipping = \<not> terminated\<rparr>, [OversizeLine])
         else if \<not> terminated
         then (f\<lparr>fr_pending := pending, fr_pendingBytes := pendingBytes\<rparr>, [])
         else (f\<lparr>fr_pending := [], fr_pendingBytes := 0\<rparr>, [Line pending])))"

lemma line_rest_length [termination_simp]: "line_rest rest = Some r \<Longrightarrow> length r < length rest"
proof -
  assume "line_rest rest = Some r"
  then have "length r < length (dropWhile (\<lambda>c. c \<noteq> 10) rest)"
    by (auto simp: line_rest_def split: list.splits)
  also have "\<dots> \<le> length rest" by (rule length_dropWhile_le)
  finally show ?thesis .
qed

function push_text :: "nat \<Rightarrow> framer \<Rightarrow> jstr \<Rightarrow> framer \<times> framer_event list" where
  "push_text maxLineBytes f rest =
     (if rest = [] then (f, [])
      else
        (case line_rest rest of
           None \<Rightarrow> framer_turn maxLineBytes f (line_body rest) False
         | Some rest' \<Rightarrow>
             (let (f', evs) = framer_turn maxLineBytes f (line_body rest) True;
                  (f'', evs') = push_text maxLineBytes f' rest'
              in (f'', evs @ evs'))))"
  by pat_completeness auto
termination
  by (relation "measure (\<lambda>(_, _, rest). length rest)") (auto dest: line_rest_length)

declare push_text.simps [simp del]

text \<open>\<^verbatim>\<open>push(chunk)\<close>: a buffer goes through the decoder first.\<close>

fun push :: "('d \<Rightarrow> 8 word list \<Rightarrow> 'd \<times> jstr) \<Rightarrow> nat \<Rightarrow> 'd \<times> framer \<Rightarrow> chunk \<Rightarrow> ('d \<times> framer) \<times> framer_event list" where
  "push dec_write maxLineBytes (d, f) (TextChunk t) =
     (let (f', evs) = push_text maxLineBytes f t in ((d, f'), evs))"
| "push dec_write maxLineBytes (d, f) (BufferChunk b) =
     (let (d', t) = dec_write d b; (f', evs) = push_text maxLineBytes f t in ((d', f'), evs))"

fun push_texts :: "nat \<Rightarrow> framer \<Rightarrow> jstr list \<Rightarrow> framer \<times> framer_event list" where
  "push_texts maxLineBytes f [] = (f, [])"
| "push_texts maxLineBytes f (t # ts) =
     (let (f', evs) = push_text maxLineBytes f t; (f'', evs') = push_texts maxLineBytes f' ts
      in (f'', evs @ evs'))"

fun push_all :: "('d \<Rightarrow> 8 word list \<Rightarrow> 'd \<times> jstr) \<Rightarrow> nat \<Rightarrow> 'd \<times> framer \<Rightarrow> chunk list \<Rightarrow> ('d \<times> framer) \<times> framer_event list" where
  "push_all dec_write maxLineBytes s [] = (s, [])"
| "push_all dec_write maxLineBytes s (c # cs) =
     (let (s', evs) = push dec_write maxLineBytes s c; (s'', evs') = push_all dec_write maxLineBytes s' cs
      in (s'', evs @ evs'))"

fun decoded_texts :: "('d \<Rightarrow> 8 word list \<Rightarrow> 'd \<times> jstr) \<Rightarrow> 'd \<Rightarrow> chunk list \<Rightarrow> jstr list" where
  "decoded_texts dec_write d [] = []"
| "decoded_texts dec_write d (TextChunk t # cs) = t # decoded_texts dec_write d cs"
| "decoded_texts dec_write d (BufferChunk b # cs) =
     (let (d', t) = dec_write d b in t # decoded_texts dec_write d' cs)"

lemma push_all_texts:
  "snd (push_all dec_write m (d, f) cs) = snd (push_texts m f (decoded_texts dec_write d cs))"
proof (induction cs arbitrary: d f)
  case (Cons c cs)
  then show ?case by (cases c) (auto simp: split_beta Let_def)
qed simp

section \<open>The framer's specification\<close>

text \<open>The complete lines of a text, and what follows the last newline.\<close>

fun text_lines :: "jstr \<Rightarrow> jstr \<Rightarrow> jstr list \<times> jstr" where
  "text_lines acc [] = ([], acc)"
| "text_lines acc (c # cs) =
     (if c = 10 then (let (ls, r) = text_lines [] cs in (acc # ls, r)) else text_lines (acc @ [c]) cs)"

definition classify_line :: "nat \<Rightarrow> jstr \<Rightarrow> framer_event" where
  "classify_line m l = (if byte_length l \<le> m then Line l else OversizeLine)"

definition overrun :: "nat \<Rightarrow> jstr \<Rightarrow> framer_event list" where
  "overrun m r = (if byte_length r \<le> m then [] else [OversizeLine])"

definition frame_spec :: "nat \<Rightarrow> jstr \<Rightarrow> framer_event list" where
  "frame_spec m text =
     (let (ls, r) = text_lines [] text in map (classify_line m) ls @ overrun m r)"

fun chunks_safe :: "jstr \<Rightarrow> jstr list \<Rightarrow> bool" where
  "chunks_safe p [] \<longleftrightarrow> True"
| "chunks_safe p (t # ts) \<longleftrightarrow> pair_safe p t \<and> chunks_safe (p @ t) ts"

definition tail_of :: "jstr \<Rightarrow> jstr" where
  "tail_of p = snd (text_lines [] p)"

definition lines_of :: "jstr \<Rightarrow> jstr list" where
  "lines_of p = fst (text_lines [] p)"

lemma frame_spec_alt: "frame_spec m p = map (classify_line m) (lines_of p) @ overrun m (tail_of p)"
  by (simp add: frame_spec_def lines_of_def tail_of_def split_beta Let_def)

lemma text_lines_append:
  "text_lines acc (p @ t) =
     (fst (text_lines acc p) @ fst (text_lines (snd (text_lines acc p)) t),
      snd (text_lines (snd (text_lines acc p)) t))"
  by (induction p arbitrary: acc) (auto simp: split_beta Let_def)

lemma text_lines_no_newline: "10 \<notin> set t \<Longrightarrow> text_lines acc t = ([], acc @ t)"
  by (induction t arbitrary: acc) auto

lemma tail_lines_append_body:
  assumes "10 \<notin> set b"
  shows "tail_of (p @ b) = tail_of p @ b" "lines_of (p @ b) = lines_of p"
  using assms by (simp_all add: tail_of_def lines_of_def text_lines_append text_lines_no_newline)

lemma tail_lines_append_line:
  assumes "10 \<notin> set b"
  shows "tail_of (p @ b @ [10]) = []" "lines_of (p @ b @ [10]) = lines_of p @ [tail_of p @ b]"
  using assms by (simp_all add: tail_of_def lines_of_def text_lines_append text_lines_no_newline)

lemma tail_of_suffix: "\<exists>a. p = a @ tail_of p"
proof -
  have "\<exists>a. acc @ p = a @ snd (text_lines acc p)" for acc
  proof (induction p arbitrary: acc)
    case (Cons c p)
    show ?case
    proof (cases "c = 10")
      case True
      from Cons [of "[]"] obtain a where "p = a @ snd (text_lines [] p)" by auto
      then have "acc @ c # p = (acc @ c # a) @ snd (text_lines acc (c # p))"
        using True by (simp add: split_beta Let_def)
      then show ?thesis by blast
    next
      case False
      then show ?thesis using Cons [of "acc @ [c]"] by simp
    qed
  qed simp
  from this [of "[]"] show ?thesis by (simp add: tail_of_def)
qed

lemma pair_safe_tail: "pair_safe p t \<Longrightarrow> pair_safe (tail_of p) t"
  using tail_of_suffix [of p] by (metis append_is_Nil_conv last_append pair_safe_def)

lemma pair_safe_prefix: "pair_safe p (a @ b) \<Longrightarrow> pair_safe p a"
  by (cases a) (auto simp: pair_safe_def)

lemma line_split:
  assumes "rest \<noteq> []"
  shows "line_rest rest = None \<Longrightarrow> line_body rest = rest \<and> 10 \<notin> set rest"
    and "line_rest rest = Some r \<Longrightarrow> rest = line_body rest @ [10] @ r"
    and "10 \<notin> set (line_body rest)"
proof -
  have split: "rest = line_body rest @ dropWhile (\<lambda>c. c \<noteq> 10) rest"
    by (simp add: line_body_def)
  show no: "10 \<notin> set (line_body rest)" by (auto simp: line_body_def dest: set_takeWhileD)
  show "line_rest rest = None \<Longrightarrow> line_body rest = rest \<and> 10 \<notin> set rest"
    using split no by (auto simp: line_rest_def split: list.splits)
  assume "line_rest rest = Some r"
  then obtain c where c: "dropWhile (\<lambda>c. c \<noteq> 10) rest = c # r"
    by (auto simp: line_rest_def split: list.splits)
  then have "c = 10" using hd_dropWhile [of "\<lambda>c. c \<noteq> 10" rest] by simp
  with c split show "rest = line_body rest @ [10] @ r" by simp
qed

section \<open>Refinement\<close>

text \<open>The state stands for the text since the last newline: it is buffered, or it has been
  reported as oversize and is being skipped.\<close>

definition framer_rel :: "nat \<Rightarrow> framer \<Rightarrow> jstr \<Rightarrow> bool" where
  "framer_rel m f q \<longleftrightarrow>
     (if fr_skipping f then m < byte_length q \<and> fr_pending f = [] \<and> fr_pendingBytes f = 0
      else fr_pending f = q \<and> fr_pendingBytes f = byte_length q \<and> byte_length q \<le> m)"

lemma framer_turn_refines:
  assumes rel: "framer_rel m f q" and safe: "pair_safe q b"
    and turn: "framer_turn m f b terminated = (f', evs)"
  shows "framer_rel m f' (if terminated then [] else q @ b)"
    and "overrun m q @ evs =
         (if terminated then [classify_line m (q @ b)] else overrun m (q @ b))"
proof -
  have len: "byte_length (q @ b) = byte_length q + byte_length b"
    using safe by (rule byte_length_append)
  show "framer_rel m f' (if terminated then [] else q @ b)"
    using rel turn len
    by (auto simp: framer_rel_def framer_turn_def Let_def split: if_splits)
  show "overrun m q @ evs =
         (if terminated then [classify_line m (q @ b)] else overrun m (q @ b))"
    using rel turn len
    by (auto simp: framer_rel_def framer_turn_def overrun_def classify_line_def Let_def split: if_splits)
qed

lemma push_text_refines:
  assumes "framer_rel m f (tail_of p)" and "pair_safe (tail_of p) t"
    and "push_text m f t = (f', evs)"
  shows "framer_rel m f' (tail_of (p @ t)) \<and> frame_spec m (p @ t) = frame_spec m p @ evs"
  using assms
proof (induction m f t arbitrary: p f' evs rule: push_text.induct)
  case (1 m f rest)
  show ?case
  proof (cases "rest = []")
    case True
    then show ?thesis using "1.prems" by (simp add: push_text.simps)
  next
    case ne: False
    note split = line_split [OF ne]
    show ?thesis
    proof (cases "line_rest rest")
      case None
      then have b: "line_body rest = rest" "10 \<notin> set rest" using split(1) by auto
      have turn: "framer_turn m f rest False = (f', evs)"
        using "1.prems"(3) ne None b by (simp add: push_text.simps)
      from framer_turn_refines [OF "1.prems"(1,2) turn] b(2) show ?thesis
        by (simp add: frame_spec_alt tail_lines_append_body)
    next
      case (Some rest')
      let ?b = "line_body rest"
      obtain f1 evs1 where turn: "framer_turn m f ?b True = (f1, evs1)" by force
      obtain f2 evs2 where loop: "push_text m f1 rest' = (f2, evs2)" by force
      have out: "f' = f2" "evs = evs1 @ evs2"
        using "1.prems"(3) ne Some turn loop by (simp_all add: push_text.simps)
      have r: "rest = ?b @ [10] @ rest'" using split(2) [OF Some] .
      have safe: "pair_safe (tail_of p) ?b" using "1.prems"(2) r by (metis pair_safe_prefix)
      note t = framer_turn_refines [OF "1.prems"(1) safe turn]
      note tl = tail_lines_append_line [OF split(3), of p]
      have "framer_rel m f2 (tail_of ((p @ ?b @ [10]) @ rest')) \<and>
          frame_spec m ((p @ ?b @ [10]) @ rest') = frame_spec m (p @ ?b @ [10]) @ evs2"
      proof (rule "1.IH" [OF ne Some refl _ _ _ loop])
        show "(f1, evs1) = framer_turn m f ?b True" using turn by simp
        show "framer_rel m f1 (tail_of (p @ ?b @ [10]))" using t(1) tl by simp
        show "pair_safe (tail_of (p @ ?b @ [10])) rest'" using tl by (simp add: pair_safe_def)
      qed
      moreover have "frame_spec m (p @ ?b @ [10]) = frame_spec m p @ evs1"
        using t(2) tl by (simp add: frame_spec_alt overrun_def)
      ultimately show ?thesis using out r by (metis append.assoc)
    qed
  qed
qed

lemma push_texts_refines:
  assumes "framer_rel m f (tail_of p)" and "chunks_safe p ts"
    and "push_texts m f ts = (f', evs)"
  shows "frame_spec m (p @ concat ts) = frame_spec m p @ evs"
  using assms
proof (induction ts arbitrary: p f f' evs)
  case (Cons t ts)
  obtain f1 evs1 where a: "push_text m f t = (f1, evs1)" by force
  obtain f2 evs2 where b: "push_texts m f1 ts = (f2, evs2)" by force
  from Cons.prems have safe: "pair_safe (tail_of p) t" by (simp add: pair_safe_tail)
  note r = push_text_refines [OF Cons.prems(1) safe a]
  have "frame_spec m ((p @ t) @ concat ts) = frame_spec m (p @ t) @ evs2"
    using Cons.IH [of f1 "p @ t", OF _ _ b] r Cons.prems(2) by simp
  then show ?case using r a b Cons.prems(3) by simp
qed simp

lemma frame_spec_Nil [simp]: "frame_spec m [] = []"
  by (simp add: frame_spec_def overrun_def)

lemma framer_rel_init: "framer_rel m createLineFramer (tail_of [])"
  by (simp add: framer_rel_def createLineFramer_def tail_of_def)

lemma push_all_spec:
  assumes "chunks_safe [] (decoded_texts dec_write d chunks)"
  shows "snd (push_all dec_write m (d, createLineFramer) chunks) = frame_spec m (concat (decoded_texts dec_write d chunks))"
proof -
  let ?ts = "decoded_texts dec_write d chunks"
  obtain f evs where run: "push_texts m createLineFramer ?ts = (f, evs)" by force
  from push_texts_refines [OF framer_rel_init assms run]
  show ?thesis by (simp add: push_all_texts run)
qed

text \<open>What is buffered never passes the bound, whatever is pushed.\<close>

definition framer_bounded :: "nat \<Rightarrow> framer \<Rightarrow> bool" where
  "framer_bounded m f \<longleftrightarrow> fr_pendingBytes f \<le> m \<and> length (fr_pending f) \<le> fr_pendingBytes f"

lemma framer_turn_bounded: "framer_bounded m f \<Longrightarrow> framer_bounded m (fst (framer_turn m f b t))"
  using byte_length_bounds [of b] by (auto simp: framer_bounded_def framer_turn_def Let_def)

lemma push_text_bounded: "framer_bounded m f \<Longrightarrow> framer_bounded m (fst (push_text m f t))"
proof (induction m f t rule: push_text.induct)
  case (1 m f rest)
  have t: "framer_bounded m (fst (framer_turn m f (line_body rest) b))" for b
    using "1.prems" by (rule framer_turn_bounded)
  show ?case
  proof (cases "rest = [] \<or> line_rest rest = None")
    case True
    then show ?thesis using t "1.prems" by (auto simp: push_text.simps)
  next
    case False
    then obtain r where r: "rest \<noteq> []" "line_rest rest = Some r" by auto
    from "1.IH" [OF r refl surjective_pairing [symmetric] t] r show ?thesis
      by (simp add: push_text.simps [of m f rest] split_beta)
  qed
qed

lemma push_texts_bounded: "framer_bounded m f \<Longrightarrow> framer_bounded m (fst (push_texts m f ts))"
  by (induction ts arbitrary: f) (auto simp: split_beta Let_def push_text_bounded)

section \<open>The heartbeat\<close>

text \<open>Times are milliseconds of the injected clock. \<open>hb_timer\<close> says whether the interval timer
  is installed; its callback runs as the event \<open>Tick\<close>.\<close>

record heartbeat =
  hb_lastSeen :: int
  hb_timer :: bool

datatype hb_event = Start | Record | Stop | Tick
datatype hb_effect = SendPing | OnLost

definition createHeartbeat :: heartbeat where
  "createHeartbeat = \<lparr>hb_lastSeen = 0, hb_timer = False\<rparr>"

definition hb_stop :: "heartbeat \<Rightarrow> heartbeat" where
  "hb_stop h = (if hb_timer h then h\<lparr>hb_timer := False\<rparr> else h)"

fun hb_step :: "int \<Rightarrow> int \<Rightarrow> heartbeat \<Rightarrow> int \<Rightarrow> hb_event \<Rightarrow> heartbeat \<times> hb_effect list" where
  "hb_step intervalMs misses h now Start =
     (if hb_timer h then (h, []) else (h\<lparr>hb_lastSeen := now, hb_timer := True\<rparr>, []))"
| "hb_step intervalMs misses h now Record = (h\<lparr>hb_lastSeen := now\<rparr>, [])"
| "hb_step intervalMs misses h now Stop = (hb_stop h, [])"
| "hb_step intervalMs misses h now Tick =
     (if \<not> hb_timer h then (h, [])
      else if now - hb_lastSeen h \<ge> intervalMs * misses then (hb_stop h, [OnLost])
      else (h, [SendPing]))"

text \<open>A run over timed events gives the effects with the time they happened at.\<close>

fun hb_run :: "int \<Rightarrow> int \<Rightarrow> heartbeat \<Rightarrow> (int \<times> hb_event) list \<Rightarrow> heartbeat \<times> (int \<times> hb_effect) list" where
  "hb_run i n h [] = (h, [])"
| "hb_run i n h ((t, e) # es) =
     (let (h', fx) = hb_step i n h t e; (h'', fxs) = hb_run i n h' es
      in (h'', map (Pair t) fx @ fxs))"

lemma hb_run_append:
  "hb_run i n h (es @ es') =
     (let (h', fx) = hb_run i n h es; (h'', fx') = hb_run i n h' es' in (h'', fx @ fx'))"
  by (induction es arbitrary: h) (auto simp: split_beta Let_def)

lemma hb_run_silent:
  "\<not> hb_timer h \<Longrightarrow> Start \<notin> snd ` set es \<Longrightarrow>
   \<not> hb_timer (fst (hb_run i n h es)) \<and> snd (hb_run i n h es) = []"
proof (induction es arbitrary: h)
  case (Cons te es)
  obtain t e where te: "te = (t, e)" by force
  then have "\<not> hb_timer (fst (hb_step i n h t e)) \<and> snd (hb_step i n h t e) = []"
    using Cons.prems by (cases e) (auto simp: hb_stop_def)
  with Cons te show ?case by (auto simp: split_beta Let_def)
qed simp

text \<open>\<open>lastSeen\<close> is the time of the last event that proved the peer alive.\<close>

lemma hb_lastSeen_ge:
  assumes "sorted (map fst es)" and "\<forall>t\<in>fst ` set es. hb_lastSeen h \<le> t"
  shows "hb_lastSeen h \<le> hb_lastSeen (fst (hb_run i n h es))"
    and "(u, Record) \<in> set es \<Longrightarrow> u \<le> hb_lastSeen (fst (hb_run i n h es))"
proof -
  have "hb_lastSeen h \<le> hb_lastSeen (fst (hb_run i n h es)) \<and>
      ((u, Record) \<in> set es \<longrightarrow> u \<le> hb_lastSeen (fst (hb_run i n h es)))"
    using assms
  proof (induction es arbitrary: h)
    case (Cons te es)
    obtain t e where te: "te = (t, e)" by force
    let ?h = "fst (hb_step i n h t e)"
    have le: "hb_lastSeen h \<le> hb_lastSeen ?h" "hb_lastSeen ?h \<le> t"
      using Cons.prems te by (cases e; auto simp: hb_stop_def)+
    have rec: "e = Record \<Longrightarrow> hb_lastSeen ?h = t" by simp
    have "\<forall>x\<in>fst ` set es. hb_lastSeen ?h \<le> x" using Cons.prems te le by fastforce
    from Cons.IH [OF _ this] Cons.prems te le rec show ?case
      by (auto simp: split_beta Let_def)
  qed simp
  then show "hb_lastSeen h \<le> hb_lastSeen (fst (hb_run i n h es))"
    and "(u, Record) \<in> set es \<Longrightarrow> u \<le> hb_lastSeen (fst (hb_run i n h es))" by auto
qed

section \<open>Properties\<close>

text \<open>C7: Line framing does not depend on how the stream is chunked. However the decoded
  stream is cut (never inside a surrogate pair, which the UTF-8 decoder guarantees), the
  framer reports exactly the events of the specification on the whole text: each complete
  line within the bound once, each line beyond it as one oversize event, in stream order.\<close>

theorem framer_refines_spec:
  assumes "chunks_safe [] (decoded_texts dec_write d chunks)"
  shows "snd (push_all dec_write maxLineBytes (d, createLineFramer) chunks) =
    frame_spec maxLineBytes (concat (decoded_texts dec_write d chunks))"
  using assms by (rule push_all_spec)

theorem framer_refines_spec_witness:
  "snd (push_all (\<lambda>d b. (d, map ucast b)) 4 ((), createLineFramer)
      [TextChunk (js ''ab''), BufferChunk [99, 10], TextChunk (js ''toolong'')]) = [Line (js ''abc''), OversizeLine]"
proof -
  let ?cs = "[TextChunk (js ''ab''), BufferChunk [99, 10], TextChunk (js ''toolong'')]"
  let ?dw = "\<lambda>(d::unit) (b :: 8 word list). (d, map ucast b :: jstr)"
  have "chunks_safe [] (decoded_texts ?dw () ?cs)"
    by (simp add: pair_safe_def is_high_surrogate_def is_low_surrogate_def js.simps)
  from framer_refines_spec [OF this, of 4]
  have "snd (push_all ?dw 4 ((), createLineFramer) ?cs) =
      frame_spec 4 (concat (decoded_texts ?dw () ?cs))" .
  also have "\<dots> = [Line (js ''abc''), OversizeLine]"
    by (simp add: frame_spec_def classify_line_def overrun_def is_high_surrogate_def js.simps)
  finally show ?thesis .
qed

text \<open>The framer never buffers more than the frame bound: after any chunks whatsoever the
  pending byte count is at most the bound, and it bounds the length of the buffered text.\<close>

lemma framer_buffer_bounded:
  "fr_pendingBytes (fst (push_texts maxLineBytes createLineFramer ts)) \<le> maxLineBytes \<and>
   length (fr_pending (fst (push_texts maxLineBytes createLineFramer ts)))
     \<le> fr_pendingBytes (fst (push_texts maxLineBytes createLineFramer ts))"
  using push_texts_bounded [of maxLineBytes createLineFramer ts]
  by (simp add: framer_bounded_def createLineFramer_def)

text \<open>A heartbeat reports a lost peer only after a full miss window of silence: with a
  clock that never goes back, when the timer reports the loss at time \<open>t\<close>, every earlier
  inbound frame arrived at least \<open>intervalMs * misses\<close> before \<open>t\<close>; and after the report the
  timer is stopped, so neither a ping nor a second report follows until a new start.\<close>

lemma heartbeat_lost_after_silence:
  assumes "sorted (map fst es @ [t])" and "\<forall>u\<in>fst ` set es. 0 \<le> u"
    and "hb_step i n (fst (hb_run i n createHeartbeat es)) t Tick = (h', [OnLost])"
    and "Start \<notin> snd ` set es'"
  shows "(\<forall>u. (u, Record) \<in> set es \<longrightarrow> u + i * n \<le> t) \<and> snd (hb_run i n h' es') = []"
proof -
  let ?h = "fst (hb_run i n createHeartbeat es)"
  have lost: "hb_timer ?h" "t - hb_lastSeen ?h \<ge> i * n" "h' = hb_stop ?h"
    using assms(3) by (auto split: if_splits)
  have "u + i * n \<le> t" if "(u, Record) \<in> set es" for u
  proof -
    have "u \<le> hb_lastSeen ?h"
      using hb_lastSeen_ge(2) [of es createHeartbeat u i n] assms(1,2) that
      by (auto simp: createHeartbeat_def sorted_append)
    with lost show ?thesis by simp
  qed
  moreover have "snd (hb_run i n (hb_stop ?h) es') = []"
    using hb_run_silent [of "hb_stop ?h" es' i n] assms(4) by (simp add: hb_stop_def)
  ultimately show ?thesis using lost by simp
qed

theorem heartbeat_lost_after_silence_witness:
  "hb_step 10 3 (fst (hb_run 10 3 createHeartbeat [(0, Start), (5, Record)])) 40 Tick =
     (\<lparr>hb_lastSeen = 5, hb_timer = False\<rparr>, [OnLost]) \<and>
   5 + 10 * 3 \<le> (40::int) \<and> snd (hb_run 10 3 \<lparr>hb_lastSeen = 5, hb_timer = False\<rparr> [(50, Tick)]) = []"
proof -
  have lost: "hb_step 10 3 (fst (hb_run 10 3 createHeartbeat [(0, Start), (5, Record)])) 40 Tick =
      (\<lparr>hb_lastSeen = 5, hb_timer = False\<rparr>, [OnLost])"
    by (simp add: createHeartbeat_def hb_stop_def)
  have "(\<forall>u. (u, Record) \<in> set [(0, Start), (5, Record)] \<longrightarrow> u + 10 * 3 \<le> (40::int)) \<and>
      snd (hb_run 10 3 \<lparr>hb_lastSeen = 5, hb_timer = False\<rparr> [(50, Tick)]) = []"
    by (rule heartbeat_lost_after_silence [OF _ _ lost]) simp_all
  with lost show ?thesis by simp
qed

end
