(* ===== verification/Wire.thy ===== *)
theory Wire
  imports Framer Json_Rpc
begin

text \<open>
  The composition of the frame codec (\<^verbatim>\<open>frame.ts\<close>) with the line framer (\<^verbatim>\<open>framer.ts\<close>): what one
  side encodes, the other side frames and decodes. A sent frame is one the types of
  \<^verbatim>\<open>json-rpc.ts\<close> allow, on a stream id that is a safe integer, with a payload JSON can write.
\<close>

section \<open>The text of a value holds no newline\<close>

lemma digit_not_newline: "\<forall>c\<in>set s. is_digit c \<Longrightarrow> 10 \<notin> set s"
  by (auto simp: is_digit_def)

lemma nat_to_js_line [simp]: "10 \<notin> set (nat_to_js n)"
  by (intro digit_not_newline nat_to_js_digits)

lemma zeros_line [simp]: "10 \<notin> set (zeros n)"
  by (simp add: zeros_def)

lemma exponent_line [simp]: "10 \<notin> set (exponent_js x)"
  by (simp add: exponent_js_def js_punctuation)

lemma part_line: "x \<notin> set xs \<Longrightarrow> x \<notin> set (take n xs)" "x \<notin> set xs \<Longrightarrow> x \<notin> set (drop n xs)"
  by (auto dest: in_set_takeD in_set_dropD)

lemma digits_js_line: "10 \<notin> set ds \<Longrightarrow> 10 \<notin> set (digits_js ds n)"
  by (simp add: digits_js_def Let_def js_punctuation part_line)

lemma num_to_js_line [simp]: "num_is_finite n \<Longrightarrow> 10 \<notin> set (num_to_js n)"
  by (cases n) (simp_all add: js_punctuation digits_js_line Let_def)

lemma escape_unit_line [simp]: "10 \<notin> set (escape_unit c)"
proof -
  have hex: "10 \<noteq> hex_digit n" if "n < 16" for n
    using hex_val_digit [OF that] by (auto simp: hex_val_def)
  have "unat c div 4096 < 16" using unsigned_less [of c] by (simp add: div_less_iff_less_mult)
  then have "10 \<notin> set (unicode_escape c)" by (simp add: unicode_escape_def hex)
  then show ?thesis by (auto simp: escape_unit_def)
qed

lemma quote_line [simp]: "10 \<notin> set (json_quote s)"
proof -
  have "10 \<notin> set (quote_body s)"
    by (induction s rule: quote_body.induct) (auto simp: is_high_surrogate_def is_low_surrogate_def)
  then show ?thesis by (simp add: json_quote_def)
qed

lemma join_line: "10 \<notin> set sep \<Longrightarrow> \<forall>x\<in>set xs. 10 \<notin> set x \<Longrightarrow> 10 \<notin> set (join sep xs)"
  by (induction sep xs rule: join.induct) auto

lemma stringify_line [simp]: "10 \<notin> set (stringify_text v)"
proof (induction v rule: stringify_text.induct)
  case (6 vs)
  then show ?case by (simp add: stringify_object join_line del: stringify_text.simps)
next
  case (7 kvs)
  then have "10 \<notin> set (join [44] (map (\<lambda>kv. json_quote (fst kv) @ 58 # stringify_text (snd kv)) (defined_entries kvs)))"
    by (intro join_line) auto
  then show ?case by (simp add: stringify_object del: stringify_text.simps)
qed (auto simp: js_keywords)

section \<open>The size of a frame\<close>

lemma length_nat_to_js: "n < 10 ^ k \<Longrightarrow> 0 < k \<Longrightarrow> length (nat_to_js n) \<le> k"
proof (induction k arbitrary: n)
  case (Suc k)
  show ?case
  proof (cases "n < 10")
    case True
    then show ?thesis by (subst nat_to_js.simps) simp
  next
    case False
    then have "n div 10 < 10 ^ k" "0 < k" using Suc.prems by (cases k; auto)+
    then show ?thesis using Suc.IH [of "n div 10"] False by (subst nat_to_js.simps) simp
  qed
qed simp

lemma length_nat_to_js_shift: "0 < m \<Longrightarrow> length (nat_to_js (m * 10 ^ j)) = length (nat_to_js m) + j"
proof (induction j)
  case (Suc j)
  have "0 < m * 10 ^ j" using Suc.prems by simp
  then have "\<not> m * 10 ^ Suc j < 10" unfolding power_Suc by linarith
  then show ?case using Suc by (subst nat_to_js.simps) simp
qed simp

lemma length_stream_id:
  assumes "0 \<le> i" "i < 2 ^ 53"
  shows "length (num_to_js (num_of_int i)) \<le> 16"
proof -
  obtain m e where n: "num_of_int i = Dec m e" "0 \<le> e" "m * 10 ^ nat e = i"
    using num_is_integer_num_of_int [of i] int_of_num_of_int [of i] by (cases "num_of_int i") auto
  show ?thesis
  proof (cases "m = 0")
    case False
    then have m: "0 < m" using n(3) assms(1) by (metis False less_le zero_le_mult_iff zero_less_power zero_less_numeral linorder_not_le)
    have "length (nat_to_js (nat m)) + nat e = length (nat_to_js (nat i))"
      using length_nat_to_js_shift [of "nat m" "nat e"] m n(3) by (simp add: nat_mult_distrib nat_power_eq flip: n(3))
    moreover have "length (nat_to_js (nat i)) \<le> 16" using assms by (intro length_nat_to_js) auto
    ultimately have len: "length (nat_to_js (nat m)) + nat e \<le> 16" by simp
    then have "int (length (nat_to_js (nat m))) + e \<le> 21" by linarith
    then have "num_to_js (Dec m e) = nat_to_js (nat m) @ zeros (nat e)"
      using n(2) m by (simp add: digits_js_def Let_def)
    then show ?thesis using n(1) len by (simp add: zeros_def)
  qed (simp add: n)
qed

section \<open>What can be sent\<close>

definition sendable :: "(jsnum \<Rightarrow> jsnum) \<Rightarrow> frame \<Rightarrow> bool" where
  "sendable nearest f \<longleftrightarrow>
     0 \<le> frame_s f \<and> frame_s f < 2 ^ 53 \<and> nearest (num_of_int (frame_s f)) = num_of_int (frame_s f) \<and>
     wf_message (frame_m f) \<and> held nearest (message_val (frame_m f)) \<and>
     json_projection (message_val (frame_m f)) = message_val (frame_m f) \<and>
     byte_length (stringify_text (message_val (frame_m f))) \<le> MAX_MESSAGE_BYTES"

lemma wf_val_id [simp]: "wf_id i \<Longrightarrow> wf_val (id_val i)"
  by (cases i) auto

lemma wf_message_val: "wf_message m \<Longrightarrow> wf_val (message_val m)"
  by (cases m) (auto simp: opt_entry_def wf_opt_def split: option.splits)

lemma num_of_int_finite [simp]: "num_is_finite (num_of_int i)"
  using num_is_integer_num_of_int [of i] by (cases "num_of_int i") auto

definition frame_line :: "frame \<Rightarrow> jstr" where
  "frame_line f = stringify_text (frame_val f)"

lemma decode_frame_line:
  assumes "sendable nearest f"
  shows "decodeFrame nearest (frame_line f) = Decoded f"
proof -
  have f: "wf_val (frame_val f)" "held nearest (frame_val f)" "json_projection (frame_val f) = frame_val f"
    using assms wf_message_val [of "frame_m f"]
    by (simp_all add: sendable_def frame_val_def defined_entries_def)
  have "json_parse nearest (frame_line f) = Some (frame_val f)"
    using json_parse_stringify [OF f(1,2), of "[]"] f(3) by (simp add: frame_line_def)
  then show ?thesis
    using assms toJsonRpcMessage_message_val [of "frame_m f"]
    by (simp add: decodeFrame_def parseJsonObject_def frame_val_def get_prop_def sendable_def)
qed

lemma frame_line_size:
  assumes "sendable nearest f"
  shows "byte_length (frame_line f) \<le> MAX_FRAME_BYTES"
proof -
  let ?n = "num_to_js (num_of_int (frame_s f))" and ?t = "stringify_text (message_val (frame_m f))"
  let ?p = "123 # json_quote (js ''s'') @ 58 # ?n @ 44 # json_quote (js ''m'') @ [58]"
  have line: "frame_line f = ?p @ ?t @ [125]"
    by (simp add: frame_line_def frame_val_def stringify_object defined_entries_def del: stringify_text.simps(7))
  have "length (json_quote (js ''s'')) = 3" "length (json_quote (js ''m'')) = 3" by code_simp+
  then have "length ?p \<le> 26" using length_stream_id [of "frame_s f"] assms by (simp add: sendable_def)
  then have p: "byte_length ?p \<le> 78" using byte_length_bounds [of ?p] by linarith
  have "pair_safe ?p (?t @ [125])" "pair_safe ?t [125]"
    by (simp_all add: pair_safe_def is_high_surrogate_def is_low_surrogate_def)
  then have "byte_length (frame_line f) = byte_length ?p + (byte_length ?t + 1)"
    unfolding line by (simp add: byte_length_append del: append_assoc append.simps)
  then show ?thesis using p assms by (simp add: sendable_def MAX_FRAME_BYTES_def)
qed

lemma encode_sendable:
  assumes "sendable nearest f"
  shows "encodeFrame f = Inr (frame_line f @ [10])"
  using assms by (simp add: encodeFrame_def frame_line_def sendable_def Let_def)

lemma lines_of_frames:
  "lines_of (concat (map (\<lambda>f. frame_line f @ [10]) fs)) = map frame_line fs \<and>
   tail_of (concat (map (\<lambda>f. frame_line f @ [10]) fs)) = []"
proof (induction fs rule: rev_induct)
  case Nil
  show ?case by (simp add: lines_of_def tail_of_def)
next
  case (snoc f fs)
  have "10 \<notin> set (frame_line f)" by (simp add: frame_line_def)
  from tail_lines_append_line [OF this, of "concat (map (\<lambda>f. frame_line f @ [10]) fs)"] snoc
  show ?case by simp
qed

lemma frame_spec_frames:
  assumes "\<forall>f\<in>set fs. sendable nearest f"
  shows "frame_spec MAX_FRAME_BYTES (concat (map (\<lambda>f. frame_line f @ [10]) fs)) = map (Line \<circ> frame_line) fs"
  using assms frame_line_size by (auto simp: frame_spec_alt lines_of_frames overrun_def classify_line_def)

section \<open>Properties\<close>

definition read_event :: "(jsnum \<Rightarrow> jsnum) \<Rightarrow> framer_event \<Rightarrow> frame_decode_result option" where
  "read_event nearest ev = (case ev of Line l \<Rightarrow> Some (decodeFrame nearest l) | OversizeLine \<Rightarrow> None)"

text \<open>C6: What one side sends, the other side receives. Every frame with a safe-integer stream id, a
  well-formed message JSON can write and at most 1 MiB of message text is encoded; and however the
  encoded frames are cut into chunks on the way (never inside a surrogate pair, which the UTF-8
  decoder guarantees), the receiver's framer reports one line per frame, in order, none oversize,
  and decoding each line gives back exactly the frame that was sent.\<close>

theorem wire_roundtrip:
  assumes "\<forall>f\<in>set fs. sendable nearest f"
  shows "\<exists>ts. map_res encodeFrame fs = Inr ts \<and>
    (\<forall>chunks. chunks_safe [] (decoded_texts dec_write d chunks) \<and> concat (decoded_texts dec_write d chunks) = concat ts \<longrightarrow>
       map (read_event nearest) (snd (push_all dec_write MAX_FRAME_BYTES (d, createLineFramer) chunks)) =
         map (Some \<circ> Decoded) fs)"
proof (intro exI conjI allI impI)
  let ?ts = "map (\<lambda>f. frame_line f @ [10]) fs"
  show "map_res encodeFrame fs = Inr ?ts"
    using assms by (induction fs) (auto simp: encode_sendable bind_res_Inr)
  fix chunks
  assume "chunks_safe [] (decoded_texts dec_write d chunks) \<and> concat (decoded_texts dec_write d chunks) = concat ?ts"
  then have "snd (push_all dec_write MAX_FRAME_BYTES (d, createLineFramer) chunks) = map (Line \<circ> frame_line) fs"
    using push_all_spec frame_spec_frames [OF assms] by metis
  then show "map (read_event nearest) (snd (push_all dec_write MAX_FRAME_BYTES (d, createLineFramer) chunks)) =
      map (Some \<circ> Decoded) fs"
    using assms by (auto simp: read_event_def decode_frame_line)
qed

definition ping_frame :: frame where
  "ping_frame = \<lparr>frame_s = 3, frame_m = Request (IdNum (num_of_int 3)) (js ''ping'') (Some (JArr [JStr [10], JNull]))\<rparr>"

definition ping_chunks :: "chunk list" where
  "ping_chunks = [TextChunk (take 9 (frame_line ping_frame)), TextChunk (drop 9 (frame_line ping_frame) @ [10])]"

lemma ping_sendable: "sendable id ping_frame"
proof -
  have "length (stringify_text (message_val (frame_m ping_frame))) \<le> 100" by code_simp
  then have "byte_length (stringify_text (message_val (frame_m ping_frame))) \<le> MAX_MESSAGE_BYTES"
    using byte_length_bounds [of "stringify_text (message_val (frame_m ping_frame))"] by (simp add: MAX_MESSAGE_BYTES_def)
  then show ?thesis
    by (simp add: sendable_def) (simp add: ping_frame_def opt_entry_def wf_opt_def defined_entries_def)
qed

lemma ping_chunks_safe: "chunks_safe [] [take 9 (frame_line ping_frame), drop 9 (frame_line ping_frame) @ [10]]"
  by code_simp

theorem wire_roundtrip_witness:
  "map_res encodeFrame [ping_frame] = Inr [frame_line ping_frame @ [10]] \<and>
   map (read_event id) (snd (push_all (\<lambda>d b. (d, [])) MAX_FRAME_BYTES ((), createLineFramer) ping_chunks)) =
     [Some (Decoded ping_frame)]"
proof -
  have ok: "\<forall>f\<in>set [ping_frame]. sendable id f" using ping_sendable by simp
  have texts: "decoded_texts (\<lambda>d b. (d, [])) () ping_chunks =
      [take 9 (frame_line ping_frame), drop 9 (frame_line ping_frame) @ [10]]"
    by (simp add: ping_chunks_def)
  have enc: "map_res encodeFrame [ping_frame] = Inr [frame_line ping_frame @ [10]]"
    using ping_sendable by (simp add: encode_sendable bind_res_Inr)
  obtain ts where ts: "map_res encodeFrame [ping_frame] = Inr ts"
    "chunks_safe [] (decoded_texts (\<lambda>d b. (d, [])) () ping_chunks) \<and>
      concat (decoded_texts (\<lambda>d b. (d, [])) () ping_chunks) = concat ts \<longrightarrow>
     map (read_event id) (snd (push_all (\<lambda>d b. (d, [])) MAX_FRAME_BYTES ((), createLineFramer) ping_chunks)) =
       map (Some \<circ> Decoded) [ping_frame]"
    using wire_roundtrip [OF ok, of "\<lambda>d b. (d, [])" "()"] by blast
  have "ts = [frame_line ping_frame @ [10]]" using ts(1) enc by simp
  then have "map (read_event id) (snd (push_all (\<lambda>d b. (d, [])) MAX_FRAME_BYTES ((), createLineFramer) ping_chunks)) =
      [Some (Decoded ping_frame)]"
    using ts(2) ping_chunks_safe unfolding texts by (simp del: push_all.simps)
  then show ?thesis using enc by blast
qed

end
