(* ===== verification/Multiplexer.thy ===== *)
theory Multiplexer
  imports Json_Rpc "HOL-Library.Multiset"
begin

text \<open>
  The stream multiplexer of a Machine session
  (\<^verbatim>\<open>packages/machine-protocol/src/multiplexer.ts\<close>).

  The source shares mutable \<^verbatim>\<open>StreamState\<close> objects between the session's map, its control
  field and the channels handed to callers, so the model keeps them in a heap: a channel is
  an index into \<open>s_heap\<close>, and index 0 is the control stream. What the code does to its
  surroundings (frames put on the wire, callbacks run, promises settled) is appended to
  \<open>s_log\<close>. Each call of \<^verbatim>\<open>request\<close> gets a token that stands for its promise. \<open>s_links\<close>
  holds the abort listeners that are attached. \<open>s_send_ok\<close> is the caller's \<^verbatim>\<open>send\<close>: it puts a
  frame on the wire or throws. Every callback but the abort signal is the last statement of
  the code that runs it, so a callback that calls back in is the next operation of the run.

  \<open>mux_reachable\<close> is every state a session can reach; its invariant gives the properties.
\<close>

section \<open>State\<close>

datatype close_reason = Closed | Cancelled

datatype rejection =
    StreamClosedError int close_reason
  | MachineProtocolError machine_error_code jstr "jsval option"
  | AlreadyCarriesRequest int
  | SendRefused

datatype effect =
    Sent frame
  | RequestArrived nat message
  | UnknownFrame frame
  | Notified nat message
  | CloseHandler nat
  | Resolved nat jsval
  | Rejected nat rejection

record pending_request =
  pd_id :: json_rpc_id
  pd_token :: nat

record stream_state =
  st_id :: int
  st_control :: bool
  st_aborted :: bool
  st_notifications :: "nat list"
  st_closes :: "nat list"
  st_closed :: bool
  st_replyId :: "json_rpc_id option"
  st_pending :: "pending_request option"
  st_requests :: nat

record session =
  s_send_ok :: "frame \<Rightarrow> bool"
  s_onRequest :: bool
  s_onUnknownFrame :: bool
  s_maxOpenStreams :: nat
  s_heap :: "stream_state list"
  s_streams :: "(int \<times> nat) list"
  s_closedIds :: "int list"
  s_nextId :: int
  s_closed :: bool
  s_links :: "(nat \<times> nat) list"
  s_next_token :: nat
  s_log :: "effect list"

definition control_ref :: nat where
  [simp]: "control_ref = 0"

definition newState :: "int \<Rightarrow> bool \<Rightarrow> stream_state" where
  "newState i control =
     \<lparr>st_id = i, st_control = control, st_aborted = False, st_notifications = [], st_closes = [],
      st_closed = False, st_replyId = None, st_pending = None, st_requests = 0\<rparr>"

definition state_of :: "session \<Rightarrow> nat \<Rightarrow> stream_state" where
  "state_of s r = s_heap s ! r"

definition put_state :: "session \<Rightarrow> nat \<Rightarrow> stream_state \<Rightarrow> session" where
  "put_state s r st = s\<lparr>s_heap := (s_heap s)[r := st]\<rparr>"

definition emit :: "session \<Rightarrow> effect list \<Rightarrow> session" where
  "emit s es = s\<lparr>s_log := s_log s @ es\<rparr>"

definition detach :: "session \<Rightarrow> nat \<Rightarrow> session" where
  "detach s token = s\<lparr>s_links := map_delete (s_links s) token\<rparr>"

section \<open>Errors\<close>

definition errorMessage :: "json_rpc_id \<Rightarrow> machine_error_code \<Rightarrow> jstr \<Rightarrow> (jstr \<times> jsval) list \<Rightarrow> message" where
  "errorMessage i code msg data =
     Failure (Some i) (num_of_int (MACHINE_ERROR_JSON_RPC code)) msg
       (Some (JObj (map_set data (js ''code'') (JStr (code_text code)))))"

definition protocolError :: "jstr \<Rightarrow> jsval option \<Rightarrow> rejection" where
  "protocolError msg data =
     (let code =
        (case data of
           Some (JObj kvs) \<Rightarrow>
             (case get_prop kvs (js ''code'') of JStr c \<Rightarrow> isMachineErrorCode c | _ \<Rightarrow> None)
         | _ \<Rightarrow> None)
      in MachineProtocolError (case code of Some c \<Rightarrow> c | None \<Rightarrow> Internal) msg data)"

section \<open>Closing, cancelling, settling\<close>

definition reject_pending :: "session \<Rightarrow> pending_request option \<Rightarrow> rejection \<Rightarrow> session" where
  "reject_pending s p why =
     (case p of None \<Rightarrow> s | Some q \<Rightarrow> emit (detach s (pd_token q)) [Rejected (pd_token q) why])"

definition closeStream :: "session \<Rightarrow> nat \<Rightarrow> close_reason \<Rightarrow> session" where
  "closeStream s r reason =
     (let st = state_of s r in
      if st_closed st then s
      else
        (let s1 = put_state s r (st\<lparr>st_closed := True, st_aborted := True, st_pending := None\<rparr>);
             s2 = (if st_control st then s1
                   else s1\<lparr>s_streams := map_delete (s_streams s1) (st_id st),
                          s_closedIds := s_closedIds s1 @ [st_id st]\<rparr>);
             s3 = reject_pending s2 (st_pending st) (StreamClosedError (st_id st) reason)
         in emit s3 (map CloseHandler (st_closes st))))"

definition cancelStream :: "session \<Rightarrow> nat \<Rightarrow> session" where
  "cancelStream s r =
     (let st = state_of s r in
      if \<not> st_control st then closeStream s r Cancelled
      else reject_pending (put_state s r (st\<lparr>st_replyId := None, st_pending := None\<rparr>))
             (st_pending st) (StreamClosedError (st_id st) Cancelled))"

fun message_id :: "message \<Rightarrow> json_rpc_id option" where
  "message_id (Request i _ _) = Some i"
| "message_id (Notification _ _) = None"
| "message_id (Success i _) = Some i"
| "message_id (Failure i _ _ _) = i"

definition settleStream :: "session \<Rightarrow> nat \<Rightarrow> message \<Rightarrow> session" where
  "settleStream s r msg =
     (let st = state_of s r in
      case st_pending st of
        None \<Rightarrow> s
      | Some p \<Rightarrow>
          if message_id msg \<noteq> Some (pd_id p) then s
          else
            (let st' = st\<lparr>st_pending := None, st_replyId := (if st_control st then None else st_replyId st)\<rparr>;
                 s' = detach (put_state s r st') (pd_token p)
             in (case msg of
                   Success _ v \<Rightarrow> emit s' [Resolved (pd_token p) v]
                 | Failure _ _ m data \<Rightarrow> emit s' [Rejected (pd_token p) (protocolError m data)]
                 | _ \<Rightarrow> s')))"

section \<open>Sending\<close>

text \<open>The Boolean is whether the call returned; \<open>False\<close> is an exception of \<^verbatim>\<open>send\<close>.\<close>

definition send :: "session \<Rightarrow> frame \<Rightarrow> session \<times> bool" where
  "send s f = (if s_send_ok s f then (emit s [Sent f], True) else (s, False))"

definition sendOnStream :: "session \<Rightarrow> nat \<Rightarrow> message \<Rightarrow> session \<times> bool" where
  "sendOnStream s r msg =
     (let st = state_of s r in
      if st_closed st then (s, True) else send s \<lparr>frame_s = st_id st, frame_m = msg\<rparr>)"

definition notifyOnStream :: "session \<Rightarrow> nat \<Rightarrow> jstr \<Rightarrow> jsval option \<Rightarrow> session \<times> bool" where
  "notifyOnStream s r meth params = sendOnStream s r (Notification meth params)"

definition respondOnStream :: "session \<Rightarrow> nat \<Rightarrow> (json_rpc_id \<Rightarrow> message) \<Rightarrow> session \<times> bool" where
  "respondOnStream s r build =
     (let st = state_of s r in
      case st_replyId st of
        None \<Rightarrow> (s, True)
      | Some i \<Rightarrow>
          (let s' = (if st_control st then put_state s r (st\<lparr>st_replyId := None\<rparr>) else s)
           in sendOnStream s' r (build i)))"

section \<open>Receiving\<close>

definition receiveMessage :: "session \<Rightarrow> nat \<Rightarrow> message \<Rightarrow> session" where
  "receiveMessage s r msg =
     (let st = state_of s r in
      case msg of
        Notification meth _ \<Rightarrow>
          if meth = CANCEL_NOTIFICATION then cancelStream s r
          else emit s (map (\<lambda>h. Notified h msg) (st_notifications st))
      | Request i meth _ \<Rightarrow>
          if meth = CANCEL_NOTIFICATION then cancelStream s r
          else if st_control st \<and> s_onRequest s
          then emit (put_state s r (st\<lparr>st_replyId := Some i\<rparr>)) [RequestArrived r msg]
          else s
      | _ \<Rightarrow> settleStream s r msg)"

definition add_state :: "session \<Rightarrow> stream_state \<Rightarrow> session" where
  "add_state s st =
     s\<lparr>s_heap := s_heap s @ [st], s_streams := map_set (s_streams s) (st_id st) (length (s_heap s))\<rparr>"

definition acceptRequest :: "session \<Rightarrow> int \<Rightarrow> json_rpc_id \<Rightarrow> message \<Rightarrow> session" where
  "acceptRequest s i rid request =
     emit (add_state s ((newState i False)\<lparr>st_replyId := Some rid\<rparr>))
       [RequestArrived (length (s_heap s)) request]"

definition MAX_STREAMS_MESSAGE :: jstr where
  "MAX_STREAMS_MESSAGE = js ''The session already carries the maximum number of streams.''"

definition handleFrame :: "session \<Rightarrow> frame \<Rightarrow> session \<times> bool" where
  "handleFrame s f =
     (if s_closed s then (s, True)
      else (case map_of (s_streams s) (frame_s f) of
        Some r \<Rightarrow> (receiveMessage s r (frame_m f), True)
      | None \<Rightarrow>
          if frame_s f = CONTROL_STREAM_ID then (receiveMessage s control_ref (frame_m f), True)
          else (case frame_m f of
            Request rid _ _ \<Rightarrow>
              if frame_s f \<in> set (s_closedIds s) \<or> \<not> s_onRequest s
              then (if s_onUnknownFrame s then emit s [UnknownFrame f] else s, True)
              else if length (s_streams s) \<ge> s_maxOpenStreams s
              then send (s\<lparr>s_closedIds := s_closedIds s @ [frame_s f]\<rparr>)
                     \<lparr>frame_s = frame_s f, frame_m = errorMessage rid Internal MAX_STREAMS_MESSAGE []\<rparr>
              else (acceptRequest s (frame_s f) rid (frame_m f), True)
          | _ \<Rightarrow> (if s_onUnknownFrame s then emit s [UnknownFrame f] else s, True))))"

section \<open>Requesting\<close>

text \<open>\<open>signal\<close> is the caller's abort signal: absent, or present and aborted or not.\<close>

definition refuseRequest :: "session \<Rightarrow> nat \<Rightarrow> bool option \<Rightarrow> session \<times> rejection option" where
  "refuseRequest s r signal =
     (let st = state_of s r in
      if st_closed st \<or> s_closed s then (s, Some (StreamClosedError (st_id st) Closed))
      else if signal = Some True then (cancelStream s r, Some (StreamClosedError (st_id st) Cancelled))
      else if st_replyId st \<noteq> None then (s, Some (AlreadyCarriesRequest (st_id st)))
      else (s, None))"

definition abortLink :: "session \<Rightarrow> nat \<Rightarrow> nat \<Rightarrow> bool option \<Rightarrow> session" where
  "abortLink s token r signal =
     (case signal of Some False \<Rightarrow> s\<lparr>s_links := map_set (s_links s) token r\<rparr> | _ \<Rightarrow> s)"

text \<open>A numbered stream carries one request, under its own id; the control stream carries
  many, each under a fresh id.\<close>

definition request_id :: "stream_state \<Rightarrow> json_rpc_id" where
  "request_id st = IdNum (num_of_int (if st_control st then int (st_requests st) else st_id st))"

definition install_request :: "session \<Rightarrow> nat \<Rightarrow> nat \<Rightarrow> bool option \<Rightarrow> session" where
  "install_request s r token signal =
     (let st = state_of s r; i = request_id st in
      put_state (abortLink s token r signal) r
        (st\<lparr>st_requests := Suc (st_requests st), st_replyId := Some i,
            st_pending := Some \<lparr>pd_id = i, pd_token = token\<rparr>\<rparr>))"

text \<open>The sender refused the message, so nothing reached the wire and the call fails here.\<close>

definition withdraw_request :: "session \<Rightarrow> nat \<Rightarrow> nat \<Rightarrow> session" where
  "withdraw_request s r token =
     emit (detach (put_state s r ((state_of s r)\<lparr>st_replyId := None, st_pending := None\<rparr>)) token)
       [Rejected token SendRefused]"

definition requestOnStream :: "session \<Rightarrow> nat \<Rightarrow> jstr \<Rightarrow> jsval \<Rightarrow> bool option \<Rightarrow> session" where
  "requestOnStream s0 r meth params signal =
     (let token = s_next_token s0; s = s0\<lparr>s_next_token := Suc token\<rparr> in
      case refuseRequest s r signal of
        (s', Some refusal) \<Rightarrow> emit s' [Rejected token refusal]
      | (s', None) \<Rightarrow>
          (case sendOnStream (install_request s' r token signal) r
                  (Request (request_id (state_of s' r)) meth (Some params)) of
             (s2, ok) \<Rightarrow> if ok then s2 else withdraw_request s2 r token))"

text \<open>The listener a request attached to its signal, run when the signal aborts.\<close>

definition signalAbort :: "session \<Rightarrow> nat \<Rightarrow> session" where
  "signalAbort s token =
     (case map_of (s_links s) token of
        None \<Rightarrow> s
      | Some r \<Rightarrow>
          (case notifyOnStream (detach s token) r CANCEL_NOTIFICATION None of
             (s', True) \<Rightarrow> cancelStream s' r
           | (s', False) \<Rightarrow> s'))"

section \<open>The session's interface\<close>

datatype open_error = SessionClosed | TooManyStreams

definition openStream :: "session \<Rightarrow> (open_error + nat) \<times> session" where
  "openStream s =
     (if s_closed s then (Inl SessionClosed, s)
      else if length (s_streams s) \<ge> s_maxOpenStreams s then (Inl TooManyStreams, s)
      else (Inr (length (s_heap s)),
            add_state (s\<lparr>s_nextId := s_nextId s + 1\<rparr>) (newState (s_nextId s) False)))"

definition refuseStream :: "session \<Rightarrow> int \<Rightarrow> machine_error_code \<Rightarrow> jstr \<Rightarrow> session \<times> bool" where
  "refuseStream s streamId code msg =
     (case (if streamId = CONTROL_STREAM_ID then Some control_ref else map_of (s_streams s) streamId) of
        None \<Rightarrow> (s, True)
      | Some r \<Rightarrow>
          (let st = state_of s r in
           if st_closed st then (s, True)
           else
             (let i = (case st_replyId st of Some i \<Rightarrow> i | None \<Rightarrow> IdNum (num_of_int streamId)) in
              case send s \<lparr>frame_s = streamId, frame_m = errorMessage i code msg []\<rparr> of
                (s', True) \<Rightarrow> (if st_control st then s' else closeStream s' r Closed, True)
              | (s', False) \<Rightarrow> (s', False))))"

definition closeSession :: "session \<Rightarrow> session" where
  "closeSession s =
     (let s1 = s\<lparr>s_closed := True\<rparr>;
          s2 = fold (\<lambda>r s. closeStream s r Closed) (map snd (s_streams s1)) s1
      in closeStream s2 control_ref Closed)"


text \<open>The operations a caller or the wire can perform; a channel operation names its stream.\<close>

datatype mux_op =
    OpOpen
  | OpHandle frame
  | OpRefuse int machine_error_code jstr
  | OpClose
  | OpRequest nat jstr jsval "bool option"
  | OpNotify nat jstr "jsval option"
  | OpResult nat jsval
  | OpError nat machine_error_code jstr "(jstr \<times> jsval) list"
  | OpOnNotification nat nat
  | OpOnClose nat nat
  | OpCloseStream nat
  | OpAbort nat

fun streamChannel :: "session \<Rightarrow> mux_op \<Rightarrow> session" where
  "streamChannel s OpOpen = snd (openStream s)"
| "streamChannel s (OpHandle f) = fst (handleFrame s f)"
| "streamChannel s (OpRefuse i code msg) = fst (refuseStream s i code msg)"
| "streamChannel s OpClose = closeSession s"
| "streamChannel s (OpRequest r meth params signal) = requestOnStream s r meth params signal"
| "streamChannel s (OpNotify r meth params) = fst (notifyOnStream s r meth params)"
| "streamChannel s (OpResult r v) = fst (respondOnStream s r (\<lambda>i. Success i v))"
| "streamChannel s (OpError r code msg data) = fst (respondOnStream s r (\<lambda>i. errorMessage i code msg data))"
| "streamChannel s (OpOnNotification r h) =
     put_state s r ((state_of s r)\<lparr>st_notifications := st_notifications (state_of s r) @ [h]\<rparr>)"
| "streamChannel s (OpOnClose r h) =
     put_state s r ((state_of s r)\<lparr>st_closes := st_closes (state_of s r) @ [h]\<rparr>)"
| "streamChannel s (OpCloseStream r) = (if st_control (state_of s r) then s else closeStream s r Closed)"
| "streamChannel s (OpAbort token) = signalAbort s token"



section \<open>The invariant: structure\<close>

lemmas session_defs = put_state_def emit_def detach_def state_of_def

definition state_ok :: "session \<Rightarrow> nat \<Rightarrow> stream_state \<Rightarrow> bool" where
  "state_ok s r st \<longleftrightarrow>
     (st_control st \<longleftrightarrow> r = 0) \<and> (st_id st = 0 \<longleftrightarrow> r = 0) \<and>
     (st_closed st \<longrightarrow> st_pending st = None) \<and>
     (st_pending st \<noteq> None \<longrightarrow> st_replyId st \<noteq> None \<and> \<not> s_onRequest s) \<and>
     (0 < r \<and> \<not> st_closed st \<longrightarrow> map_of (s_streams s) (st_id st) = Some r) \<and>
     (0 < r \<and> st_closed st \<longrightarrow> st_id st \<in> set (s_closedIds s)) \<and>
     (0 < r \<and> \<not> s_onRequest s \<longrightarrow> st_id st < s_nextId s) \<and>
     (\<forall>p. r = 0 \<and> st_pending st = Some p \<longrightarrow>
        0 < st_requests st \<and> pd_id p = IdNum (num_of_int (int (st_requests st) - 1)))"

definition entry_ok :: "session \<Rightarrow> int \<times> nat \<Rightarrow> bool" where
  "entry_ok s e \<longleftrightarrow> 0 < snd e \<and> snd e < length (s_heap s) \<and>
     st_id (s_heap s ! snd e) = fst e \<and> \<not> st_closed (s_heap s ! snd e)"

definition mux_struct :: "session \<Rightarrow> bool" where
  "mux_struct s \<longleftrightarrow>
     s_heap s \<noteq> [] \<and> (\<forall>r<length (s_heap s). state_ok s r (s_heap s ! r)) \<and>
     (\<forall>e\<in>set (s_streams s). entry_ok s e) \<and> distinct (map fst (s_streams s)) \<and>
     length (s_streams s) \<le> s_maxOpenStreams s \<and> distinct (map st_id (s_heap s)) \<and>
     1 \<le> s_nextId s \<and> (\<forall>l\<in>set (s_links s). snd l < length (s_heap s))"




lemma mux_struct_token [simp]: "mux_struct (s\<lparr>s_next_token := n\<rparr>) \<longleftrightarrow> mux_struct s"
  by (simp add: mux_struct_def state_ok_def entry_ok_def)

lemma mux_struct_closed_flag [simp]: "mux_struct (s\<lparr>s_closed := b\<rparr>) \<longleftrightarrow> mux_struct s"
  by (simp add: mux_struct_def state_ok_def entry_ok_def)





lemma map_of_snd_unique:
  assumes "mux_struct s" "r < length (s_heap s)" "e \<in> set (s_streams s)" "fst e = st_id (s_heap s ! r)"
  shows "snd e = r"
proof -
  have "entry_ok s e" using assms by (simp add: mux_struct_def)
  then have "map st_id (s_heap s) ! snd e = map st_id (s_heap s) ! r" "snd e < length (s_heap s)"
    using assms(2,4) by (simp_all add: entry_ok_def)
  then show ?thesis
    using assms(1,2) nth_eq_iff_index_eq [of "map st_id (s_heap s)" "snd e" r] by (simp add: mux_struct_def)
qed










lemma heap_length_simps [simp]:
  "length (s_heap (put_state s r st)) = length (s_heap s)"
  "s_heap (emit s es) = s_heap s" "s_heap (detach s t) = s_heap s"
  "s_heap (s\<lparr>s_next_token := n\<rparr>) = s_heap s" "s_heap (abortLink s t r sig) = s_heap s"
  by (auto simp: session_defs abortLink_def split: option.splits bool.splits)























section \<open>The invariant: every promise is accounted for\<close>

definition tok :: "stream_state \<Rightarrow> nat multiset" where
  "tok st = (case st_pending st of None \<Rightarrow> {#} | Some p \<Rightarrow> {#pd_token p#})"

definition pending_tokens :: "stream_state list \<Rightarrow> nat multiset" where
  "pending_tokens h = sum_list (map tok h)"

fun effect_token :: "effect \<Rightarrow> nat multiset" where
  "effect_token (Resolved t _) = {#t#}"
| "effect_token (Rejected t _) = {#t#}"
| "effect_token _ = {#}"

definition settled_tokens :: "effect list \<Rightarrow> nat multiset" where
  "settled_tokens es = sum_list (map effect_token es)"

text \<open>The tokens settled so far and those still pending are together exactly the tokens
  handed out, each once.\<close>

definition token_total :: "session \<Rightarrow> nat multiset" where
  "token_total s = settled_tokens (s_log s) + pending_tokens (s_heap s)"


text \<open>An operation that hands out no token keeps the total.\<close>

definition same_tokens :: "session \<Rightarrow> session \<Rightarrow> bool" where
  "same_tokens s t \<longleftrightarrow> token_total t = token_total s \<and> s_next_token t = s_next_token s"

lemma same_tokens_refl [simp]: "same_tokens s s"
  by (simp add: same_tokens_def)



lemma settled_append [simp]: "settled_tokens (a @ b) = settled_tokens a + settled_tokens b"
  and settled_Nil [simp]: "settled_tokens [] = {#}"
  and settled_Cons [simp]: "settled_tokens (e # b) = effect_token e + settled_tokens b"
  by (simp_all add: settled_tokens_def)

lemma settled_handlers [simp]:
  "settled_tokens (map CloseHandler hs) = {#}" "settled_tokens (map (\<lambda>h. Notified h m) hs) = {#}"
  by (induction hs) auto



























section \<open>A closed session\<close>


definition sent_frames :: "session \<Rightarrow> frame list" where
  "sent_frames s = concat (map (\<lambda>e. case e of Sent f \<Rightarrow> [f] | _ \<Rightarrow> []) (s_log s))"



lemma closeStream_closed_flag [simp]: "s_closed (closeStream s r why) = s_closed s"
  by (simp add: closeStream_def Let_def session_defs reject_pending_def split: option.splits)

lemma fold_close_closed_flag [simp]: "s_closed (fold (\<lambda>r s. closeStream s r why) rs s) = s_closed s"
  by (induction rs arbitrary: s) auto




lemma sent_frames_simps [simp]:
  "sent_frames (put_state s r st) = sent_frames s" "sent_frames (detach s t) = sent_frames s"
  "sent_frames (emit s [Rejected t why]) = sent_frames s" "sent_frames (s\<lparr>s_next_token := n\<rparr>) = sent_frames s"
  "sent_frames (s\<lparr>s_closed := b\<rparr>) = sent_frames s" "s_closed (put_state s r st) = s_closed s"
  by (simp_all add: sent_frames_def session_defs)

lemma put_state_nth [simp]: "r < length (s_heap s) \<Longrightarrow> s_heap (put_state s r st) ! r = st"
  by (simp add: put_state_def)







section \<open>Runs\<close>


definition mux_run :: "session \<Rightarrow> mux_op list \<Rightarrow> session" where
  "mux_run s ops = fold (\<lambda>op s. streamChannel s op) ops s"

lemma mux_run_simps [simp]: "mux_run s [] = s" "mux_run s (op # ops) = mux_run (streamChannel s op) ops"
  by (simp_all add: mux_run_def)








section \<open>Properties\<close>









end
