(* ===== verification/Permission_Policy.thy ===== *)
theory Permission_Policy
  imports Js_Prelude
begin

text \<open>
  The operator's tool-call policy: its types (\<^verbatim>\<open>types.ts\<close>), bounds (\<^verbatim>\<open>limits.ts\<close>), the two kinds
  of value matcher (\<^verbatim>\<open>matcher.ts\<close>), the compiler from the configured map
  (\<^verbatim>\<open>compile-permissions.ts\<close>) and the check of configured fields against a tool's schema
  (\<^verbatim>\<open>declared-fields.ts\<close>, \<^verbatim>\<open>policy-provider.ts\<close>), all under
  \<^verbatim>\<open>apps/api/src/tools/permissions/\<close>.

  The regular-expression engine \<^verbatim>\<open>re2js\<close> is a parameter: \<open>re2_compile\<close> is \<^verbatim>\<open>RE2JS.compile\<close>, which
  throws (\<open>None\<close>) or gives the \<^verbatim>\<open>test\<close> function of the pattern, and \<open>re2_quote\<close> is
  \<^verbatim>\<open>RE2JS.quote\<close>. So are the tool registry and its schemas.
\<close>

section \<open>Types\<close>

type_synonym permission_clause = "(jstr \<times> jsval) list"

datatype permission_matcher = WholeTool | Clauses "permission_clause list"

record permission_group =
  pg_allow :: "permission_matcher option"
  pg_reject :: "permission_matcher option"

type_synonym tool_permission_map = "(jstr \<times> permission_group) list"

datatype permission_list = AllowList | RejectList

fun list_text :: "permission_list \<Rightarrow> jstr" where
  "list_text AllowList = js ''allow''"
| "list_text RejectList = js ''reject''"

datatype clause_target = FieldTarget jstr | AllFieldsTarget

datatype matcher_kind = LiteralKind | RegexKind

record compiled_value_matcher =
  vm_kind :: matcher_kind
  matchesExact :: "jstr \<Rightarrow> bool"
  matchesFlexibleWhitespace :: "jstr \<Rightarrow> bool"

record compiled_permission_clause =
  cc_groupId :: jstr
  cc_list :: permission_list
  cc_clauseIndex :: nat
  cc_target :: clause_target
  cc_matcher :: compiled_value_matcher

record compiled_permission_group =
  allowWholeTool :: bool
  rejectWholeTool :: bool
  allowClauses :: "compiled_permission_clause list"
  rejectClauses :: "compiled_permission_clause list"

record compiled_policy =
  policy_id :: jstr
  policy_groups :: "(jstr \<times> compiled_permission_group) list"

section \<open>Bounds\<close>

record permission_limits =
  maxGroups :: nat
  maxClauses :: nat
  maxPatternBytes :: nat
  maxSelectedContentBytes :: nat
  maxVisitedValues :: nat
  maxContainerDepth :: nat

definition PERMISSION_LIMITS :: permission_limits where
  "PERMISSION_LIMITS =
     \<lparr>maxGroups = 256, maxClauses = 1024, maxPatternBytes = 4096, maxSelectedContentBytes = 1024 * 1024,
      maxVisitedValues = 65536, maxContainerDepth = 64\<rparr>"

text \<open>What compilation can throw: the code's own error with its configuration path, or the
  engine's error on a pattern the code built itself and does not guard.\<close>

datatype compile_error = PermissionCompileError jstr jstr | Re2SyntaxError

section \<open>Matchers\<close>

definition BASH_WHITESPACE_RUN :: jstr where
  "BASH_WHITESPACE_RUN = js (''['' @ [CHR 0x5C] @ ''t'' @ [CHR 0x5C] @ ''n'' @ [CHR 0x5C] @ ''v'' @
     [CHR 0x5C] @ ''f'' @ [CHR 0x5C] @ ''r '' @
     concat (map (\<lambda>h. [CHR 0x5C] @ ''x{'' @ h @ ''}'') [''00a0'', ''1680'', ''2000'']) @ ''-'' @
     concat (map (\<lambda>h. [CHR 0x5C] @ ''x{'' @ h @ ''}'')
       [''200a'', ''2028'', ''2029'', ''202f'', ''205f'', ''3000'', ''feff'']) @ '']+'')"

text \<open>\<^verbatim>\<open>literal.split(/(\s+)/u)\<close>: the parts between whitespace runs and, as the group is
  captured, the runs themselves.\<close>

function split_whitespace :: "jstr \<Rightarrow> jstr list" where
  "split_whitespace s =
     (let rest = dropWhile (\<lambda>c. \<not> is_whitespace c) s in
      takeWhile (\<lambda>c. \<not> is_whitespace c) s #
        (if rest = [] then [] else takeWhile is_whitespace rest # split_whitespace (dropWhile is_whitespace rest)))"
  by pat_completeness auto

lemma split_whitespace_shrinks:
  assumes "dropWhile (\<lambda>c. \<not> is_whitespace c) s \<noteq> []"
  shows "length (dropWhile is_whitespace (dropWhile (\<lambda>c. \<not> is_whitespace c) s)) < length s"
proof -
  obtain c cs where c: "dropWhile (\<lambda>c. \<not> is_whitespace c) s = c # cs" "is_whitespace c"
    using assms hd_dropWhile [of "\<lambda>c. \<not> is_whitespace c" s] by (cases "dropWhile (\<lambda>c. \<not> is_whitespace c) s") auto
  have "length (dropWhile is_whitespace cs) \<le> length cs" by (rule length_dropWhile_le)
  moreover have "length (c # cs) \<le> length s" using length_dropWhile_le [of _ s] c(1) by metis
  ultimately show ?thesis using c by simp
qed

termination split_whitespace
proof (relation "measure length")
  fix s rest :: jstr
  assume "rest = dropWhile (\<lambda>c. \<not> is_whitespace c) s" "rest \<noteq> []"
  then show "(dropWhile is_whitespace rest, s) \<in> measure length"
    using split_whitespace_shrinks [of s] by simp
qed simp

declare split_whitespace.simps [simp del]

definition escapeBashWhitespace :: "(jstr \<Rightarrow> jstr) \<Rightarrow> jstr \<Rightarrow> jstr" where
  "escapeBashWhitespace re2_quote literal =
     concat (map (\<lambda>part.
        if length part = 0 then []
        else if \<exists>c\<in>set part. is_whitespace c then BASH_WHITESPACE_RUN
        else re2_quote part) (split_whitespace literal))"

definition assertPatternSize :: "jstr \<Rightarrow> jstr \<Rightarrow> compile_error + unit" where
  "assertPatternSize pattern configPath =
     (if byte_length pattern > maxPatternBytes PERMISSION_LIMITS
      then Inl (PermissionCompileError configPath
             (js ''pattern exceeds '' @ nat_to_js (maxPatternBytes PERMISSION_LIMITS) @ js '' UTF-8 bytes''))
      else Inr ())"

definition re2_or_throw :: "(jstr \<Rightarrow> bool) option \<Rightarrow> compile_error \<Rightarrow> compile_error + (jstr \<Rightarrow> bool)" where
  "re2_or_throw r e = (case r of None \<Rightarrow> Inl e | Some t \<Rightarrow> Inr t)"

definition compileLiteralMatcher ::
    "(jstr \<Rightarrow> (jstr \<Rightarrow> bool) option) \<Rightarrow> (jstr \<Rightarrow> jstr) \<Rightarrow> jstr \<Rightarrow> jstr \<Rightarrow> compile_error + compiled_value_matcher" where
  "compileLiteralMatcher re2_compile re2_quote literal configPath =
     bind_res (assertPatternSize literal configPath) (\<lambda>_.
     bind_res (re2_or_throw (re2_compile (re2_quote literal)) Re2SyntaxError) (\<lambda>exact.
     bind_res (re2_or_throw (re2_compile (escapeBashWhitespace re2_quote literal)) Re2SyntaxError) (\<lambda>flexible.
     Inr \<lparr>vm_kind = LiteralKind, matchesExact = exact, matchesFlexibleWhitespace = flexible\<rparr>)))"

definition compileRegexMatcher ::
    "(jstr \<Rightarrow> (jstr \<Rightarrow> bool) option) \<Rightarrow> jstr \<Rightarrow> jstr \<Rightarrow> compile_error + compiled_value_matcher" where
  "compileRegexMatcher re2_compile pattern configPath =
     bind_res (assertPatternSize pattern configPath) (\<lambda>_.
     bind_res (re2_or_throw (re2_compile pattern)
                 (PermissionCompileError configPath (js ''invalid or unsupported regex''))) (\<lambda>compiled.
     Inr \<lparr>vm_kind = RegexKind, matchesExact = compiled, matchesFlexibleWhitespace = compiled\<rparr>))"

section \<open>Compilation\<close>

definition nonempty_string :: "jsval \<Rightarrow> jstr option" where
  "nonempty_string v = (case v of JStr s \<Rightarrow> if length s > 0 then Some s else None | _ \<Rightarrow> None)"

definition compileMatcherPattern ::
    "(jstr \<Rightarrow> (jstr \<Rightarrow> bool) option) \<Rightarrow> (jstr \<Rightarrow> jstr) \<Rightarrow> jstr \<Rightarrow> jsval \<Rightarrow> jsval \<Rightarrow>
       compile_error + compiled_value_matcher" where
  "compileMatcherPattern re2_compile re2_quote path literal regex =
     (let hasLiteral = (nonempty_string literal \<noteq> None); hasRegex = (nonempty_string regex \<noteq> None) in
      if hasLiteral = hasRegex
      then Inl (PermissionCompileError path (js ''clause must set exactly one non-empty literal or regex''))
      else (case nonempty_string literal of
              Some l \<Rightarrow> compileLiteralMatcher re2_compile re2_quote l path
            | None \<Rightarrow>
                (case nonempty_string regex of
                   Some r \<Rightarrow> compileRegexMatcher re2_compile r path
                 | None \<Rightarrow> Inl (PermissionCompileError path (js ''clause has no matcher'')))))"

definition clause_path :: "jstr \<Rightarrow> permission_list \<Rightarrow> nat \<Rightarrow> jstr" where
  "clause_path path l i = path @ js ''.'' @ list_text l @ js ''['' @ nat_to_js i @ js '']''"

definition compileClause ::
    "(jstr \<Rightarrow> (jstr \<Rightarrow> bool) option) \<Rightarrow> (jstr \<Rightarrow> jstr) \<Rightarrow> jstr \<Rightarrow> jstr \<Rightarrow> permission_list \<Rightarrow> nat \<Rightarrow>
       permission_clause \<Rightarrow> compile_error + compiled_permission_clause" where
  "compileClause re2_compile re2_quote path groupId l clauseIndex clause =
     (let clausePath = clause_path path l clauseIndex;
          literal = get_prop clause (js ''literal'');
          regex = get_prop clause (js ''regex'');
          field = get_prop clause (js ''field'');
          allFields = get_prop clause (js ''allFields'')
      in bind_res (compileMatcherPattern re2_compile re2_quote clausePath literal regex) (\<lambda>matcher.
         let compiled = (\<lambda>target. \<lparr>cc_groupId = groupId, cc_list = l, cc_clauseIndex = clauseIndex,
                                 cc_target = target, cc_matcher = matcher\<rparr>)
         in if allFields = JBool True
            then (if l = AllowList
                  then Inl (PermissionCompileError clausePath (js ''allFields is valid only for reject''))
                  else Inr (compiled AllFieldsTarget))
            else (case nonempty_string field of
                    None \<Rightarrow> Inl (PermissionCompileError clausePath
                              (js ''clause must target exactly one non-empty field or allFields''))
                  | Some f \<Rightarrow> Inr (compiled (FieldTarget f)))))"

definition compileMatcher ::
    "(jstr \<Rightarrow> (jstr \<Rightarrow> bool) option) \<Rightarrow> (jstr \<Rightarrow> jstr) \<Rightarrow> jstr \<Rightarrow> jstr \<Rightarrow> permission_list \<Rightarrow>
       permission_matcher option \<Rightarrow> compile_error + (bool \<times> compiled_permission_clause list)" where
  "compileMatcher re2_compile re2_quote path groupId l matcher =
     (case matcher of
        None \<Rightarrow> Inr (False, [])
      | Some WholeTool \<Rightarrow> Inr (True, [])
      | Some (Clauses cs) \<Rightarrow>
          bind_res (map_res (\<lambda>(index, clause). compileClause re2_compile re2_quote path groupId l index clause)
                      (enumerate 0 cs)) (\<lambda>clauses. Inr (False, clauses)))"

definition compileGroup ::
    "(jstr \<Rightarrow> (jstr \<Rightarrow> bool) option) \<Rightarrow> (jstr \<Rightarrow> jstr) \<Rightarrow> jstr \<Rightarrow> jstr \<Rightarrow> permission_group \<Rightarrow>
       compile_error + compiled_permission_group" where
  "compileGroup re2_compile re2_quote path groupId g =
     bind_res (compileMatcher re2_compile re2_quote path groupId AllowList (pg_allow g)) (\<lambda>(allowWhole, allow).
     bind_res (compileMatcher re2_compile re2_quote path groupId RejectList (pg_reject g)) (\<lambda>(rejectWhole, reject).
     Inr \<lparr>allowWholeTool = allowWhole, rejectWholeTool = rejectWhole, allowClauses = allow, rejectClauses = reject\<rparr>))"

definition clause_count :: "compiled_permission_group \<Rightarrow> nat" where
  "clause_count g = length (allowClauses g) + length (rejectClauses g) +
     (if allowWholeTool g then 1 else 0) + (if rejectWholeTool g then 1 else 0)"

definition group_path :: "jstr \<Rightarrow> jstr" where
  "group_path toolId = js ''tools.permissions.'' @ toolId"

fun compile_entries ::
    "(jstr \<Rightarrow> (jstr \<Rightarrow> bool) option) \<Rightarrow> (jstr \<Rightarrow> jstr) \<Rightarrow> nat \<Rightarrow> (jstr \<times> compiled_permission_group) list \<Rightarrow>
       tool_permission_map \<Rightarrow> compile_error + (jstr \<times> compiled_permission_group) list" where
  "compile_entries re2_compile re2_quote clauseCount groups [] = Inr groups"
| "compile_entries re2_compile re2_quote clauseCount groups ((toolId, g) # entries) =
     (let path = group_path toolId in
      bind_res (compileGroup re2_compile re2_quote path toolId g) (\<lambda>compiled.
      let clauseCount' = clauseCount + clause_count compiled in
      if clauseCount' > maxClauses PERMISSION_LIMITS
      then Inl (PermissionCompileError path
             (js ''at most '' @ nat_to_js (maxClauses PERMISSION_LIMITS) @ js '' clauses are supported''))
      else compile_entries re2_compile re2_quote clauseCount' (map_set groups toolId compiled) entries))"

definition compileToolPermissionMap ::
    "(jstr \<Rightarrow> (jstr \<Rightarrow> bool) option) \<Rightarrow> (jstr \<Rightarrow> jstr) \<Rightarrow> tool_permission_map \<Rightarrow> jstr \<Rightarrow>
       compile_error + compiled_policy" where
  "compileToolPermissionMap re2_compile re2_quote m policyId =
     (if length m > maxGroups PERMISSION_LIMITS
      then Inl (PermissionCompileError (js ''tools.permissions'')
             (js ''at most '' @ nat_to_js (maxGroups PERMISSION_LIMITS) @ js '' groups are supported''))
      else bind_res (compile_entries re2_compile re2_quote 0 [] m) (\<lambda>groups.
             Inr \<lparr>policy_id = policyId, policy_groups = groups\<rparr>))"

section \<open>Declared fields\<close>

fun schemaPermitsString :: "jsval \<Rightarrow> bool" where
  "schemaPermitsString (JBool b) = b"
| "schemaPermitsString (JObj kvs) =
     (let type_val = get_prop kvs (js ''type'');
          constValue = get_prop kvs (js ''const'');
          enumValues = get_prop kvs (js ''enum'')
      in if type_val = JStr (js ''string'') then True
         else if (case type_val of JArr ts \<Rightarrow> JStr (js ''string'') \<in> set ts | _ \<Rightarrow> False) then True
         else if is_string constValue then True
         else if (case enumValues of JArr es \<Rightarrow> \<exists>e\<in>set es. is_string e | _ \<Rightarrow> False) then True
         else if (case get_prop kvs (js ''allOf'') of JArr bs \<Rightarrow> \<forall>b\<in>set bs. schemaPermitsString b | _ \<Rightarrow> False) then True
         else if (case get_prop kvs (js ''anyOf'') of JArr bs \<Rightarrow> \<exists>b\<in>set bs. schemaPermitsString b | _ \<Rightarrow> False) then True
         else if (case get_prop kvs (js ''oneOf'') of JArr bs \<Rightarrow> \<exists>b\<in>set bs. schemaPermitsString b | _ \<Rightarrow> False) then True
         else \<not> (type_val \<noteq> JUndef \<or> constValue \<noteq> JUndef \<or> enumValues \<noteq> JUndef \<or>
                (case get_prop kvs (js ''allOf'') of JArr _ \<Rightarrow> True | _ \<Rightarrow> False) \<or>
                (case get_prop kvs (js ''anyOf'') of JArr _ \<Rightarrow> True | _ \<Rightarrow> False) \<or>
                (case get_prop kvs (js ''oneOf'') of JArr _ \<Rightarrow> True | _ \<Rightarrow> False)))"
| "schemaPermitsString _ = False"

fun collectDeclaredProperties :: "jsval \<Rightarrow> jstr list \<Rightarrow> jstr list" where
  "collectDeclaredProperties (JObj kvs) acc =
     (let own = (case get_prop kvs (js ''properties'') of
                   JObj ps \<Rightarrow> map fst (filter (\<lambda>p. schemaPermitsString (snd p)) ps)
                 | _ \<Rightarrow> [])
      in acc @ own @
         (case get_prop kvs (js ''allOf'') of JArr bs \<Rightarrow> concat (map (\<lambda>b. collectDeclaredProperties b []) bs) | _ \<Rightarrow> []) @
         (case get_prop kvs (js ''anyOf'') of JArr bs \<Rightarrow> concat (map (\<lambda>b. collectDeclaredProperties b []) bs) | _ \<Rightarrow> []) @
         (case get_prop kvs (js ''oneOf'') of JArr bs \<Rightarrow> concat (map (\<lambda>b. collectDeclaredProperties b []) bs) | _ \<Rightarrow> []))"
| "collectDeclaredProperties _ acc = acc"

definition declaredStringProperties :: "(jstr \<times> jsval) list \<Rightarrow> jstr set" where
  "declaredStringProperties document = set (collectDeclaredProperties (JObj document) [])"

section \<open>Building the policy\<close>

text \<open>\<open>schema_of\<close> is the tool registry followed by \<^verbatim>\<open>resolveJsonSchema\<close>: the JSON Schema document
  of a registered tool's input. A clause's \<^verbatim>\<open>field\<close>, when it has one, is a string by its type.\<close>

definition GREP_SCOPES_FIELD :: jstr where
  "GREP_SCOPES_FIELD = js ''scopes''"

definition assertMatcherFields ::
    "jstr \<Rightarrow> permission_list \<Rightarrow> permission_matcher option \<Rightarrow> jstr set \<Rightarrow> compile_error + unit" where
  "assertMatcherFields toolId l matcher allowedFields =
     (case matcher of
        Some (Clauses cs) \<Rightarrow>
          bind_res (map_res (\<lambda>(index, clause).
             (case get_prop clause (js ''field'') of
                JStr f \<Rightarrow>
                  if f \<in> allowedFields then Inr ()
                  else Inl (PermissionCompileError (clause_path (group_path toolId) l index)
                         (js ''field '' @ [34] @ f @ [34] @ js '' is not a declared string input of tool '' @
                          [34] @ toolId @ [34]))
              | _ \<Rightarrow> Inr ())) (enumerate 0 cs)) (\<lambda>_. Inr ())
      | _ \<Rightarrow> Inr ())"

definition validateCodeOwnedFields ::
    "(jstr \<Rightarrow> (jstr \<times> jsval) list option) \<Rightarrow> tool_permission_map \<Rightarrow> compile_error + unit" where
  "validateCodeOwnedFields schema_of permissions =
     bind_res (map_res (\<lambda>(toolId, g).
        if starts_with toolId (js ''mcp__'') then Inr ()
        else (case schema_of toolId of
                None \<Rightarrow> Inr ()
              | Some document \<Rightarrow>
                  (let allowedFields =
                     (if toolId = js ''grep''
                      then insert GREP_SCOPES_FIELD (declaredStringProperties document)
                      else declaredStringProperties document)
                   in bind_res (assertMatcherFields toolId AllowList (pg_allow g) allowedFields) (\<lambda>_.
                      assertMatcherFields toolId RejectList (pg_reject g) allowedFields)))) permissions) (\<lambda>_. Inr ())"

definition buildToolPermissionPolicy ::
    "(jstr \<Rightarrow> (jstr \<Rightarrow> bool) option) \<Rightarrow> (jstr \<Rightarrow> jstr) \<Rightarrow> (jstr \<Rightarrow> (jstr \<times> jsval) list option) \<Rightarrow> jstr \<Rightarrow>
       tool_permission_map \<Rightarrow> compile_error + compiled_policy" where
  "buildToolPermissionPolicy re2_compile re2_quote schema_of randomUUID permissions =
     bind_res (validateCodeOwnedFields schema_of permissions) (\<lambda>_.
       compileToolPermissionMap re2_compile re2_quote permissions randomUUID)"

section \<open>What compilation guarantees\<close>

definition clause_ok :: "jstr \<Rightarrow> permission_list \<Rightarrow> nat \<Rightarrow> compiled_permission_clause \<Rightarrow> bool" where
  "clause_ok groupId l i c \<longleftrightarrow>
     cc_groupId c = groupId \<and> cc_list c = l \<and> cc_clauseIndex c = i \<and>
     (case cc_target c of FieldTarget f \<Rightarrow> f \<noteq> [] | AllFieldsTarget \<Rightarrow> l = RejectList)"

definition group_ok :: "jstr \<Rightarrow> compiled_permission_group \<Rightarrow> bool" where
  "group_ok groupId g \<longleftrightarrow>
     (\<forall>i<length (allowClauses g). clause_ok groupId AllowList i (allowClauses g ! i)) \<and>
     (\<forall>i<length (rejectClauses g). clause_ok groupId RejectList i (rejectClauses g ! i)) \<and>
     (allowWholeTool g \<longrightarrow> allowClauses g = []) \<and> (rejectWholeTool g \<longrightarrow> rejectClauses g = [])"

lemma nonempty_string_Some: "nonempty_string v = Some f \<Longrightarrow> f \<noteq> []"
  by (auto simp: nonempty_string_def split: jsval.splits if_splits)

lemma compileClause_ok:
  "compileClause rc rq path groupId l i clause = Inr c \<Longrightarrow> clause_ok groupId l i c"
  by (cases l) (auto simp: compileClause_def Let_def clause_ok_def dest: nonempty_string_Some
      split: if_splits option.splits)

lemma compileMatcher_ok:
  assumes "compileMatcher rc rq path groupId l m = Inr (whole, cs)"
  shows "(\<forall>i<length cs. clause_ok groupId l i (cs ! i)) \<and> (whole \<longrightarrow> cs = [])"
proof -
  have "clause_ok groupId l i (cs ! i)"
    if "list_all2 (\<lambda>x y. (case x of (i, c) \<Rightarrow> compileClause rc rq path groupId l i c) = Inr y) (enumerate 0 xs) cs"
      "i < length cs" for xs i
    using that list_all2_nthD2 [OF that] list_all2_lengthD [OF that(1)]
    by (auto simp: nth_enumerate_eq intro: compileClause_ok)
  then show ?thesis
    using assms by (auto simp: compileMatcher_def map_res_Inr split: option.splits permission_matcher.splits)
qed

lemma compileGroup_ok: "compileGroup rc rq path groupId g = Inr cg \<Longrightarrow> group_ok groupId cg"
  by (auto simp: compileGroup_def group_ok_def dest!: compileMatcher_ok)

definition total_clauses :: "(jstr \<times> compiled_permission_group) list \<Rightarrow> nat" where
  "total_clauses groups = sum_list (map (clause_count \<circ> snd) groups)"

lemma total_clauses_map_set: "total_clauses (map_set m k v) \<le> total_clauses m + clause_count v"
  by (induction m k v rule: map_set.induct) (auto simp: total_clauses_def)

lemma set_map_set: "set (map_set m k v) \<subseteq> insert (k, v) (set m)"
  by (induction m k v rule: map_set.induct) auto

lemma length_map_set_le: "length (map_set m k v) \<le> Suc (length m)"
  by (simp add: length_map_set)

lemma compile_entries_ok:
  assumes "compile_entries rc rq n groups es = Inr groups'"
    and "total_clauses groups \<le> n" "n \<le> maxClauses PERMISSION_LIMITS" "\<forall>(k, g)\<in>set groups. group_ok k g"
    and "distinct (map fst groups)"
  shows "total_clauses groups' \<le> maxClauses PERMISSION_LIMITS \<and> length groups' \<le> length groups + length es \<and>
    fst ` set groups' = fst ` set groups \<union> fst ` set es \<and> (\<forall>(k, g)\<in>set groups'. group_ok k g) \<and>
    distinct (map fst groups')"
  using assms
proof (induction es arbitrary: n groups)
  case Nil
  then show ?case by auto
next
  case (Cons e es)
  obtain toolId g where e: "e = (toolId, g)" by fastforce
  with Cons.prems(1) obtain cg where cg: "compileGroup rc rq (group_path toolId) toolId g = Inr cg"
    "n + clause_count cg \<le> maxClauses PERMISSION_LIMITS"
    "compile_entries rc rq (n + clause_count cg) (map_set groups toolId cg) es = Inr groups'"
    by (auto simp: Let_def split: if_splits)
  have "\<forall>(k, g)\<in>set (map_set groups toolId cg). group_ok k g"
    using set_map_set [of groups toolId cg] compileGroup_ok [OF cg(1)] Cons.prems(4) by blast
  moreover have "total_clauses (map_set groups toolId cg) \<le> n + clause_count cg"
    using total_clauses_map_set [of groups toolId cg] Cons.prems(2) by simp
  ultimately show ?case
    using Cons.IH [OF cg(3) _ cg(2)] distinct_map_set [OF Cons.prems(5)] length_map_set_le [of groups toolId cg] e
    by simp
qed

section \<open>String-capable schemas\<close>

text \<open>When a JSON Schema accepts a string, for the keywords a tool's schema may use: the reading
  of the JSON Schema specification that the code approximates.\<close>

fun accepts_string :: "jstr \<Rightarrow> jsval \<Rightarrow> bool" where
  "accepts_string s (JBool b) \<longleftrightarrow> b"
| "accepts_string s (JObj kvs) \<longleftrightarrow>
     (case get_prop kvs (js ''type'') of
        JUndef \<Rightarrow> True | JStr t \<Rightarrow> t = js ''string'' | JArr ts \<Rightarrow> JStr (js ''string'') \<in> set ts | _ \<Rightarrow> False) \<and>
     (get_prop kvs (js ''const'') = JUndef \<or> get_prop kvs (js ''const'') = JStr s) \<and>
     (case get_prop kvs (js ''enum'') of JUndef \<Rightarrow> True | JArr es \<Rightarrow> JStr s \<in> set es | _ \<Rightarrow> False) \<and>
     (case get_prop kvs (js ''allOf'') of JArr bs \<Rightarrow> \<forall>b\<in>set bs. accepts_string s b | _ \<Rightarrow> True) \<and>
     (case get_prop kvs (js ''anyOf'') of JArr bs \<Rightarrow> \<exists>b\<in>set bs. accepts_string s b | _ \<Rightarrow> True) \<and>
     (case get_prop kvs (js ''oneOf'') of
        JArr bs \<Rightarrow> length (filter id (map (accepts_string s) bs)) = 1 | _ \<Rightarrow> True)"
| "accepts_string s _ \<longleftrightarrow> False"

lemma one_accepts: "length (filter id (map f bs)) = 1 \<Longrightarrow> \<exists>b\<in>set bs. f b"
  by (induction bs) (auto split: if_splits)

lemma JStr_in_is_string: "JStr s \<in> set es \<Longrightarrow> \<exists>e\<in>set es. is_string e"
  by (rule bexI [of _ "JStr s"]) simp_all

lemma schemaPermitsString_False:
  assumes "\<not> schemaPermitsString (JObj kvs)"
  shows "get_prop kvs (js ''type'') \<noteq> JStr (js ''string'')"
    and "get_prop kvs (js ''type'') = JArr ts \<Longrightarrow> JStr (js ''string'') \<notin> set ts"
    and "\<not> is_string (get_prop kvs (js ''const''))"
    and "get_prop kvs (js ''enum'') = JArr es \<Longrightarrow> JStr s \<notin> set es"
    and "get_prop kvs (js ''allOf'') = JArr bs \<Longrightarrow> \<exists>b\<in>set bs. \<not> schemaPermitsString b"
    and "get_prop kvs (js ''anyOf'') = JArr bs \<Longrightarrow> b \<in> set bs \<Longrightarrow> \<not> schemaPermitsString b"
    and "get_prop kvs (js ''oneOf'') = JArr bs \<Longrightarrow> b \<in> set bs \<Longrightarrow> \<not> schemaPermitsString b"
    and "get_prop kvs (js ''type'') \<noteq> JUndef \<or> get_prop kvs (js ''const'') \<noteq> JUndef \<or>
      get_prop kvs (js ''enum'') \<noteq> JUndef \<or> (\<exists>bs. get_prop kvs (js ''allOf'') = JArr bs) \<or>
      (\<exists>bs. get_prop kvs (js ''anyOf'') = JArr bs) \<or> (\<exists>bs. get_prop kvs (js ''oneOf'') = JArr bs)"
proof -
  note no = assms [unfolded schemaPermitsString.simps Let_def if_bool_eq_disj simp_thms]
  show "get_prop kvs (js ''type'') \<noteq> JStr (js ''string'')" using no by blast
  show "get_prop kvs (js ''type'') = JArr ts \<Longrightarrow> JStr (js ''string'') \<notin> set ts" using no by force
  show "\<not> is_string (get_prop kvs (js ''const''))" using no by blast
  show "get_prop kvs (js ''enum'') = JArr es \<Longrightarrow> JStr s \<notin> set es" using no by force
  show "get_prop kvs (js ''allOf'') = JArr bs \<Longrightarrow> \<exists>b\<in>set bs. \<not> schemaPermitsString b" using no by force
  show "get_prop kvs (js ''anyOf'') = JArr bs \<Longrightarrow> b \<in> set bs \<Longrightarrow> \<not> schemaPermitsString b" using no by force
  show "get_prop kvs (js ''oneOf'') = JArr bs \<Longrightarrow> b \<in> set bs \<Longrightarrow> \<not> schemaPermitsString b" using no by force
  have arr: "(case v of JArr _ \<Rightarrow> True | _ \<Rightarrow> False) \<Longrightarrow> \<exists>bs. v = JArr bs" for v by (cases v) auto
  show "get_prop kvs (js ''type'') \<noteq> JUndef \<or> get_prop kvs (js ''const'') \<noteq> JUndef \<or>
      get_prop kvs (js ''enum'') \<noteq> JUndef \<or> (\<exists>bs. get_prop kvs (js ''allOf'') = JArr bs) \<or>
      (\<exists>bs. get_prop kvs (js ''anyOf'') = JArr bs) \<or> (\<exists>bs. get_prop kvs (js ''oneOf'') = JArr bs)"
    using no arr by blast
qed

lemma schemaPermitsString_complete: "accepts_string s schema \<Longrightarrow> schemaPermitsString schema"
proof (induction schema rule: measure_induct_rule [of size])
  case (less schema)
  show ?case
  proof (cases schema)
    case (JObj kvs)
    note acc = less.prems [unfolded JObj accepts_string.simps]
    have br: "schemaPermitsString b" if "get_prop kvs k = JArr bs" "b \<in> set bs" "accepts_string s b" for k bs b
      using that less.IH [of b] size_get_prop_elem [OF that(1,2)] JObj by (simp add: size_prod_simp)
    show ?thesis
    proof (rule ccontr)
      assume "\<not> schemaPermitsString schema"
      note no = schemaPermitsString_False [OF this [unfolded JObj]]
      have "get_prop kvs (js ''type'') = JUndef" using acc no(1,2) by (cases "get_prop kvs (js ''type'')") auto
      moreover have "get_prop kvs (js ''const'') = JUndef" using acc no(3) by auto
      moreover have "get_prop kvs (js ''enum'') = JUndef" using acc no(4) by (cases "get_prop kvs (js ''enum'')") auto
      moreover have "get_prop kvs (js ''allOf'') \<noteq> JArr bs" for bs using acc no(5) [of bs] br by auto
      moreover have "get_prop kvs (js ''anyOf'') \<noteq> JArr bs" for bs
      proof
        assume b: "get_prop kvs (js ''anyOf'') = JArr bs"
        then have "\<exists>b\<in>set bs. accepts_string s b" using acc by simp
        then show False using br [OF b] no(6) [OF b] by blast
      qed
      moreover have "get_prop kvs (js ''oneOf'') \<noteq> JArr bs" for bs
      proof
        assume b: "get_prop kvs (js ''oneOf'') = JArr bs"
        then have "\<exists>b\<in>set bs. accepts_string s b" using acc one_accepts [of "accepts_string s" bs] by simp
        then show False using br [OF b] no(7) [OF b] by blast
      qed
      ultimately show False using no(8) by blast
    qed
  qed (use less.prems in auto)
qed

section \<open>Properties\<close>

text \<open>An engine for the concrete instances: it compiles every pattern, and \<^verbatim>\<open>quote\<close> is the identity,
  so a pattern is searched for as it stands.\<close>

definition substring_engine :: "jstr \<Rightarrow> (jstr \<Rightarrow> bool) option" where
  "substring_engine p = Some (\<lambda>v. str_includes v p)"

definition sample_map :: tool_permission_map where
  "sample_map =
     [(js ''bash'', \<lparr>pg_allow = Some (Clauses [[(js ''literal'', JStr (js ''ls'')), (js ''field'', JStr (js ''command''))]]),
        pg_reject = Some (Clauses [[(js ''regex'', JStr (js ''rm'')), (js ''allFields'', JBool True)]])\<rparr>),
      (js ''read'', \<lparr>pg_allow = Some WholeTool, pg_reject = None\<rparr>)]"

text \<open>A policy that compiles has at most 256 groups and 1024 clauses (whole-tool booleans
  counted), exactly the groups of the configured map, and every clause carries its own group,
  list and index; an allow clause always targets one non-empty field, never all fields, and a
  whole-tool boolean leaves no clauses beside it.\<close>

lemma compiled_policy_bounded:
  assumes "compileToolPermissionMap re2_compile re2_quote m pid = Inr p"
  shows "length (policy_groups p) \<le> 256 \<and> total_clauses (policy_groups p) \<le> 1024 \<and>
    fst ` set (policy_groups p) = fst ` set m \<and> distinct (map fst (policy_groups p)) \<and>
    (\<forall>(k, g)\<in>set (policy_groups p). group_ok k g)"
proof -
  obtain groups where g: "compile_entries re2_compile re2_quote 0 [] m = Inr groups" "p = \<lparr>policy_id = pid, policy_groups = groups\<rparr>"
    "length m \<le> maxGroups PERMISSION_LIMITS"
    using assms by (auto simp: compileToolPermissionMap_def split: if_splits)
  then show ?thesis
    using compile_entries_ok [OF g(1)] by (simp add: total_clauses_def PERMISSION_LIMITS_def)
qed

lemmas compile_eval = compileToolPermissionMap_def compileGroup_def compileMatcher_def compileClause_def
  compileMatcherPattern_def compileLiteralMatcher_def compileRegexMatcher_def assertPatternSize_def
  re2_or_throw_def nonempty_string_def get_prop_def clause_count_def PERMISSION_LIMITS_def Let_def enumerate_eq_zip

lemma sample_map_compiles: "\<exists>p. compileToolPermissionMap substring_engine id sample_map (js ''p'') = Inr p"
  by (simp add: sample_map_def substring_engine_def compile_eval js.simps upt_rec)

theorem compiled_policy_bounded_witness:
  "\<exists>p. compileToolPermissionMap substring_engine id sample_map (js ''p'') = Inr p \<and>
     fst ` set (policy_groups p) = {js ''bash'', js ''read''}"
proof -
  obtain p where p: "compileToolPermissionMap substring_engine id sample_map (js ''p'') = Inr p"
    using sample_map_compiles by blast
  then show ?thesis using compiled_policy_bounded [OF p] by (auto simp: sample_map_def)
qed

text \<open>A literal clause is a case-sensitive substring search. For an engine whose \<^verbatim>\<open>quote\<close> does
  what it documents (the quoted text matches exactly the strings that contain the text), a
  literal that compiles matches exactly the values that contain it, is at most 4096 bytes, and,
  when it has no whitespace, matches the same values under the flexible-whitespace rule.\<close>

lemma literal_matcher_is_substring:
  assumes quote: "\<And>s. re2_compile (re2_quote s) = Some (\<lambda>v. str_includes v s)"
    and lit: "literal \<noteq> []" and ok: "compileLiteralMatcher re2_compile re2_quote literal path = Inr m"
  shows "byte_length literal \<le> 4096 \<and> (\<forall>v. matchesExact m v \<longleftrightarrow> str_includes v literal) \<and>
    ((\<forall>c\<in>set literal. \<not> is_whitespace c) \<longrightarrow> (\<forall>v. matchesFlexibleWhitespace m v \<longleftrightarrow> str_includes v literal))"
proof -
  have "escapeBashWhitespace re2_quote literal = re2_quote literal" if "\<forall>c\<in>set literal. \<not> is_whitespace c"
    using that lit by (subst escapeBashWhitespace_def, subst split_whitespace.simps)
      (auto simp: Let_def takeWhile_eq_all_conv [THEN iffD2])
  then show ?thesis
    using ok quote
    by (auto simp: compileLiteralMatcher_def assertPatternSize_def re2_or_throw_def PERMISSION_LIMITS_def split: if_splits)
qed

theorem literal_matcher_is_substring_witness:
  "\<exists>m. compileLiteralMatcher substring_engine id (js ''rm'') [] = Inr m \<and> matchesExact m (js ''rm -rf'') \<and>
     \<not> matchesExact m (js ''RM'')"
proof -
  obtain m where m: "compileLiteralMatcher substring_engine id (js ''rm'') [] = Inr m"
    by (simp add: compile_eval substring_engine_def js.simps)
  have "matchesExact m v \<longleftrightarrow> str_includes v (js ''rm'')" for v
    using literal_matcher_is_substring [OF _ _ m] by (simp add: substring_engine_def js.simps)
  moreover have "str_includes (js ''rm -rf'') (js ''rm'')" by code_simp
  moreover have "\<not> str_includes (js ''RM'') (js ''rm'')" by code_simp
  ultimately show ?thesis using m by blast
qed

text \<open>No string input of a tool is missed: whenever a schema accepts some string (by the
  JSON Schema meaning of \<^verbatim>\<open>type\<close>, \<^verbatim>\<open>const\<close>, \<^verbatim>\<open>enum\<close>, \<^verbatim>\<open>allOf\<close>, \<^verbatim>\<open>anyOf\<close> and \<^verbatim>\<open>oneOf\<close>, nested to any
  depth), \<^verbatim>\<open>schemaPermitsString\<close> says so, and then a property with that schema is a declared
  field a clause may name.\<close>

lemma string_inputs_declared:
  assumes "get_prop document (js ''properties'') = JObj ps" "(name, schema) \<in> set ps" "accepts_string s schema"
  shows "schemaPermitsString schema \<and> name \<in> declaredStringProperties document"
proof
  show permits: "schemaPermitsString schema" using assms(3) by (rule schemaPermitsString_complete)
  then have "name \<in> fst ` {p \<in> set ps. schemaPermitsString (snd p)}" using assms(2) by force
  then show "name \<in> declaredStringProperties document" by (simp add: declaredStringProperties_def Let_def assms(1))
qed

theorem string_inputs_declared_witness:
  "js ''q'' \<in> declaredStringProperties
     [(js ''properties'', JObj [(js ''q'', JObj [(js ''anyOf'', JArr [JObj [(js ''type'', JStr (js ''number''))],
        JObj [(js ''enum'', JArr [JStr (js ''a'')])]])])])]"
  using string_inputs_declared [where name = "js ''q''" and s = "js ''a''" and schema = "JObj [(js ''anyOf'',
      JArr [JObj [(js ''type'', JStr (js ''number''))], JObj [(js ''enum'', JArr [JStr (js ''a'')])]])]"]
  by (simp add: get_prop_def)

end
