(* ===== verification/Permission_Evaluator.thy ===== *)
theory Permission_Evaluator
  imports Permission_Policy
begin

text \<open>
  The decision on one tool call: selecting the submitted values a clause looks at
  (\<^verbatim>\<open>value-selection.ts\<close>), evaluating the policy (\<^verbatim>\<open>evaluator.ts\<close>), the permission modes around it
  (\<^verbatim>\<open>admit.ts\<close>, \<^verbatim>\<open>permission-mode.ts\<close>, \<^verbatim>\<open>bash-command-field.ts\<close>), under
  \<^verbatim>\<open>apps/api/src/tools/permissions/\<close>.

  The budget, the collector and the \<^verbatim>\<open>ClauseSelection\<close> object are mutable in the source and are
  passed through here. The reference they are compared with, \<open>spec_evaluate\<close>, has no budget and
  no cache.
\<close>

section \<open>Value selection\<close>

record selected_value =
  sv_field :: jstr
  sv_value :: jstr

record selection_budget =
  visited :: nat
  bytes :: nat
  exceeded :: bool

definition createSelectionBudget :: selection_budget where
  "createSelectionBudget = \<lparr>visited = 0, bytes = 0, exceeded = False\<rparr>"

definition chargeString :: "jstr \<Rightarrow> selection_budget \<Rightarrow> bool \<times> selection_budget" where
  "chargeString value budget =
     (let b = budget\<lparr>bytes := bytes budget + byte_length value\<rparr> in
      if bytes b > maxSelectedContentBytes PERMISSION_LIMITS then (False, b\<lparr>exceeded := True\<rparr>) else (True, b))"

definition selectFieldValue :: "jsval \<Rightarrow> jstr \<Rightarrow> selection_budget \<Rightarrow> selected_value option \<times> selection_budget" where
  "selectFieldValue args field budget =
     (case args of
        JObj kvs \<Rightarrow>
          if \<not> has_own kvs field then (None, budget)
          else (case get_prop kvs field of
                  JStr value \<Rightarrow>
                    (case chargeString value budget of
                       (False, b) \<Rightarrow> (None, b)
                     | (True, b) \<Rightarrow> (Some \<lparr>sv_field = field, sv_value = value\<rparr>, b))
                | _ \<Rightarrow> (None, budget))
      | _ \<Rightarrow> (None, budget))"

record collector =
  col_budget :: selection_budget
  collected :: "selected_value list"

definition exceed :: "collector \<Rightarrow> collector" where
  "exceed c = c\<lparr>col_budget := (col_budget c)\<lparr>exceeded := True\<rparr>\<rparr>"

definition collect_string :: "collector \<Rightarrow> jstr \<Rightarrow> jstr \<Rightarrow> collector" where
  "collect_string c value field =
     (case chargeString value (col_budget c) of
        (False, b) \<Rightarrow> c\<lparr>col_budget := b\<rparr>
      | (True, b) \<Rightarrow> c\<lparr>col_budget := b, collected := collected c @ [\<lparr>sv_field = field, sv_value = value\<rparr>]\<rparr>)"

definition count_visit :: "collector \<Rightarrow> collector" where
  "count_visit c = c\<lparr>col_budget := (col_budget c)\<lparr>visited := visited (col_budget c) + 1\<rparr>\<rparr>"

lemma size_list_snd_le: "size_list size (map snd kvs) \<le> size_list (size_prod (\<lambda>_. 0) size) kvs"
  by (induction kvs) (auto simp: size_prod_simp)

function (sequential) visit :: "collector \<Rightarrow> jsval \<Rightarrow> jstr \<Rightarrow> nat \<Rightarrow> collector"
  and descend :: "collector \<Rightarrow> jsval list \<Rightarrow> jstr \<Rightarrow> nat \<Rightarrow> collector"
  and visit_each :: "collector \<Rightarrow> jsval list \<Rightarrow> jstr \<Rightarrow> nat \<Rightarrow> collector" where
  "visit c value topLevelField depth =
     (if exceeded (col_budget c) then c
      else
        (let c' = count_visit c in
         if visited (col_budget c') > maxVisitedValues PERMISSION_LIMITS then exceed c'
         else (case value of
                 JStr s \<Rightarrow> collect_string c' s topLevelField
               | JArr vs \<Rightarrow> descend c' vs topLevelField depth
               | JObj kvs \<Rightarrow> descend c' (map snd kvs) topLevelField depth
               | _ \<Rightarrow> c')))"
| "descend c values topLevelField depth =
     (if depth + 1 > maxContainerDepth PERMISSION_LIMITS then exceed c
      else visit_each c values topLevelField (depth + 1))"
| "visit_each c [] topLevelField depth = c"
| "visit_each c (v # vs) topLevelField depth = visit_each (visit c v topLevelField depth) vs topLevelField depth"
  by pat_completeness auto

termination
proof (relation "measure (\<lambda>x. case x of
      Inl (c, v, f, d) \<Rightarrow> 2 * size v
    | Inr (Inl (c, vs, f, d)) \<Rightarrow> 2 * size_list size vs + 1
    | Inr (Inr (c, vs, f, d)) \<Rightarrow> 2 * size_list size vs)", goal_cases)
  case (3 c v f d c' kvs)
  then show ?case using size_list_snd_le [of kvs] by simp
qed simp_all

declare visit.simps [simp del] descend.simps [simp del]

definition collectAllStringValues :: "jsval \<Rightarrow> selection_budget \<Rightarrow> selected_value list \<times> selection_budget" where
  "collectAllStringValues args budget =
     (case args of
        JObj kvs \<Rightarrow>
          (let c = fold (\<lambda>(field, value) c. visit c value field 0) kvs \<lparr>col_budget = budget, collected = []\<rparr>
           in (collected c, col_budget c))
      | _ \<Rightarrow> ([], budget))"

section \<open>Evaluation\<close>

record evaluate_options =
  eo_toolId :: jstr
  eo_args :: jsval
  eo_isFlexibleWhitespaceField :: "(jstr \<Rightarrow> bool) option"
  eo_projectFieldValue :: "(jstr \<Rightarrow> jstr \<Rightarrow> jstr) option"
  eo_validFields :: "jstr set option"

record clause_reference =
  ref_groupId :: jstr
  ref_list :: permission_list
  ref_clauseIndex :: "nat option"

datatype allow_reason = MatchedAllow | PermissionModeBypass

datatype rejection_reason = ExplicitReject | NoAllow | InvalidField | InputLimit | PermissionModeReadOnly

datatype permission_decision =
    Allow jstr allow_reason "clause_reference option"
  | Reject jstr rejection_reason "clause_reference option"

definition clauseReference :: "compiled_permission_clause \<Rightarrow> clause_reference" where
  "clauseReference c =
     \<lparr>ref_groupId = cc_groupId c, ref_list = cc_list c, ref_clauseIndex = Some (cc_clauseIndex c)\<rparr>"

definition wholeToolReference :: "jstr \<Rightarrow> permission_list \<Rightarrow> clause_reference" where
  "wholeToolReference groupId l = \<lparr>ref_groupId = groupId, ref_list = l, ref_clauseIndex = None\<rparr>"

definition allow :: "jstr \<Rightarrow> clause_reference option \<Rightarrow> permission_decision" where
  "allow policyId reference = Allow policyId MatchedAllow reference"

definition reject :: "jstr \<Rightarrow> rejection_reason \<Rightarrow> clause_reference option \<Rightarrow> permission_decision" where
  "reject policyId reason reference = Reject policyId reason reference"

record clause_selection =
  cs_args :: jsval
  cs_project :: "jstr \<Rightarrow> jstr \<Rightarrow> jstr"
  cs_isFlexibleField :: "jstr \<Rightarrow> bool"
  cs_budget :: selection_budget
  cs_allFieldsValues :: "selected_value list"
  cs_fieldCache :: "(jstr \<times> selected_value option) list"

definition project_of :: "evaluate_options \<Rightarrow> jstr \<Rightarrow> jstr \<Rightarrow> jstr" where
  "project_of opts = (case eo_projectFieldValue opts of Some p \<Rightarrow> p | None \<Rightarrow> (\<lambda>_ value. value))"

definition flexible_of :: "evaluate_options \<Rightarrow> jstr \<Rightarrow> bool" where
  "flexible_of opts =
     (case eo_isFlexibleWhitespaceField opts of
        Some p \<Rightarrow> p
      | None \<Rightarrow> (\<lambda>field. eo_toolId opts = js ''bash'' \<and> field = js ''command''))"

definition projected :: "(jstr \<Rightarrow> jstr \<Rightarrow> jstr) \<Rightarrow> selected_value \<Rightarrow> selected_value" where
  "projected project sv = \<lparr>sv_field = sv_field sv, sv_value = project (sv_field sv) (sv_value sv)\<rparr>"

definition uses_all_fields :: "compiled_permission_clause list \<Rightarrow> bool" where
  "uses_all_fields clauses \<longleftrightarrow> (\<exists>c\<in>set clauses. cc_target c = AllFieldsTarget)"

definition clauseSelection :: "evaluate_options \<Rightarrow> compiled_permission_clause list \<Rightarrow> clause_selection" where
  "clauseSelection opts clauses =
     (let (values, budget) =
        (if \<not> is_record (eo_args opts) \<or> \<not> uses_all_fields clauses then ([], createSelectionBudget)
         else (case collectAllStringValues (eo_args opts) createSelectionBudget of
                 (vs, b) \<Rightarrow> (map (projected (project_of opts)) vs, b)))
      in \<lparr>cs_args = eo_args opts, cs_project = project_of opts, cs_isFlexibleField = flexible_of opts,
          cs_budget = budget, cs_allFieldsValues = values, cs_fieldCache = []\<rparr>)"

definition projectSelected :: "clause_selection \<Rightarrow> jstr \<Rightarrow> selected_value option \<times> selection_budget" where
  "projectSelected sel field =
     (case selectFieldValue (cs_args sel) field (cs_budget sel) of
        (None, b) \<Rightarrow> (None, b)
      | (Some sv, b) \<Rightarrow> (Some (projected (cs_project sel) sv), b))"

definition fill_cache :: "clause_selection \<Rightarrow> jstr \<Rightarrow> clause_selection" where
  "fill_cache sel field =
     (if map_of (cs_fieldCache sel) field \<noteq> None then sel
      else (case find (\<lambda>sv. sv_field sv = field) (cs_allFieldsValues sel) of
              Some sv \<Rightarrow> sel\<lparr>cs_fieldCache := map_set (cs_fieldCache sel) field (Some sv)\<rparr>
            | None \<Rightarrow>
                (case projectSelected sel field of
                   (r, b) \<Rightarrow> sel\<lparr>cs_fieldCache := map_set (cs_fieldCache sel) field r, cs_budget := b\<rparr>)))"

definition fieldValues :: "clause_selection \<Rightarrow> jstr \<Rightarrow> selected_value list \<times> clause_selection" where
  "fieldValues sel field =
     (let sel' = fill_cache sel field in
      (case map_of (cs_fieldCache sel') field of Some (Some sv) \<Rightarrow> [sv] | _ \<Rightarrow> [], sel'))"

definition match_value :: "(jstr \<Rightarrow> bool) \<Rightarrow> compiled_permission_clause \<Rightarrow> selected_value \<Rightarrow> bool" where
  "match_value isFlexibleField clause sv =
     (if isFlexibleField (sv_field sv) then matchesFlexibleWhitespace (cc_matcher clause) (sv_value sv)
      else matchesExact (cc_matcher clause) (sv_value sv))"

definition clause_matches :: "clause_selection \<Rightarrow> compiled_permission_clause \<Rightarrow> bool \<times> clause_selection" where
  "clause_matches sel clause =
     (let (values, sel') =
        (case cc_target clause of
           AllFieldsTarget \<Rightarrow> (cs_allFieldsValues sel, sel)
         | FieldTarget field \<Rightarrow> fieldValues sel field)
      in (\<exists>sv\<in>set values. match_value (cs_isFlexibleField sel) clause sv, sel'))"

fun firstMatch :: "clause_selection \<Rightarrow> compiled_permission_clause list \<Rightarrow> compiled_permission_clause option \<times> clause_selection" where
  "firstMatch sel [] = (None, sel)"
| "firstMatch sel (clause # clauses) =
     (case clause_matches sel clause of
        (True, sel') \<Rightarrow> (Some clause, sel')
      | (False, sel') \<Rightarrow> firstMatch sel' clauses)"

definition invalidFieldReference ::
    "compiled_permission_clause list \<Rightarrow> jstr set option \<Rightarrow> clause_reference option" where
  "invalidFieldReference clauses validFields =
     (case validFields of
        None \<Rightarrow> None
      | Some valid \<Rightarrow>
          map_option clauseReference
            (find (\<lambda>c. case cc_target c of FieldTarget f \<Rightarrow> f \<notin> valid | AllFieldsTarget \<Rightarrow> False) clauses))"

definition decideGroup ::
    "jstr \<Rightarrow> jstr \<Rightarrow> compiled_permission_group \<Rightarrow> evaluate_options \<Rightarrow> compiled_permission_clause list \<Rightarrow>
       permission_decision" where
  "decideGroup policyId toolId g opts clauses =
     (case firstMatch (clauseSelection opts clauses) (rejectClauses g) of
        (Some rejected, _) \<Rightarrow> reject policyId ExplicitReject (Some (clauseReference rejected))
      | (None, sel) \<Rightarrow>
          if exceeded (cs_budget sel) then reject policyId InputLimit None
          else if allowWholeTool g then allow policyId (Some (wholeToolReference toolId AllowList))
          else (case firstMatch sel (allowClauses g) of
                  (Some allowed, _) \<Rightarrow> allow policyId (Some (clauseReference allowed))
                | (None, sel') \<Rightarrow>
                    if exceeded (cs_budget sel') then reject policyId InputLimit None
                    else reject policyId NoAllow None))"

definition evaluateGroup ::
    "jstr \<Rightarrow> jstr \<Rightarrow> compiled_permission_group \<Rightarrow> evaluate_options \<Rightarrow> permission_decision" where
  "evaluateGroup policyId toolId g opts =
     (if rejectWholeTool g
      then reject policyId ExplicitReject (Some (wholeToolReference toolId RejectList))
      else
        (let clauses = rejectClauses g @ allowClauses g in
         if clauses = []
         then (if allowWholeTool g then allow policyId (Some (wholeToolReference toolId AllowList))
               else reject policyId NoAllow None)
         else (case invalidFieldReference clauses (eo_validFields opts) of
                 Some r \<Rightarrow> reject policyId InvalidField (Some r)
               | None \<Rightarrow> decideGroup policyId toolId g opts clauses)))"

definition evaluatePermission :: "compiled_policy \<Rightarrow> evaluate_options \<Rightarrow> permission_decision" where
  "evaluatePermission policy opts =
     (case map_of (policy_groups policy) (eo_toolId opts) of
        None \<Rightarrow> reject (policy_id policy) NoAllow None
      | Some g \<Rightarrow> evaluateGroup (policy_id policy) (eo_toolId opts) g opts)"

section \<open>Permission modes\<close>

datatype permission_mode = ModeDefault | ModeBypass | ModeReadOnly

datatype admission_mode = RunMode permission_mode | OwnerRoute

definition DEFAULT_PERMISSION_MODE :: permission_mode where
  "DEFAULT_PERMISSION_MODE = ModeDefault"

datatype tool_classification =
    ClassReadOnly | WriteLowRisk | WriteHighRisk | ExecuteCode | ExternalSend | FinancialOrSensitive
  | Admin | Unverified

record tool_context =
  ctx_permissionMode :: "permission_mode option"
  ctx_permissionPolicy :: "compiled_policy option"

definition context_mode :: "tool_context \<Rightarrow> permission_mode" where
  "context_mode ctx = (case ctx_permissionMode ctx of Some m \<Rightarrow> m | None \<Rightarrow> DEFAULT_PERMISSION_MODE)"

type_synonym evaluate_call = "evaluate_options \<Rightarrow> permission_decision"

fun decidePermission :: "compiled_policy \<Rightarrow> admission_mode \<Rightarrow> (evaluate_call \<Rightarrow> permission_decision) \<Rightarrow> permission_decision" where
  "decidePermission policy (RunMode ModeBypass) decide = Allow (policy_id policy) PermissionModeBypass None"
| "decidePermission policy _ decide = decide (evaluatePermission policy)"

definition evaluatesPermission :: "tool_context \<Rightarrow> bool" where
  "evaluatesPermission ctx \<longleftrightarrow> context_mode ctx \<noteq> ModeBypass"

definition readOnlyCeiling ::
    "tool_context \<Rightarrow> jstr \<Rightarrow> tool_classification \<Rightarrow> (jstr \<times> jsval) list \<Rightarrow> permission_decision option" where
  "readOnlyCeiling ctx tool_id classification submittedArgs =
     (if context_mode ctx \<noteq> ModeReadOnly then None
      else if classification = ClassReadOnly \<or> tool_id = js ''exit_workspace'' \<or>
              (tool_id = js ''enter_workspace'' \<and> get_prop submittedArgs (js ''worktree'') = JUndef)
      then None
      else (case ctx_permissionPolicy ctx of
              None \<Rightarrow> None
            | Some policy \<Rightarrow> Some (Reject (policy_id policy) PermissionModeReadOnly None)))"

definition admitPermission ::
    "tool_context \<Rightarrow> (evaluate_call \<Rightarrow> permission_decision) \<Rightarrow> permission_decision option" where
  "admitPermission ctx decide =
     (case ctx_permissionPolicy ctx of
        None \<Rightarrow> None
      | Some policy \<Rightarrow> Some (decidePermission policy (RunMode (context_mode ctx)) decide))"

definition evaluateSubmittedThenProjected ::
    "evaluate_call \<Rightarrow> evaluate_options \<Rightarrow> evaluate_options \<Rightarrow> permission_decision" where
  "evaluateSubmittedThenProjected evaluate submitted projectedOpts =
     (case evaluate submitted of
        Reject p reason r \<Rightarrow> if reason \<noteq> NoAllow then Reject p reason r else evaluate projectedOpts
      | _ \<Rightarrow> evaluate projectedOpts)"

definition isBashCommandField :: "jstr \<Rightarrow> jstr \<Rightarrow> bool" where
  "isBashCommandField toolId field \<longleftrightarrow> toolId = js ''bash'' \<and> field = js ''command''"

section \<open>The collector visits every string once\<close>

text \<open>The reference: every string of a value in the order the code meets it, the number of
  values, the bytes of its strings and whether containers nest within the bound.\<close>

fun all_strings :: "jsval \<Rightarrow> jstr list" where
  "all_strings (JStr s) = [s]"
| "all_strings (JArr vs) = concat (map all_strings vs)"
| "all_strings (JObj kvs) = concat (map (\<lambda>(k, v). all_strings v) kvs)"
| "all_strings _ = []"

fun count_values :: "jsval \<Rightarrow> nat" where
  "count_values (JArr vs) = Suc (sum_list (map count_values vs))"
| "count_values (JObj kvs) = Suc (sum_list (map (\<lambda>(k, v). count_values v) kvs))"
| "count_values _ = 1"

definition string_bytes :: "jsval \<Rightarrow> nat" where
  "string_bytes v = sum_list (map byte_length (all_strings v))"

fun depth_ok :: "nat \<Rightarrow> jsval \<Rightarrow> bool" where
  "depth_ok d (JArr vs) \<longleftrightarrow> d + 1 \<le> maxContainerDepth PERMISSION_LIMITS \<and> (\<forall>v\<in>set vs. depth_ok (d + 1) v)"
| "depth_ok d (JObj kvs) \<longleftrightarrow> d + 1 \<le> maxContainerDepth PERMISSION_LIMITS \<and> (\<forall>(k, v)\<in>set kvs. depth_ok (d + 1) v)"
| "depth_ok d _ \<longleftrightarrow> True"

definition vals_of :: "jstr \<Rightarrow> jsval \<Rightarrow> selected_value list" where
  "vals_of f v = map (\<lambda>s. \<lparr>sv_field = f, sv_value = s\<rparr>) (all_strings v)"

definition in_budget :: "selection_budget \<Rightarrow> bool" where
  "in_budget b \<longleftrightarrow> \<not> exceeded b \<and> visited b \<le> maxVisitedValues PERMISSION_LIMITS \<and>
     bytes b \<le> maxSelectedContentBytes PERMISSION_LIMITS"

definition charge :: "selection_budget \<Rightarrow> nat \<Rightarrow> nat \<Rightarrow> selection_budget" where
  "charge b n m = b\<lparr>visited := visited b + n, bytes := bytes b + m\<rparr>"

text \<open>What visiting values that need \<open>n\<close> visits and \<open>m\<close> bytes and hold the strings \<open>xs\<close> does to a
  collector: everything is collected when it fits, and otherwise the budget is exceeded and what
  was collected is a prefix.\<close>

definition collects :: "collector \<Rightarrow> bool \<Rightarrow> nat \<Rightarrow> nat \<Rightarrow> selected_value list \<Rightarrow> collector \<Rightarrow> bool" where
  "collects c ok n m xs c' \<longleftrightarrow>
     (if ok \<and> in_budget (charge (col_budget c) n m)
      then c' = c\<lparr>col_budget := charge (col_budget c) n m, collected := collected c @ xs\<rparr>
      else exceeded (col_budget c') \<and>
           (\<exists>ys zs. xs = ys @ zs \<and> collected c' = collected c @ ys))"

lemma charge_simps [simp]:
  "visited (charge b n m) = visited b + n" "bytes (charge b n m) = bytes b + m"
  "exceeded (charge b n m) = exceeded b" "charge (charge b n m) n' m' = charge b (n + n') (m + m')"
  "charge b 0 0 = b"
  by (simp_all add: charge_def add.assoc)

lemma in_budget_mono: "in_budget (charge b n m) \<Longrightarrow> n' \<le> n \<Longrightarrow> m' \<le> m \<Longrightarrow> in_budget (charge b n' m')"
  by (simp add: in_budget_def)

lemma exceeded_visit: "exceeded (col_budget c) \<Longrightarrow> visit c v f d = c"
  by (simp add: visit.simps)

lemma exceeded_visit_each: "exceeded (col_budget c) \<Longrightarrow> visit_each c vs f d = c"
  by (induction vs) (simp_all add: exceeded_visit)

lemma collects_exceeded:
  assumes "exceeded (col_budget c)"
  shows "collects c ok n m xs c"
  using assms by (auto simp: collects_def in_budget_def)

lemma collects_comp:
  assumes "collects c ok n m xs c'" and "\<not> exceeded (col_budget c') \<Longrightarrow> collects c' ok' n' m' xs' c''"
    and "exceeded (col_budget c') \<Longrightarrow> c'' = c'"
  shows "collects c (ok \<and> ok') (n + n') (m + m') (xs @ xs') c''"
proof (cases "ok \<and> in_budget (charge (col_budget c) n m)")
  case True
  then have c': "c' = c\<lparr>col_budget := charge (col_budget c) n m, collected := collected c @ xs\<rparr>"
    using assms(1) by (simp add: collects_def)
  have "\<not> exceeded (col_budget c')" using True c' by (simp add: in_budget_def)
  then show ?thesis
    using assms(2) True c' by (auto simp: collects_def add.assoc)
next
  case False
  then have "exceeded (col_budget c') \<and> (\<exists>ys zs. xs = ys @ zs \<and> collected c' = collected c @ ys)"
    using assms(1) unfolding collects_def by metis
  then have ex: "exceeded (col_budget c')" and
    pre: "\<exists>ys zs. xs = ys @ zs \<and> collected c' = collected c @ ys" by blast+
  have "\<not> (ok \<and> ok' \<and> in_budget (charge (col_budget c) (n + n') (m + m')))"
    using False in_budget_mono [of "col_budget c" "n + n'" "m + m'" n m] by auto
  then show ?thesis using ex pre assms(3) by (auto simp: collects_def)
qed

lemma collects_in_budget: "collects c ok n m xs c' \<Longrightarrow> \<not> exceeded (col_budget c') \<Longrightarrow> in_budget (col_budget c')"
  by (auto simp: collects_def split: if_splits)

lemma collects_collect_string:
  assumes "in_budget (col_budget c)"
  shows "collects c True 0 (byte_length s) [\<lparr>sv_field = f, sv_value = s\<rparr>] (collect_string c s f)"
  using assms by (auto simp: collects_def collect_string_def chargeString_def Let_def in_budget_def charge_def)

lemma sum_list_map_concat: "sum_list (concat (map g xs)) = (\<Sum>x\<leftarrow>xs. sum_list (g x))"
  by (induction xs) auto

lemma collects_values:
  "in_budget (col_budget c) \<Longrightarrow>
     collects c (depth_ok d v) (count_values v) (string_bytes v) (vals_of f v) (visit c v f d)"
  "in_budget (col_budget c) \<Longrightarrow>
     collects c (d + 1 \<le> maxContainerDepth PERMISSION_LIMITS \<and> (\<forall>v\<in>set vs. depth_ok (d + 1) v)) (sum_list (map count_values vs))
       (sum_list (map string_bytes vs)) (concat (map (vals_of f) vs)) (descend c vs f d)"
  "in_budget (col_budget c) \<Longrightarrow>
     collects c (\<forall>v\<in>set vs. depth_ok d v) (sum_list (map count_values vs))
       (sum_list (map string_bytes vs)) (concat (map (vals_of f) vs)) (visit_each c vs f d)"
proof (induction c v f d and c vs f d and c vs f d rule: visit_descend_visit_each.induct)
  case (1 c v f d)
  let ?c' = "count_visit c"
  show ?case
  proof (cases "visited (col_budget ?c') > maxVisitedValues PERMISSION_LIMITS")
    case True
    then have "visit c v f d = exceed ?c'" using "1.prems" by (simp add: visit.simps in_budget_def Let_def)
    moreover have "count_values v \<ge> 1" by (cases v) auto
    ultimately show ?thesis
      using True by (auto simp: collects_def exceed_def count_visit_def in_budget_def)
  next
    case False
    then have w: "in_budget (col_budget ?c')" using "1.prems" by (simp add: in_budget_def count_visit_def)
    have step: "collects c True 1 0 [] ?c'"
      using "1.prems" False by (auto simp: collects_def count_visit_def in_budget_def charge_def)
    have not: "\<not> exceeded (col_budget c)" "\<not> visited (col_budget ?c') > maxVisitedValues PERMISSION_LIMITS"
      using "1.prems" False by (simp_all add: in_budget_def)
    have lift: "collects c ok (Suc n) m xs c''" if "collects ?c' ok n m xs c''" for ok n m xs c''
      using collects_comp [OF step that] w by (simp add: in_budget_def)
    note IH = "1.IH" [OF not(1) refl not(2) _ w]
    have vis: "visit c v f d = (case v of
                 JStr s \<Rightarrow> collect_string ?c' s f
               | JArr vs \<Rightarrow> descend ?c' vs f d
               | JObj kvs \<Rightarrow> descend ?c' (map snd kvs) f d
               | _ \<Rightarrow> ?c')" using not by (simp add: visit.simps Let_def)
    have same: "collects ?c' True 0 0 [] ?c'" using w by (simp add: collects_def)
    show ?thesis
    proof (cases v)
      case (JStr s)
      then show ?thesis using lift [OF collects_collect_string [OF w, of s f]] vis
        by (simp add: string_bytes_def vals_of_def)
    next
      case (JArr vs)
      then show ?thesis using lift [OF IH(1) [OF JArr]] vis
        by (simp add: string_bytes_def vals_of_def map_concat sum_list_map_concat comp_def)
    next
      case (JObj kvs)
      then show ?thesis using lift [OF IH(2) [OF JObj]] vis
        by (simp add: string_bytes_def vals_of_def map_concat sum_list_map_concat comp_def case_prod_beta')
    qed (use lift [OF same] vis in \<open>simp_all add: string_bytes_def vals_of_def\<close>)
  qed
next
  case (2 c vs f d)
  then show ?case
    by (cases "d + 1 > maxContainerDepth PERMISSION_LIMITS")
      (auto simp: descend.simps collects_def exceed_def)
next
  case (3 c f d)
  then show ?case by (simp add: collects_def)
next
  case (4 c v vs f d)
  show ?case
    using collects_comp [OF "4.IH"(1) [OF "4.prems"] "4.IH"(2), OF collects_in_budget [OF "4.IH"(1) [OF "4.prems"]]]
      exceeded_visit_each by simp
qed

definition args_values :: "(jstr \<times> jsval) list \<Rightarrow> selected_value list" where
  "args_values kvs = concat (map (\<lambda>(k, v). vals_of k v) kvs)"

definition args_bytes :: "(jstr \<times> jsval) list \<Rightarrow> nat" where
  "args_bytes kvs = (\<Sum>(k, v)\<leftarrow>kvs. string_bytes v)"

definition fits :: "(jstr \<times> jsval) list \<Rightarrow> bool" where
  "fits kvs \<longleftrightarrow> (\<forall>(k, v)\<in>set kvs. depth_ok 0 v) \<and>
     (\<Sum>(k, v)\<leftarrow>kvs. count_values v) \<le> maxVisitedValues PERMISSION_LIMITS \<and>
     args_bytes kvs \<le> maxSelectedContentBytes PERMISSION_LIMITS"

lemma collects_entries:
  assumes "in_budget (col_budget c)"
  shows "collects c (\<forall>(k, v)\<in>set kvs. depth_ok 0 v) (\<Sum>(k, v)\<leftarrow>kvs. count_values v) (args_bytes kvs) (args_values kvs)
    (fold (\<lambda>(f, v) c. visit c v f 0) kvs c)"
  using assms
proof (induction kvs arbitrary: c)
  case Nil
  then show ?case by (simp add: collects_def args_values_def args_bytes_def)
next
  case (Cons kv kvs)
  obtain f v where kv: "kv = (f, v)" by fastforce
  have stop: "exceeded (col_budget c) \<Longrightarrow> fold (\<lambda>(f, v) c. visit c v f 0) xs c = c" for xs c
    by (induction xs) (auto simp: exceeded_visit)
  note first = collects_values(1) [OF Cons.prems, of 0 v f]
  show ?case
    using collects_comp [OF first Cons.IH, OF collects_in_budget [OF first] stop] kv
    by (simp add: args_values_def args_bytes_def)
qed

lemma in_budget_fresh [simp]: "in_budget createSelectionBudget"
  by (simp add: in_budget_def createSelectionBudget_def)

lemma collectAll_exact:
  assumes "collectAllStringValues (JObj kvs) createSelectionBudget = (vs, b)"
  shows "(exceeded b \<longleftrightarrow> \<not> fits kvs) \<and> (\<exists>rest. args_values kvs = vs @ rest) \<and>
    (fits kvs \<longrightarrow> vs = args_values kvs \<and> bytes b = args_bytes kvs)"
  using collects_entries [of "\<lparr>col_budget = createSelectionBudget, collected = []\<rparr>" kvs] assms
  by (auto simp: collectAllStringValues_def Let_def collects_def fits_def in_budget_def createSelectionBudget_def
      split: if_splits)

section \<open>The reference decision\<close>

text \<open>No budget and no cache: a clause holds when some value it looks at matches. What a field
  clause looks at is the code's own rule: the field's first string when the group has an
  all-fields clause, and otherwise the field's own string.\<close>

definition own_string :: "jsval \<Rightarrow> jstr \<Rightarrow> jstr option" where
  "own_string args f = (case args of
     JObj kvs \<Rightarrow> (case map_of kvs f of Some (JStr s) \<Rightarrow> Some s | _ \<Rightarrow> None) | _ \<Rightarrow> None)"

definition submitted_values :: "jsval \<Rightarrow> selected_value list" where
  "submitted_values args = (case args of JObj kvs \<Rightarrow> args_values kvs | _ \<Rightarrow> [])"

definition spec_field_value :: "bool \<Rightarrow> evaluate_options \<Rightarrow> jstr \<Rightarrow> selected_value option" where
  "spec_field_value usesAll opts f =
     map_option (projected (project_of opts))
       (if usesAll then find (\<lambda>sv. sv_field sv = f) (submitted_values (eo_args opts))
        else map_option (\<lambda>s. \<lparr>sv_field = f, sv_value = s\<rparr>) (own_string (eo_args opts) f))"

definition clause_holds :: "bool \<Rightarrow> evaluate_options \<Rightarrow> compiled_permission_clause \<Rightarrow> bool" where
  "clause_holds usesAll opts c \<longleftrightarrow>
     (case cc_target c of
        AllFieldsTarget \<Rightarrow>
          \<exists>sv\<in>set (submitted_values (eo_args opts)). match_value (flexible_of opts) c (projected (project_of opts) sv)
      | FieldTarget f \<Rightarrow>
          (case spec_field_value usesAll opts f of None \<Rightarrow> False | Some sv \<Rightarrow> match_value (flexible_of opts) c sv))"

definition spec_decide ::
    "jstr \<Rightarrow> jstr \<Rightarrow> compiled_permission_group \<Rightarrow> evaluate_options \<Rightarrow> compiled_permission_clause list \<Rightarrow>
       permission_decision" where
  "spec_decide policyId toolId g opts clauses =
     (let holds = clause_holds (uses_all_fields clauses) opts in
      case find holds (rejectClauses g) of
        Some c \<Rightarrow> Reject policyId ExplicitReject (Some (clauseReference c))
      | None \<Rightarrow>
          if allowWholeTool g then Allow policyId MatchedAllow (Some (wholeToolReference toolId AllowList))
          else (case find holds (allowClauses g) of
                  Some c \<Rightarrow> Allow policyId MatchedAllow (Some (clauseReference c))
                | None \<Rightarrow> Reject policyId NoAllow None))"

section \<open>The selection agrees with the reference\<close>

lemma find_prefix: "find P xs = Some x \<Longrightarrow> find P (xs @ ys) = Some x"
  by (induction xs) (auto split: if_splits)

lemma find_skip: "\<forall>x\<in>set xs. \<not> P x \<Longrightarrow> find P (xs @ ys) = find P ys"
  by (induction xs) auto

lemma find_projected:
  "find (\<lambda>sv. sv_field sv = f) (map (projected p) xs) = map_option (projected p) (find (\<lambda>sv. sv_field sv = f) xs)"
  by (induction xs) (auto simp: projected_def)

text \<open>An object's keys are distinct, so the first string the traversal meets under a field that
  holds a string is that string.\<close>

lemma find_own_string:
  assumes "distinct (map fst kvs)" "map_of kvs f = Some (JStr s)"
  shows "find (\<lambda>sv. sv_field sv = f) (args_values kvs) = Some \<lparr>sv_field = f, sv_value = s\<rparr>"
  using assms
proof (induction kvs)
  case (Cons kv kvs)
  obtain k v where kv: "kv = (k, v)" by fastforce
  show ?case
  proof (cases "k = f")
    case True
    then show ?thesis using Cons.prems kv by (simp add: args_values_def vals_of_def)
  next
    case False
    then have "find (\<lambda>sv. sv_field sv = f) (vals_of k v @ xs) = find (\<lambda>sv. sv_field sv = f) xs" for xs
      by (intro find_skip) (auto simp: vals_of_def)
    then show ?thesis using Cons False kv by (simp add: args_values_def)
  qed
qed simp

definition sel_ok :: "evaluate_options \<Rightarrow> bool \<Rightarrow> clause_selection \<Rightarrow> bool" where
  "sel_ok opts usesAll sel \<longleftrightarrow>
     cs_args sel = eo_args opts \<and> cs_project sel = project_of opts \<and> cs_isFlexibleField sel = flexible_of opts \<and>
     (\<exists>rest. map (projected (project_of opts)) (if usesAll then submitted_values (eo_args opts) else []) =
         cs_allFieldsValues sel @ rest \<and> (\<not> exceeded (cs_budget sel) \<longrightarrow> rest = [])) \<and>
     (\<forall>f r. map_of (cs_fieldCache sel) f = Some r \<longrightarrow>
        r = spec_field_value usesAll opts f \<or> r = None \<and> exceeded (cs_budget sel))"

lemma clauseSelection_ok: "sel_ok opts (uses_all_fields clauses) (clauseSelection opts clauses)"
proof (cases "is_record (eo_args opts) \<and> uses_all_fields clauses")
  case True
  then obtain kvs where kvs: "eo_args opts = JObj kvs" by (cases "eo_args opts") auto
  obtain vs b where vs: "collectAllStringValues (JObj kvs) createSelectionBudget = (vs, b)" by fastforce
  obtain rest where "args_values kvs = vs @ rest" "\<not> exceeded b \<longrightarrow> rest = []"
    using collectAll_exact [OF vs] by auto
  then show ?thesis
    using True kvs vs by (auto simp: clauseSelection_def sel_ok_def submitted_values_def)
next
  case False
  then show ?thesis
    by (cases "eo_args opts") (auto simp: clauseSelection_def sel_ok_def submitted_values_def)
qed

lemma projectSelected_cases:
  assumes "projectSelected sel f = (r, b)"
  shows "own_string (cs_args sel) f = None \<and> r = None \<and> b = cs_budget sel \<or>
    (\<exists>s. own_string (cs_args sel) f = Some s \<and>
       (let b' = (cs_budget sel)\<lparr>bytes := bytes (cs_budget sel) + byte_length s\<rparr> in
        if bytes b' \<le> maxSelectedContentBytes PERMISSION_LIMITS
        then b = b' \<and> r = Some (projected (cs_project sel) \<lparr>sv_field = f, sv_value = s\<rparr>)
        else b = b'\<lparr>exceeded := True\<rparr> \<and> r = None))"
proof (cases "own_string (cs_args sel) f")
  case None
  then show ?thesis
    using assms
    by (cases "cs_args sel")
      (auto simp: projectSelected_def selectFieldValue_def own_string_def has_own_def get_prop_def
        split: option.splits jsval.splits)
next
  case (Some s)
  then obtain kvs where "cs_args sel = JObj kvs" "map_of kvs f = Some (JStr s)"
    by (auto simp: own_string_def split: option.splits jsval.splits)
  then show ?thesis
    using assms Some
    by (simp add: projectSelected_def selectFieldValue_def has_own_def get_prop_def chargeString_def Let_def
        split: if_splits)
qed

lemma fill_cache_ok:
  assumes ok: "sel_ok opts usesAll sel" and wf: "wf_val (eo_args opts)"
  shows "sel_ok opts usesAll (fill_cache sel f)" (is ?ok)
    and "exceeded (cs_budget sel) \<Longrightarrow> exceeded (cs_budget (fill_cache sel f))" (is "_ \<Longrightarrow> ?ex")
    and "map_of (cs_fieldCache (fill_cache sel f)) f \<noteq> None" (is ?cached)
proof -
  let ?find = "find (\<lambda>sv. sv_field sv = f)"
  obtain rest where rest: "map (projected (project_of opts)) (if usesAll then submitted_values (eo_args opts) else []) =
      cs_allFieldsValues sel @ rest" "\<not> exceeded (cs_budget sel) \<longrightarrow> rest = []"
    using ok unfolding sel_ok_def by blast
  have full: "spec_field_value usesAll opts f = Some sv" if "?find (cs_allFieldsValues sel) = Some sv" for sv
  proof -
    have "?find (map (projected (project_of opts)) (if usesAll then submitted_values (eo_args opts) else [])) = Some sv"
      using that rest(1) by (simp add: find_prefix)
    then show ?thesis by (simp add: spec_field_value_def find_projected split: if_splits)
  qed
  have own: "spec_field_value usesAll opts f = Some (projected (project_of opts) \<lparr>sv_field = f, sv_value = s\<rparr>)"
    if "own_string (eo_args opts) f = Some s" for s
    using that wf find_own_string [of _ f s]
    by (auto simp: spec_field_value_def own_string_def submitted_values_def split: jsval.splits option.splits)
  have none: "spec_field_value usesAll opts f = None"
    if "?find (cs_allFieldsValues sel) = None" "own_string (eo_args opts) f = None" "\<not> exceeded (cs_budget sel)"
  proof (cases usesAll)
    case True
    then have "cs_allFieldsValues sel = map (projected (project_of opts)) (submitted_values (eo_args opts))"
      using rest that(3) by simp
    then show ?thesis using that(1) True by (simp add: spec_field_value_def find_projected)
  qed (simp add: spec_field_value_def that(2))
  obtain r b where rb: "projectSelected sel f = (r, b)" by fastforce
  have args: "cs_args sel = eo_args opts" "cs_project sel = project_of opts" using ok by (simp_all add: sel_ok_def)
  have r: "(r = spec_field_value usesAll opts f \<or> r = None \<and> exceeded b) \<and> (exceeded (cs_budget sel) \<longrightarrow> exceeded b)"
    if "?find (cs_allFieldsValues sel) = None"
    using projectSelected_cases [OF rb] own none [OF that] args by (auto simp: Let_def split: if_splits)
  have cache: "v = spec_field_value usesAll opts g \<or> v = None \<and> exceeded (cs_budget sel)"
    if "map_of (cs_fieldCache sel) g = Some v" for g v
    using ok that unfolding sel_ok_def by blast
  consider (hit) v where "fill_cache sel f = sel" "map_of (cs_fieldCache sel) f = Some v"
    | (all) sv where "fill_cache sel f = sel\<lparr>cs_fieldCache := map_set (cs_fieldCache sel) f (Some sv)\<rparr>"
        "?find (cs_allFieldsValues sel) = Some sv"
    | (own) "fill_cache sel f = sel\<lparr>cs_fieldCache := map_set (cs_fieldCache sel) f r, cs_budget := b\<rparr>"
        "?find (cs_allFieldsValues sel) = None"
    using rb unfolding fill_cache_def
    by (cases "map_of (cs_fieldCache sel) f"; cases "?find (cs_allFieldsValues sel)") simp_all
  then have "?ok \<and> ?cached \<and> (exceeded (cs_budget sel) \<longrightarrow> ?ex)"
  proof cases
    case hit
    then show ?thesis using ok by simp
  next
    case all
    have "v = spec_field_value usesAll opts g \<or> v = None \<and> exceeded (cs_budget sel)"
      if "map_of (map_set (cs_fieldCache sel) f (Some sv)) g = Some v" for g v
      using that cache [of g v] full [OF all(2)] by (auto split: if_splits)
    then show ?thesis using all(1) ok unfolding sel_ok_def by simp
  next
    case own
    have "v = spec_field_value usesAll opts g \<or> v = None \<and> exceeded b"
      if "map_of (map_set (cs_fieldCache sel) f r) g = Some v" for g v
      using that cache [of g v] r [OF own(2)] by (auto split: if_splits)
    then show ?thesis
      using own(1) args rest r [OF own(2)] ok unfolding sel_ok_def by auto
  qed
  then show ?ok ?cached "exceeded (cs_budget sel) \<Longrightarrow> ?ex" by blast+
qed

lemma clause_matches_ok:
  assumes ok: "sel_ok opts usesAll sel" and wf: "wf_val (eo_args opts)"
    and all: "cc_target c = AllFieldsTarget \<longrightarrow> usesAll" and m: "clause_matches sel c = (r, sel')"
  shows "sel_ok opts usesAll sel'" "exceeded (cs_budget sel) \<Longrightarrow> exceeded (cs_budget sel')"
    and "r \<Longrightarrow> clause_holds usesAll opts c" "\<not> r \<Longrightarrow> \<not> exceeded (cs_budget sel') \<Longrightarrow> \<not> clause_holds usesAll opts c"
proof -
  note fill = fill_cache_ok [OF ok wf]
  have field: "sel' = fill_cache sel f" if "cc_target c = FieldTarget f" for f
    using m that by (simp add: clause_matches_def fieldValues_def Let_def)
  have whole: "sel' = sel" if "cc_target c = AllFieldsTarget"
    using m that by (simp add: clause_matches_def)
  show "sel_ok opts usesAll sel'"
  proof (cases "cc_target c")
    case (FieldTarget f)
    then show ?thesis using fill(1) [of f] field by simp
  qed (simp add: whole ok)
  show "exceeded (cs_budget sel')" if "exceeded (cs_budget sel)"
  proof (cases "cc_target c")
    case (FieldTarget f)
    then show ?thesis using fill(2) [OF that, of f] field by simp
  qed (simp add: whole that)
  show "r \<Longrightarrow> clause_holds usesAll opts c" "\<not> r \<Longrightarrow> \<not> exceeded (cs_budget sel') \<Longrightarrow> \<not> clause_holds usesAll opts c"
  proof -
    have "(r \<longrightarrow> clause_holds usesAll opts c) \<and> (\<not> r \<longrightarrow> \<not> exceeded (cs_budget sel') \<longrightarrow> \<not> clause_holds usesAll opts c)"
    proof (cases "cc_target c")
      case (FieldTarget f)
      let ?sel = "fill_cache sel f"
      obtain v where v: "map_of (cs_fieldCache ?sel) f = Some v" using fill(3) [of f] by blast
      have spec: "v = spec_field_value usesAll opts f \<or> v = None \<and> exceeded (cs_budget ?sel)"
        using fill(1) [of f] v unfolding sel_ok_def by blast
      have "r \<longleftrightarrow> (case v of None \<Rightarrow> False | Some sv \<Rightarrow> match_value (flexible_of opts) c sv)"
        using m FieldTarget v ok
        by (auto simp: clause_matches_def fieldValues_def Let_def sel_ok_def split: option.splits)
      then show ?thesis
        using spec field [OF FieldTarget] FieldTarget by (auto simp: clause_holds_def split: option.splits)
    next
      case AllFieldsTarget
      obtain rest where "map (projected (project_of opts)) (submitted_values (eo_args opts)) = cs_allFieldsValues sel @ rest"
        "\<not> exceeded (cs_budget sel) \<longrightarrow> rest = []"
        using ok all AllFieldsTarget unfolding sel_ok_def by auto
      then have sub: "set (cs_allFieldsValues sel) \<subseteq> projected (project_of opts) ` set (submitted_values (eo_args opts))"
        "\<not> exceeded (cs_budget sel) \<Longrightarrow>
           set (cs_allFieldsValues sel) = projected (project_of opts) ` set (submitted_values (eo_args opts))"
        by (metis Un_upper1 list.set_map set_append, metis append_Nil2 list.set_map)
      have "r \<longleftrightarrow> (\<exists>sv\<in>set (cs_allFieldsValues sel). match_value (flexible_of opts) c sv)" "sel' = sel"
        using m AllFieldsTarget ok by (auto simp: clause_matches_def sel_ok_def)
      then show ?thesis using sub AllFieldsTarget by (auto simp: clause_holds_def)
    qed
    then show "r \<Longrightarrow> clause_holds usesAll opts c"
      "\<not> r \<Longrightarrow> \<not> exceeded (cs_budget sel') \<Longrightarrow> \<not> clause_holds usesAll opts c" by blast+
  qed
qed

lemma firstMatch_ok:
  assumes "sel_ok opts usesAll sel" "wf_val (eo_args opts)" "\<forall>c\<in>set cs. cc_target c = AllFieldsTarget \<longrightarrow> usesAll"
    and "firstMatch sel cs = (r, sel')"
  shows "sel_ok opts usesAll sel' \<and> (exceeded (cs_budget sel) \<longrightarrow> exceeded (cs_budget sel')) \<and>
    (\<forall>c. r = Some c \<longrightarrow> c \<in> set cs \<and> clause_holds usesAll opts c) \<and>
    (\<not> exceeded (cs_budget sel') \<longrightarrow> r = find (clause_holds usesAll opts) cs)"
  using assms
proof (induction cs arbitrary: sel)
  case (Cons c cs)
  obtain b sel1 where m: "clause_matches sel c = (b, sel1)" by fastforce
  have "cc_target c = AllFieldsTarget \<longrightarrow> usesAll" using Cons.prems(3) by simp
  note c = clause_matches_ok [OF Cons.prems(1,2) this m]
  show ?case
  proof (cases b)
    case True
    then have "r = Some c" "sel' = sel1" using Cons.prems(4) m by simp_all
    then show ?thesis using c(1,2) c(3) [OF True] by auto
  next
    case False
    then have rest: "firstMatch sel1 cs = (r, sel')" using Cons.prems(4) m by simp
    note ih = Cons.IH [OF c(1) Cons.prems(2) _ rest]
    have "\<forall>c\<in>set cs. cc_target c = AllFieldsTarget \<longrightarrow> usesAll" using Cons.prems(3) by simp
    note ih = ih [OF this]
    then show ?thesis using c(2) c(4) [OF False] by auto
  qed
qed simp

section \<open>Within the bounds nothing is refused for its size\<close>

definition own_bytes :: "(jstr \<times> jsval) list \<Rightarrow> jstr \<Rightarrow> nat" where
  "own_bytes kvs f = (case map_of kvs f of Some (JStr s) \<Rightarrow> byte_length s | _ \<Rightarrow> 0)"

lemma own_bytes_sum: "finite F \<Longrightarrow> (\<Sum>f\<in>F. own_bytes kvs f) \<le> args_bytes kvs"
proof (induction kvs)
  case (Cons kv kvs)
  obtain k v where kv: "kv = (k, v)" by fastforce
  have "own_bytes (kv # kvs) f \<le> (if f = k then string_bytes v else 0) + own_bytes kvs f" for f
    by (cases v) (auto simp: own_bytes_def kv string_bytes_def)
  then have "(\<Sum>f\<in>F. own_bytes (kv # kvs) f) \<le> (\<Sum>f\<in>F. (if f = k then string_bytes v else 0) + own_bytes kvs f)"
    by (rule sum_mono)
  also have "\<dots> \<le> string_bytes v + (\<Sum>f\<in>F. own_bytes kvs f)"
    using Cons.prems by (simp add: sum.distrib)
  finally show ?case using Cons kv by (simp add: args_bytes_def)
qed (simp add: own_bytes_def args_bytes_def)

definition args_fit :: "jsval \<Rightarrow> bool" where
  "args_fit args \<longleftrightarrow> (case args of JObj kvs \<Rightarrow> fits kvs | _ \<Rightarrow> True)"

definition sel_fits :: "evaluate_options \<Rightarrow> bool \<Rightarrow> clause_selection \<Rightarrow> bool" where
  "sel_fits opts usesAll sel \<longleftrightarrow> \<not> exceeded (cs_budget sel) \<and>
     (\<forall>kvs. \<not> usesAll \<and> eo_args opts = JObj kvs \<longrightarrow>
        bytes (cs_budget sel) = (\<Sum>f\<in>fst ` set (cs_fieldCache sel). own_bytes kvs f))"

lemma clauseSelection_fits:
  assumes "args_fit (eo_args opts)"
  shows "sel_fits opts (uses_all_fields clauses) (clauseSelection opts clauses)"
proof (cases "is_record (eo_args opts) \<and> uses_all_fields clauses")
  case True
  then obtain kvs where kvs: "eo_args opts = JObj kvs" by (cases "eo_args opts") auto
  obtain vs b where vs: "collectAllStringValues (JObj kvs) createSelectionBudget = (vs, b)" by fastforce
  then have "\<not> exceeded b" using collectAll_exact [OF vs] assms kvs by (simp add: args_fit_def)
  then show ?thesis using True kvs vs by (simp add: sel_fits_def clauseSelection_def)
next
  case False
  then show ?thesis
    by (auto simp: sel_fits_def clauseSelection_def createSelectionBudget_def)
qed

lemma fill_cache_fits:
  assumes ok: "sel_ok opts usesAll sel" and fit: "sel_fits opts usesAll sel" and wf: "wf_val (eo_args opts)"
    and args: "args_fit (eo_args opts)"
  shows "sel_fits opts usesAll (fill_cache sel f)"
proof (cases "map_of (cs_fieldCache sel) f = None \<and> find (\<lambda>sv. sv_field sv = f) (cs_allFieldsValues sel) = None")
  case False
  have "\<not> usesAll \<Longrightarrow> cs_allFieldsValues sel = []" using ok by (simp add: sel_ok_def)
  then show ?thesis using False fit by (auto simp: fill_cache_def sel_fits_def split: option.splits)
next
  case True
  obtain r b where rb: "projectSelected sel f = (r, b)" by fastforce
  have fill: "fill_cache sel f = sel\<lparr>cs_fieldCache := map_set (cs_fieldCache sel) f r, cs_budget := b\<rparr>"
    using True rb by (simp add: fill_cache_def)
  have new: "f \<notin> fst ` set (cs_fieldCache sel)" using True by (simp add: map_of_eq_None_iff)
  have args_eq: "cs_args sel = eo_args opts" using ok by (simp add: sel_ok_def)
  show ?thesis
  proof (cases "own_string (eo_args opts) f")
    case None
    then have "b = cs_budget sel" using projectSelected_cases [OF rb] args_eq by auto
    moreover have "own_bytes kvs f = 0" if "eo_args opts = JObj kvs" for kvs
      using None that by (auto simp: own_string_def own_bytes_def split: option.splits jsval.splits)
    ultimately show ?thesis using fit fill new by (simp add: sel_fits_def)
  next
    case (Some s)
    then obtain kvs where kvs: "eo_args opts = JObj kvs" "map_of kvs f = Some (JStr s)"
      by (auto simp: own_string_def split: option.splits jsval.splits)
    have not: "\<not> usesAll"
    proof
      assume usesAll
      then have "cs_allFieldsValues sel = map (projected (project_of opts)) (args_values kvs)"
        using ok fit kvs by (simp add: sel_ok_def sel_fits_def submitted_values_def)
      then show False using True find_own_string [of kvs f s] wf kvs by (simp add: find_projected)
    qed
    have ob: "own_bytes kvs f = byte_length s" using kvs by (simp add: own_bytes_def)
    have "bytes (cs_budget sel) + byte_length s = (\<Sum>g\<in>insert f (fst ` set (cs_fieldCache sel)). own_bytes kvs g)"
      using fit not kvs new ob by (simp add: sel_fits_def)
    also have "\<dots> \<le> args_bytes kvs" by (rule own_bytes_sum) simp
    also have "\<dots> \<le> maxSelectedContentBytes PERMISSION_LIMITS" using args kvs by (simp add: args_fit_def fits_def)
    finally have "b = (cs_budget sel)\<lparr>bytes := bytes (cs_budget sel) + byte_length s\<rparr>"
      using projectSelected_cases [OF rb] Some args_eq by (auto simp: Let_def)
    then show ?thesis using fit fill new ob kvs by (auto simp: sel_fits_def)
  qed
qed

lemma firstMatch_fits:
  assumes "sel_ok opts usesAll sel" "sel_fits opts usesAll sel" "wf_val (eo_args opts)" "args_fit (eo_args opts)"
    and "\<forall>c\<in>set cs. cc_target c = AllFieldsTarget \<longrightarrow> usesAll" "firstMatch sel cs = (r, sel')"
  shows "sel_fits opts usesAll sel'"
  using assms
proof (induction cs arbitrary: sel)
  case (Cons c cs)
  obtain b sel1 where m: "clause_matches sel c = (b, sel1)" by fastforce
  have "cc_target c = AllFieldsTarget \<longrightarrow> usesAll" using Cons.prems(5) by simp
  note ok1 = clause_matches_ok(1) [OF Cons.prems(1,3) this m]
  have "sel_fits opts usesAll sel1"
  proof (cases "cc_target c")
    case (FieldTarget f)
    then have "sel1 = fill_cache sel f" using m by (simp add: clause_matches_def fieldValues_def Let_def)
    then show ?thesis using fill_cache_fits [OF Cons.prems(1-4)] by simp
  next
    case AllFieldsTarget
    then show ?thesis using m Cons.prems(2) by (simp add: clause_matches_def)
  qed
  then show ?case
    using Cons.IH [OF ok1 _ Cons.prems(3,4)] Cons.prems(5,6) m by (auto split: bool.splits)
qed simp

section \<open>The evaluator agrees with the reference\<close>

definition spec_evaluate :: "compiled_policy \<Rightarrow> evaluate_options \<Rightarrow> permission_decision" where
  "spec_evaluate policy opts =
     (case map_of (policy_groups policy) (eo_toolId opts) of
        None \<Rightarrow> Reject (policy_id policy) NoAllow None
      | Some g \<Rightarrow>
          if rejectWholeTool g
          then Reject (policy_id policy) ExplicitReject (Some (wholeToolReference (eo_toolId opts) RejectList))
          else (case invalidFieldReference (rejectClauses g @ allowClauses g) (eo_validFields opts) of
                  Some r \<Rightarrow> Reject (policy_id policy) InvalidField (Some r)
                | None \<Rightarrow> spec_decide (policy_id policy) (eo_toolId opts) g opts (rejectClauses g @ allowClauses g)))"

fun verdict :: "permission_decision \<Rightarrow> allow_reason + rejection_reason" where
  "verdict (Allow _ why _) = Inl why"
| "verdict (Reject _ why _) = Inr why"

lemma decideGroup_agrees:
  assumes wf: "wf_val (eo_args opts)" and cl: "clauses = rejectClauses g @ allowClauses g"
  shows "(decideGroup pid toolId g opts clauses = Reject pid InputLimit None \<or>
      verdict (decideGroup pid toolId g opts clauses) = verdict (spec_decide pid toolId g opts clauses)) \<and>
    (args_fit (eo_args opts) \<longrightarrow> decideGroup pid toolId g opts clauses = spec_decide pid toolId g opts clauses)"
proof -
  let ?u = "uses_all_fields clauses"
  let ?h = "clause_holds ?u opts"
  let ?sel = "clauseSelection opts clauses"
  obtain r sel1 where m1: "firstMatch ?sel (rejectClauses g) = (r, sel1)" by fastforce
  have t: "\<forall>c\<in>set (rejectClauses g). cc_target c = AllFieldsTarget \<longrightarrow> ?u"
    "\<forall>c\<in>set (allowClauses g). cc_target c = AllFieldsTarget \<longrightarrow> ?u"
    using cl by (auto simp: uses_all_fields_def)
  note f1 = firstMatch_ok [OF clauseSelection_ok wf t(1) m1]
  obtain a sel2 where m2: "firstMatch sel1 (allowClauses g) = (a, sel2)" by fastforce
  note f2 = firstMatch_ok [OF _ wf t(2) m2]
  have some: "find ?h cs \<noteq> None" if "c \<in> set cs" "?h c" for c cs using that by (auto simp: find_None_iff)
  have fits: "\<not> exceeded (cs_budget sel1)" "\<not> exceeded (cs_budget sel2)" if fit: "args_fit (eo_args opts)"
  proof -
    have s1: "sel_fits opts ?u sel1"
      using firstMatch_fits [OF clauseSelection_ok clauseSelection_fits [OF fit] wf fit t(1) m1] .
    have "sel_ok opts ?u sel1" using f1 by blast
    then have "sel_fits opts ?u sel2" using firstMatch_fits [OF _ s1 wf fit t(2) m2] by blast
    then show "\<not> exceeded (cs_budget sel1)" "\<not> exceeded (cs_budget sel2)" using s1 by (simp_all add: sel_fits_def)
  qed
  show ?thesis
  proof (cases r)
    case (Some c)
    then have "find ?h (rejectClauses g) \<noteq> None" using f1 some by blast
    then show ?thesis
      using m1 Some f1 fits by (auto simp: decideGroup_def reject_def spec_decide_def Let_def)
  next
    case None
    show ?thesis
    proof (cases "exceeded (cs_budget sel1)")
      case True
      then show ?thesis using m1 None fits by (auto simp: decideGroup_def reject_def)
    next
      case False
      then have noRej: "find ?h (rejectClauses g) = None" using f1 None by simp
      have f2': "(\<forall>c. a = Some c \<longrightarrow> c \<in> set (allowClauses g) \<and> ?h c) \<and>
          (\<not> exceeded (cs_budget sel2) \<longrightarrow> a = find ?h (allowClauses g))" using f1 f2 by blast
      show ?thesis
      proof (cases a)
        case (Some c)
        then have "find ?h (allowClauses g) \<noteq> None" using f2' some by blast
        then show ?thesis
          using m1 m2 None Some False noRej f2' fits
          by (auto simp: decideGroup_def allow_def spec_decide_def Let_def)
      next
        case no: None
        then show ?thesis
          using m1 m2 None False noRej f2' fits
          by (auto simp: decideGroup_def allow_def reject_def spec_decide_def Let_def)
      qed
    qed
  qed
qed

lemma evaluate_agrees:
  assumes "wf_val (eo_args opts)"
  shows "(evaluatePermission policy opts = Reject (policy_id policy) InputLimit None \<or>
      verdict (evaluatePermission policy opts) = verdict (spec_evaluate policy opts)) \<and>
    (args_fit (eo_args opts) \<longrightarrow> evaluatePermission policy opts = spec_evaluate policy opts)"
proof (cases "map_of (policy_groups policy) (eo_toolId opts)")
  case None
  then show ?thesis by (simp add: evaluatePermission_def spec_evaluate_def reject_def)
next
  case (Some g)
  let ?cs = "rejectClauses g @ allowClauses g"
  consider (whole) "rejectWholeTool g" | (empty) "\<not> rejectWholeTool g" "?cs = []"
    | (invalid) r where "\<not> rejectWholeTool g" "?cs \<noteq> []" "invalidFieldReference ?cs (eo_validFields opts) = Some r"
    | (decide) "\<not> rejectWholeTool g" "?cs \<noteq> []" "invalidFieldReference ?cs (eo_validFields opts) = None"
    by fastforce
  then show ?thesis
  proof cases
    case whole
    then show ?thesis using Some by (simp add: evaluatePermission_def evaluateGroup_def spec_evaluate_def reject_def)
  next
    case empty
    then show ?thesis using Some
      by (auto simp: evaluatePermission_def evaluateGroup_def spec_evaluate_def reject_def allow_def
          invalidFieldReference_def spec_decide_def Let_def split: option.splits)
  next
    case invalid
    then show ?thesis using Some
      by (auto simp: evaluatePermission_def evaluateGroup_def spec_evaluate_def reject_def)
  next
    case decide
    then have "evaluatePermission policy opts = decideGroup (policy_id policy) (eo_toolId opts) g opts ?cs"
      "spec_evaluate policy opts = spec_decide (policy_id policy) (eo_toolId opts) g opts ?cs"
      using Some by (auto simp: evaluatePermission_def evaluateGroup_def spec_evaluate_def Let_def)
    then show ?thesis using decideGroup_agrees [OF assms refl, of "policy_id policy" "eo_toolId opts" g] by simp
  qed
qed

text \<open>What the reference's verdict says of the clauses.\<close>

lemma find_verdict: "(find P xs = None) \<longleftrightarrow> \<not> (\<exists>x\<in>set xs. P x)"
  by (auto simp: find_None_iff)

lemma spec_decide_verdict:
  "verdict (spec_decide pid toolId g opts cs) =
    (if \<exists>c\<in>set (rejectClauses g). clause_holds (uses_all_fields cs) opts c then Inr ExplicitReject
     else if allowWholeTool g \<or> (\<exists>c\<in>set (allowClauses g). clause_holds (uses_all_fields cs) opts c)
     then Inl MatchedAllow else Inr NoAllow)"
  using find_verdict [of "clause_holds (uses_all_fields cs) opts" "rejectClauses g"]
    find_verdict [of "clause_holds (uses_all_fields cs) opts" "allowClauses g"]
  by (cases "find (clause_holds (uses_all_fields cs) opts) (rejectClauses g)";
      cases "find (clause_holds (uses_all_fields cs) opts) (allowClauses g)") (auto simp: spec_decide_def)

lemma spec_evaluate_verdict:
  "verdict (spec_evaluate policy opts) =
    (case map_of (policy_groups policy) (eo_toolId opts) of
       None \<Rightarrow> Inr NoAllow
     | Some g \<Rightarrow>
         (let cs = rejectClauses g @ allowClauses g in
          if rejectWholeTool g then Inr ExplicitReject
          else if invalidFieldReference cs (eo_validFields opts) \<noteq> None then Inr InvalidField
          else verdict (spec_decide (policy_id policy) (eo_toolId opts) g opts cs)))"
  by (auto simp: spec_evaluate_def Let_def split: option.splits)

text \<open>The group's reject clauses that hold on a call.\<close>

definition vetoed :: "compiled_policy \<Rightarrow> evaluate_options \<Rightarrow> bool" where
  "vetoed policy opts \<longleftrightarrow>
     (\<exists>g. map_of (policy_groups policy) (eo_toolId opts) = Some g \<and>
        (rejectWholeTool g \<or>
         (\<exists>c\<in>set (rejectClauses g). clause_holds (uses_all_fields (rejectClauses g @ allowClauses g)) opts c)))"

lemma not_vetoed:
  assumes "wf_val (eo_args opts)" "verdict (evaluatePermission policy opts) \<in> {Inl MatchedAllow, Inr NoAllow}"
  shows "\<not> vetoed policy opts"
proof
  assume v: "vetoed policy opts"
  have "verdict (spec_evaluate policy opts) \<in> {Inr ExplicitReject, Inr InvalidField}"
    using v by (auto simp: vetoed_def spec_evaluate_verdict spec_decide_verdict Let_def split: if_splits)
  then show False using evaluate_agrees [OF assms(1), of policy] assms(2) by auto
qed

lemma evaluate_never_mode:
  "verdict (evaluatePermission policy opts) \<noteq> Inl PermissionModeBypass"
  by (auto simp: evaluatePermission_def evaluateGroup_def decideGroup_def allow_def reject_def Let_def
      split: option.splits prod.splits if_splits)

section \<open>Properties\<close>

text \<open>The policies of the concrete instances: literal clauses that search for a text.\<close>

definition lit_clause :: "permission_list \<Rightarrow> nat \<Rightarrow> clause_target \<Rightarrow> jstr \<Rightarrow> compiled_permission_clause" where
  "lit_clause l i target t =
     \<lparr>cc_groupId = js ''bash'', cc_list = l, cc_clauseIndex = i, cc_target = target,
      cc_matcher = \<lparr>vm_kind = LiteralKind, matchesExact = (\<lambda>v. str_includes v t),
                    matchesFlexibleWhitespace = (\<lambda>v. str_includes v t)\<rparr>\<rparr>"

definition one_group :: "compiled_permission_clause list \<Rightarrow> compiled_permission_clause list \<Rightarrow> compiled_policy" where
  "one_group rejects allows =
     \<lparr>policy_id = js ''p'', policy_groups =
        [(js ''bash'', \<lparr>allowWholeTool = False, rejectWholeTool = False, allowClauses = allows, rejectClauses = rejects\<rparr>)]\<rparr>"

definition call :: "(jstr \<times> jsval) list \<Rightarrow> evaluate_options" where
  "call args = \<lparr>eo_toolId = js ''bash'', eo_args = JObj args, eo_isFlexibleWhitespaceField = None,
     eo_projectFieldValue = None, eo_validFields = None\<rparr>"

definition sample_policy :: compiled_policy where
  "sample_policy =
     one_group [lit_clause RejectList 0 AllFieldsTarget (js ''rm'')]
       [lit_clause AllowList 0 (FieldTarget (js ''command'')) (js ''ls'')]"


lemmas evaluate_eval = evaluatePermission_def evaluateGroup_def decideGroup_def one_group_def call_def lit_clause_def
  clauseSelection_def uses_all_fields_def collectAllStringValues_def createSelectionBudget_def visit.simps
  count_visit_def collect_string_def chargeString_def PERMISSION_LIMITS_def clause_matches_def fieldValues_def
  fill_cache_def projectSelected_def selectFieldValue_def has_own_def get_prop_def match_value_def projected_def
  project_of_def flexible_of_def invalidFieldReference_def allow_def reject_def clauseReference_def Let_def

lemma str_includes_code: "str_includes s p \<longleftrightarrow> list_ex (occurs_at s p) [0..<Suc (length s)]"
  by (auto simp: str_includes_def list_ex_iff)

lemma sample_allows:
  "evaluatePermission sample_policy (call [(js ''command'', JStr (js ''ls''))]) =
     Allow (js ''p'') MatchedAllow (Some \<lparr>ref_groupId = js ''bash'', ref_list = AllowList, ref_clauseIndex = Some 0\<rparr>)"
proof -
  have "\<not> str_includes (js ''ls'') (js ''rm'')" "str_includes (js ''ls'') (js ''ls'')" "byte_length (js ''ls'') = 2"
    by code_simp+
  then show ?thesis by (simp add: sample_policy_def evaluate_eval)
qed




text \<open>C38: Clause order never changes the outcome of a call that is within the bounds: two
  policies whose group for the tool has the same clauses in any order give the same verdict.\<close>

theorem clause_order_irrelevant:
  assumes "wf_val (eo_args opts)" "args_fit (eo_args opts)"
    and "map_of (policy_groups p) (eo_toolId opts) = Some g" "map_of (policy_groups q) (eo_toolId opts) = Some g'"
    and "set (rejectClauses g) = set (rejectClauses g')" "set (allowClauses g) = set (allowClauses g')"
    and "rejectWholeTool g = rejectWholeTool g'" "allowWholeTool g = allowWholeTool g'"
  shows "verdict (evaluatePermission p opts) = verdict (evaluatePermission q opts)"
proof -
  have "uses_all_fields (rejectClauses g @ allowClauses g) = uses_all_fields (rejectClauses g' @ allowClauses g')"
    using assms(5,6) by (simp add: uses_all_fields_def)
  moreover have "(invalidFieldReference (rejectClauses g @ allowClauses g) v = None) =
      (invalidFieldReference (rejectClauses g' @ allowClauses g') v = None)" for v
    using assms(5,6) by (auto simp: invalidFieldReference_def find_None_iff split: option.splits)
  ultimately show ?thesis
    using assms evaluate_agrees [OF assms(1)] by (simp add: spec_evaluate_verdict spec_decide_verdict Let_def)
qed

theorem clause_order_irrelevant_witness:
  "verdict (evaluatePermission (one_group [] [lit_clause AllowList 0 (FieldTarget (js ''a'')) (js ''x''),
       lit_clause AllowList 1 (FieldTarget (js ''b'')) (js ''y'')]) (call [(js ''b'', JStr (js ''y''))])) =
   verdict (evaluatePermission (one_group [] [lit_clause AllowList 1 (FieldTarget (js ''b'')) (js ''y''),
       lit_clause AllowList 0 (FieldTarget (js ''a'')) (js ''x'')]) (call [(js ''b'', JStr (js ''y''))]))"
proof -
  let ?g = "\<lambda>allows. \<lparr>allowWholeTool = False, rejectWholeTool = False, allowClauses = allows, rejectClauses = []\<rparr>"
  let ?a = "lit_clause AllowList 0 (FieldTarget (js ''a'')) (js ''x'')"
  let ?b = "lit_clause AllowList 1 (FieldTarget (js ''b'')) (js ''y'')"
  have "byte_length (js ''y'') = 1" by code_simp
  then have "wf_val (eo_args (call [(js ''b'', JStr (js ''y''))]))" "args_fit (eo_args (call [(js ''b'', JStr (js ''y''))]))"
    by (simp_all add: call_def args_fit_def fits_def args_bytes_def string_bytes_def PERMISSION_LIMITS_def)
  from clause_order_irrelevant [OF this, of "one_group [] [?a, ?b]" "?g [?a, ?b]" "one_group [] [?b, ?a]" "?g [?b, ?a]"]
  show ?thesis by (simp add: one_group_def call_def insert_commute)
qed

definition oversize :: jstr where
  "oversize = replicate 1048577 120"

text \<open>Outside the bounds clause order does change the outcome. One policy with an allow
  clause on \<^verbatim>\<open>b\<close> and one on \<^verbatim>\<open>a\<close> allows a call whose field \<^verbatim>\<open>a\<close> is larger than 1 MiB; the policy with
  the same two clauses in the other order refuses it with \<^verbatim>\<open>input_limit\<close>.\<close>

lemma clause_order_matters_over_budget:
  "verdict (evaluatePermission (one_group [] [lit_clause AllowList 0 (FieldTarget (js ''b'')) (js ''y''),
       lit_clause AllowList 1 (FieldTarget (js ''a'')) (js ''z'')])
     (call [(js ''a'', JStr oversize), (js ''b'', JStr (js ''y''))])) = Inl MatchedAllow \<and>
   verdict (evaluatePermission (one_group [] [lit_clause AllowList 0 (FieldTarget (js ''a'')) (js ''z''),
       lit_clause AllowList 1 (FieldTarget (js ''b'')) (js ''y'')])
     (call [(js ''a'', JStr oversize), (js ''b'', JStr (js ''y''))])) = Inr InputLimit"
proof -
  have "str_includes (js ''y'') (js ''y'')" "byte_length (js ''y'') = 1" by code_simp+
  moreover have "byte_length oversize = 1048577" unfolding oversize_def by (rule byte_length_replicate) simp
  ultimately show ?thesis by (simp add: evaluate_eval)
qed

text \<open>A field clause can match a value that is not a string. Once the group has any
  all-fields clause, an allow clause on field \<^verbatim>\<open>a\<close> grants a call whose \<^verbatim>\<open>a\<close> is an array that holds
  the text; without that clause the same call is refused with \<^verbatim>\<open>no_allow\<close>.\<close>

lemma field_clause_matches_nested:
  "own_string (eo_args (call [(js ''a'', JArr [JStr (js ''y'')])])) (js ''a'') = None \<and>
   verdict (evaluatePermission (one_group [lit_clause RejectList 0 AllFieldsTarget (js ''z'')]
       [lit_clause AllowList 0 (FieldTarget (js ''a'')) (js ''y'')])
     (call [(js ''a'', JArr [JStr (js ''y'')])])) = Inl MatchedAllow \<and>
   verdict (evaluatePermission (one_group [] [lit_clause AllowList 0 (FieldTarget (js ''a'')) (js ''y'')])
     (call [(js ''a'', JArr [JStr (js ''y'')])])) = Inr NoAllow"
proof -
  have "str_includes (js ''y'') (js ''y'')" "\<not> str_includes (js ''y'') (js ''z'')" "byte_length (js ''y'') = 1"
    by code_simp+
  then show ?thesis by (simp add: evaluate_eval own_string_def descend.simps)
qed

text \<open>The traversal sees every string. For arguments within the bounds it collects every
  string nested anywhere in them, each once, under its top-level field and in document order,
  and charges exactly their bytes; beyond the bounds it always reports that the budget was
  exceeded, never a silently shortened list.\<close>

lemma collector_complete:
  assumes "collectAllStringValues (JObj kvs) createSelectionBudget = (vs, b)"
  shows "(exceeded b \<longleftrightarrow> \<not> fits kvs) \<and> (\<exists>rest. args_values kvs = vs @ rest) \<and>
    (fits kvs \<longrightarrow> vs = args_values kvs \<and> bytes b = args_bytes kvs)"
  using assms by (rule collectAll_exact)

theorem collector_complete_witness:
  "\<exists>vs b. collectAllStringValues (JObj [(js ''a'', JArr [JNull, JObj [(js ''k'', JStr (js ''y''))]])]) createSelectionBudget =
     (vs, b) \<and> vs = [\<lparr>sv_field = js ''a'', sv_value = js ''y''\<rparr>] \<and> \<not> exceeded b"
proof -
  let ?kvs = "[(js ''a'', JArr [JNull, JObj [(js ''k'', JStr (js ''y''))]])]"
  have y: "byte_length (js ''y'') = 1" by code_simp
  obtain vs b where vs: "collectAllStringValues (JObj ?kvs) createSelectionBudget = (vs, b)" by fastforce
  have "fits ?kvs" "args_values ?kvs = [\<lparr>sv_field = js ''a'', sv_value = js ''y''\<rparr>]"
    using y by (simp_all add: fits_def args_bytes_def string_bytes_def PERMISSION_LIMITS_def args_values_def vals_of_def)
  then show ?thesis using collector_complete [OF vs] vs by auto
qed

text \<open>A call judged as written and as projected is allowed only when neither reading is
  vetoed: no reject clause of the group holds on the submitted text or on the projected text, so
  a spelling cannot be arranged to miss a reject clause, and the projected reading is allowed.\<close>

lemma submitted_then_projected_sound:
  assumes "wf_val (eo_args submitted)" "wf_val (eo_args projectedOpts)"
    and "evaluateSubmittedThenProjected (evaluatePermission policy) submitted projectedOpts = Allow pid why ref"
  shows "\<not> vetoed policy submitted \<and> \<not> vetoed policy projectedOpts \<and>
    evaluatePermission policy projectedOpts = Allow pid why ref"
proof -
  have proj: "evaluatePermission policy projectedOpts = Allow pid why ref"
    using assms(3) by (auto simp: evaluateSubmittedThenProjected_def split: permission_decision.splits if_splits)
  have only: "verdict (evaluatePermission policy o') \<in> {Inl MatchedAllow, Inr NoAllow}"
    if "evaluatePermission policy o' = Allow i w r \<or> evaluatePermission policy o' = Reject i NoAllow r" for o' i w r
    using that evaluate_never_mode [of policy o'] by (cases w) auto
  have "verdict (evaluatePermission policy submitted) \<in> {Inl MatchedAllow, Inr NoAllow}"
    using assms(3) only [of submitted]
    by (auto simp: evaluateSubmittedThenProjected_def split: permission_decision.splits if_splits)
  then show ?thesis
    using proj only [of projectedOpts] not_vetoed [OF assms(1), of policy] not_vetoed [OF assms(2), of policy] by blast
qed

theorem submitted_then_projected_sound_witness:
  "\<not> vetoed sample_policy (call [(js ''command'', JStr (js ''ls''))])"
  using submitted_then_projected_sound [of "call [(js ''command'', JStr (js ''ls''))]"
      "call [(js ''command'', JStr (js ''ls''))]" sample_policy] sample_allows
  by (simp add: evaluateSubmittedThenProjected_def call_def)

text \<open>What each permission mode does. \<^verbatim>\<open>bypass\<close> allows without evaluating; \<^verbatim>\<open>default\<close> and
  \<^verbatim>\<open>read-only\<close> answer what the policy answers; and a \<^verbatim>\<open>read-only\<close> call that passes the ceiling is
  of a tool classified \<^verbatim>\<open>read_only\<close>, or \<^verbatim>\<open>exit_workspace\<close>, or \<^verbatim>\<open>enter_workspace\<close> without a worktree:
  the mode never widens what the policy grants. A context without a policy never allows.\<close>

lemma permission_modes:
  assumes "ctx_permissionPolicy ctx = Some policy"
  shows "(context_mode ctx = ModeBypass \<longrightarrow>
       admitPermission ctx decide = Some (Allow (policy_id policy) PermissionModeBypass None)) \<and>
    (context_mode ctx \<noteq> ModeBypass \<longrightarrow> admitPermission ctx decide = Some (decide (evaluatePermission policy))) \<and>
    (evaluatesPermission ctx \<longleftrightarrow> context_mode ctx \<noteq> ModeBypass) \<and>
    (context_mode ctx = ModeReadOnly \<longrightarrow>
       (readOnlyCeiling ctx tool cls args = None \<longleftrightarrow>
          cls = ClassReadOnly \<or> tool = js ''exit_workspace'' \<or>
          tool = js ''enter_workspace'' \<and> get_prop args (js ''worktree'') = JUndef)) \<and>
    admitPermission (ctx\<lparr>ctx_permissionPolicy := None\<rparr>) decide = None"
  using assms
  by (cases "context_mode ctx") (auto simp: admitPermission_def evaluatesPermission_def readOnlyCeiling_def)

theorem permission_modes_witness:
  "readOnlyCeiling \<lparr>ctx_permissionMode = Some ModeReadOnly, ctx_permissionPolicy = Some sample_policy\<rparr>
     (js ''bash'') ExecuteCode [] \<noteq> None"
  using permission_modes [of "\<lparr>ctx_permissionMode = Some ModeReadOnly, ctx_permissionPolicy = Some sample_policy\<rparr>"
      sample_policy "\<lambda>e. e (call [])" "js ''bash''" ExecuteCode "[]"]
  by (simp add: context_mode_def)

end
