(* ===== verification/Protected_Values.thy ===== *)
theory Protected_Values
  imports Json_Text "HOL-Library.Product_Lexorder" "HOL-Library.List_Lexorder"
begin

text \<open>
  Redaction of secrets (\<^verbatim>\<open>packages/runtime-safety/src/protected-values.ts\<close>). Before a value is
  stored, shown or sent, every occurrence of a protected value is replaced by a marker; an
  object key that holds one makes the whole value fail closed.

  The properties say that the merged intervals cover exactly the code units that lie inside
  some occurrence, that redaction removes exactly those, and what happens to a whole JSON value.
\<close>

section \<open>The code\<close>

definition PROTECTED_VALUE_REDACTION_MARKER :: jstr where
  "PROTECTED_VALUE_REDACTION_MARKER = js ''[REDACTED]''"

text \<open>\<^verbatim>\<open>[...new Set(xs)]\<close>: the first occurrence of each element.\<close>

definition js_set :: "'a list \<Rightarrow> 'a list" where
  "js_set xs = rev (remdups (rev xs))"

definition normalizeProtectedValues :: "jstr list \<Rightarrow> jstr list" where
  "normalizeProtectedValues vs =
     sort_key (\<lambda>v. (- int (length v), v)) (js_set (filter (\<lambda>v. length v > 0) vs))"

text \<open>Lower-casing as far as a comparison with the three ASCII names can tell: the ASCII letters
  and the one other code unit whose lower case is an ASCII letter of those names (the Kelvin sign).\<close>

definition lower_unit :: "code_unit \<Rightarrow> code_unit" where
  "lower_unit c = (if 65 \<le> c \<and> c \<le> 90 then c + 32 else if c = 0x212a then 107 else c)"

definition to_lower :: "jstr \<Rightarrow> jstr" where
  "to_lower s = map lower_unit s"

definition trim :: "jstr \<Rightarrow> jstr" where
  "trim s = rev (dropWhile is_whitespace (rev (dropWhile is_whitespace s)))"

definition CREDENTIAL_HEADER_NAMES :: "jstr list" where
  "CREDENTIAL_HEADER_NAMES = [js ''authorization'', js ''proxy-authorization'', js ''cookie'']"

definition credentialHeaderValues :: "(jstr \<times> jstr) list \<Rightarrow> jstr list" where
  "credentialHeaderValues headers =
     filter (\<lambda>v. length v > 0)
       (map (\<lambda>(name, value). trim value)
          (filter (\<lambda>(name, value). to_lower name \<in> set CREDENTIAL_HEADER_NAMES) headers))"

definition containsProtectedString :: "jstr \<Rightarrow> jstr list \<Rightarrow> bool" where
  "containsProtectedString value pvs \<longleftrightarrow> (\<exists>p\<in>set pvs. str_includes value p)"

fun canonicalJsonScalar :: "jsval \<Rightarrow> jstr option" where
  "canonicalJsonScalar JNull = json_stringify JNull"
| "canonicalJsonScalar (JBool b) = json_stringify (JBool b)"
| "canonicalJsonScalar (JNum n) = (if num_is_finite n then json_stringify (JNum n) else None)"
| "canonicalJsonScalar _ = None"

record interval =
  iv_start :: nat
  iv_end :: nat

definition iv :: "nat \<Rightarrow> nat \<Rightarrow> interval" where
  "iv a b = \<lparr>iv_start = a, iv_end = b\<rparr>"

lemma iv_simps [simp]: "iv_start (iv a b) = a" "iv_end (iv a b) = b" "(iv a b)\<lparr>iv_end := c\<rparr> = iv a c"
  by (simp_all add: iv_def)

fun extend_run :: "interval option \<Rightarrow> nat \<Rightarrow> nat \<Rightarrow> interval list \<Rightarrow> interval option \<times> interval list" where
  "extend_run None index e completed = (Some (iv index e), completed)"
| "extend_run (Some q) index e completed =
     (if index \<le> iv_end q then (Some (q\<lparr>iv_end := max (iv_end q) e\<rparr>), completed)
      else (Some (iv index e), completed @ [q]))"

function member_loop :: "jstr \<Rightarrow> jstr \<Rightarrow> nat option \<Rightarrow> interval option \<Rightarrow> interval list \<Rightarrow> interval list" where
  "member_loop value p index pending completed =
     (case index of
        None \<Rightarrow> (case pending of None \<Rightarrow> completed | Some q \<Rightarrow> completed @ [q])
      | Some i \<Rightarrow>
          (case extend_run pending i (i + length p) completed of
             (pending', completed') \<Rightarrow> member_loop value p (index_of value p (i + 1)) pending' completed'))"
  by pat_completeness auto
termination
proof (relation "measure (\<lambda>(value, p, index, pending, completed).
      case index of None \<Rightarrow> 0 | Some i \<Rightarrow> Suc (length value - i))", goal_cases)
  case (2 "value" p index pending completed i)
  then show ?case
    by (auto simp: index_of_Some occurs_at_def split: option.splits)
qed simp

declare member_loop.simps [simp del]

definition collectMemberIntervals :: "jstr \<Rightarrow> jstr \<Rightarrow> interval list \<Rightarrow> interval list" where
  "collectMemberIntervals value p completed = member_loop value p (index_of value p 0) None completed"

definition merge_step :: "interval list \<Rightarrow> interval \<Rightarrow> interval list" where
  "merge_step merged i =
     (if merged \<noteq> [] \<and> iv_start i \<le> iv_end (last merged)
      then (if iv_end i > iv_end (last merged)
            then butlast merged @ [iv (iv_start (last merged)) (iv_end i)]
            else merged)
      else merged @ [i])"

definition mergeIntervals :: "interval list \<Rightarrow> interval list" where
  "mergeIntervals sorted_ivs = foldl merge_step [] sorted_ivs"

definition protectedValueIntervals :: "jstr \<Rightarrow> jstr list \<Rightarrow> interval list" where
  "protectedValueIntervals value pvs =
     (let matches = fold (\<lambda>p acc. if length p = 0 then acc else collectMemberIntervals value p acc) pvs []
      in if matches = [] then []
         else mergeIntervals (sort_key (\<lambda>i. (iv_start i, iv_end i)) matches))"

definition redact_step :: "jstr \<Rightarrow> jstr \<times> nat \<Rightarrow> interval \<Rightarrow> jstr \<times> nat" where
  "redact_step value st i =
     (fst st @ slice value (snd st) (iv_start i) @ PROTECTED_VALUE_REDACTION_MARKER, iv_end i)"

definition redactProtectedString :: "jstr \<Rightarrow> jstr list \<Rightarrow> jstr" where
  "redactProtectedString value pvs =
     (let intervals = protectedValueIntervals value pvs in
      if intervals = [] then value
      else (case foldl (redact_step value) ([], 0) intervals of (output, cursor) \<Rightarrow> output @ drop cursor value))"

fun containsNormalizedProtectedValueJson :: "jsval \<Rightarrow> jstr list \<Rightarrow> bool" where
  "containsNormalizedProtectedValueJson (JStr s) pvs = containsProtectedString s pvs"
| "containsNormalizedProtectedValueJson (JArr vs) pvs =
     (\<exists>v\<in>set vs. containsNormalizedProtectedValueJson v pvs)"
| "containsNormalizedProtectedValueJson (JObj kvs) pvs =
     (\<exists>(k, v)\<in>set kvs. containsProtectedString k pvs \<or> containsNormalizedProtectedValueJson v pvs)"
| "containsNormalizedProtectedValueJson v pvs =
     (case canonicalJsonScalar v of Some scalar \<Rightarrow> scalar \<in> set pvs | None \<Rightarrow> False)"

definition containsProtectedValueJson :: "jsval \<Rightarrow> jstr list \<Rightarrow> bool" where
  "containsProtectedValueJson v pvs = containsNormalizedProtectedValueJson v (normalizeProtectedValues pvs)"

text \<open>\<open>Inl ()\<close> is the result \<^verbatim>\<open>{ success: false, reason: "protected_value_key" }\<close>.\<close>

fun sanitizeNormalizedProtectedValueJson :: "jsval \<Rightarrow> jstr list \<Rightarrow> unit + jsval"
  and sanitizeProtectedValueArray :: "jsval list \<Rightarrow> jstr list \<Rightarrow> unit + jsval list"
  and sanitizeProtectedValueRecord :: "(jstr \<times> jsval) list \<Rightarrow> jstr list \<Rightarrow> unit + (jstr \<times> jsval) list" where
  "sanitizeNormalizedProtectedValueJson (JStr s) pvs = Inr (JStr (redactProtectedString s pvs))"
| "sanitizeNormalizedProtectedValueJson (JArr vs) pvs =
     bind_res (sanitizeProtectedValueArray vs pvs) (\<lambda>safe. Inr (JArr safe))"
| "sanitizeNormalizedProtectedValueJson (JObj kvs) pvs =
     bind_res (sanitizeProtectedValueRecord kvs pvs) (\<lambda>safe. Inr (JObj (from_entries safe)))"
| "sanitizeNormalizedProtectedValueJson v pvs =
     (case canonicalJsonScalar v of
        Some scalar \<Rightarrow> Inr (if scalar \<in> set pvs then JStr PROTECTED_VALUE_REDACTION_MARKER else v)
      | None \<Rightarrow> Inr v)"
| "sanitizeProtectedValueArray [] pvs = Inr []"
| "sanitizeProtectedValueArray (v # vs) pvs =
     bind_res (sanitizeNormalizedProtectedValueJson v pvs) (\<lambda>x.
     bind_res (sanitizeProtectedValueArray vs pvs) (\<lambda>xs. Inr (x # xs)))"
| "sanitizeProtectedValueRecord [] pvs = Inr []"
| "sanitizeProtectedValueRecord ((k, v) # kvs) pvs =
     (if containsProtectedString k pvs then Inl ()
      else bind_res (sanitizeNormalizedProtectedValueJson v pvs) (\<lambda>x.
           bind_res (sanitizeProtectedValueRecord kvs pvs) (\<lambda>xs. Inr ((k, x) # xs))))"

definition sanitizeProtectedValueJson :: "jsval \<Rightarrow> jstr list \<Rightarrow> unit + jsval" where
  "sanitizeProtectedValueJson v pvs = sanitizeNormalizedProtectedValueJson v (normalizeProtectedValues pvs)"

section \<open>Intervals\<close>

definition iset :: "interval list \<Rightarrow> nat set" where
  "iset ivs = (\<Union>i\<in>set ivs. {iv_start i..<iv_end i})"

definition occ_set :: "jstr \<Rightarrow> jstr \<Rightarrow> nat \<Rightarrow> nat set" where
  "occ_set value p lo = (\<Union>i\<in>{i. lo \<le> i \<and> occurs_at value p i}. {i..<i + length p})"

text \<open>The code units of a string that lie inside an occurrence of a protected value.\<close>

definition covered :: "jstr \<Rightarrow> jstr list \<Rightarrow> nat set" where
  "covered value pvs = (\<Union>p\<in>{p \<in> set pvs. p \<noteq> []}. occ_set value p 0)"

lemma iset_simps [simp]:
  "iset [] = {}" "iset (i # ivs) = {iv_start i..<iv_end i} \<union> iset ivs" "iset (xs @ ys) = iset xs \<union> iset ys"
  by (auto simp: iset_def)

lemma iset_cong: "set xs = set ys \<Longrightarrow> iset xs = iset ys"
  by (simp add: iset_def)

definition opt_set :: "interval option \<Rightarrow> nat set" where
  "opt_set q = (case q of None \<Rightarrow> {} | Some i \<Rightarrow> {iv_start i..<iv_end i})"

definition iv_ok :: "jstr \<Rightarrow> interval \<Rightarrow> bool" where
  "iv_ok value i \<longleftrightarrow> iv_start i < iv_end i \<and> iv_end i \<le> length value"

lemma occ_set_from:
  assumes "index_of value p lo = Some i"
  shows "occ_set value p lo = {i..<i + length p} \<union> occ_set value p (Suc i)"
proof -
  have "lo \<le> j \<and> occurs_at value p j \<longleftrightarrow> j = i \<or> Suc i \<le> j \<and> occurs_at value p j" for j
    using assms unfolding index_of_Some by (metis Suc_le_eq le_trans less_imp_le linorder_neqE_nat)
  then have "{j. lo \<le> j \<and> occurs_at value p j} = insert i {j. Suc i \<le> j \<and> occurs_at value p j}" by blast
  then show ?thesis unfolding occ_set_def by simp
qed

lemma occ_set_None: "index_of value p lo = None \<Longrightarrow> occ_set value p lo = {}"
  unfolding index_of_None occ_set_def by auto

lemma member_loop_covers:
  assumes "index = index_of value p lo" "p \<noteq> []"
    and "\<forall>q. pending = Some q \<longrightarrow> iv_ok value q \<and> (\<forall>i. index = Some i \<longrightarrow> iv_start q \<le> i)"
    and "\<forall>i\<in>set completed. iv_ok value i"
  shows "iset (member_loop value p index pending completed) = iset completed \<union> opt_set pending \<union> occ_set value p lo \<and>
    (\<forall>i\<in>set (member_loop value p index pending completed). iv_ok value i)"
  using assms
proof (induction "value" p index pending completed arbitrary: lo rule: member_loop.induct)
  case (1 "value" p index pending completed)
  show ?case
  proof (cases index)
    case None
    then show ?thesis
      using 1 by (subst (1 2) member_loop.simps) (auto simp: opt_set_def occ_set_None split: option.splits)
  next
    case (Some i)
    obtain q c where run: "extend_run pending i (i + length p) completed = (q, c)" by fastforce
    have occ: "occurs_at value p i" using "1.prems"(1) Some index_of_Some by metis
    then have iok: "iv_ok value (iv i (i + length p))" using "1.prems"(2) by (simp add: iv_ok_def occurs_at_def)
    have step: "iset c \<union> opt_set q = iset completed \<union> opt_set pending \<union> {i..<i + length p} \<and>
        (\<forall>x. q = Some x \<longrightarrow> iv_ok value x \<and> iv_start x \<le> i) \<and> (\<forall>x\<in>set c. iv_ok value x)"
      using run "1.prems"(3,4) Some iok
      by (cases pending) (auto simp: opt_set_def iv_ok_def split: if_splits)
    have "iset (member_loop value p (index_of value p (i + 1)) q c) = iset c \<union> opt_set q \<union> occ_set value p (i + 1) \<and>
        (\<forall>x\<in>set (member_loop value p (index_of value p (i + 1)) q c). iv_ok value x)"
    proof (rule "1.IH" [OF Some run [symmetric] refl "1.prems"(2)])
      show "\<forall>x. q = Some x \<longrightarrow> iv_ok value x \<and> (\<forall>j. index_of value p (i + 1) = Some j \<longrightarrow> iv_start x \<le> j)"
        using step by (auto simp: index_of_Some intro: le_trans)
    qed (use step in blast)
    moreover have "member_loop value p index pending completed = member_loop value p (index_of value p (i + 1)) q c"
      using Some run by (subst member_loop.simps) simp
    ultimately show ?thesis
      using step occ_set_from [of "value" p lo i] "1.prems"(1) Some by auto
  qed
qed

lemma collectMember_covers:
  assumes "p \<noteq> []" "\<forall>i\<in>set completed. iv_ok value i"
  shows "iset (collectMemberIntervals value p completed) = iset completed \<union> occ_set value p 0 \<and>
    (\<forall>i\<in>set (collectMemberIntervals value p completed). iv_ok value i)"
  using member_loop_covers [OF refl assms(1), where pending = None and completed = completed and lo = 0] assms(2)
  by (simp add: collectMemberIntervals_def opt_set_def)

lemma collect_all_covers:
  assumes "\<forall>i\<in>set acc. iv_ok value i"
  shows "iset (fold (\<lambda>p acc. if length p = 0 then acc else collectMemberIntervals value p acc) pvs acc) =
      iset acc \<union> covered value pvs \<and>
    (\<forall>i\<in>set (fold (\<lambda>p acc. if length p = 0 then acc else collectMemberIntervals value p acc) pvs acc). iv_ok value i)"
  using assms
proof (induction pvs arbitrary: acc)
  case Nil
  then show ?case by (simp add: covered_def)
next
  case (Cons p pvs)
  have cov: "covered value (p # pvs) = (if p = [] then {} else occ_set value p 0) \<union> covered value pvs"
    by (auto simp: covered_def)
  show ?case
  proof (cases "p = []")
    case True
    then show ?thesis using Cons cov by simp
  next
    case False
    note c = collectMember_covers [OF False Cons.prems]
    then show ?thesis using Cons.IH [of "collectMemberIntervals value p acc"] cov False by (simp add: Un_ac)
  qed
qed

definition separated :: "interval list \<Rightarrow> bool" where
  "separated ivs \<longleftrightarrow> sorted_wrt (\<lambda>a b. iv_end a < iv_start b) ivs"

lemma merge_step_ok:
  assumes sep: "separated merged" and ok: "\<forall>i\<in>set merged. iv_ok value i" "iv_ok value i"
    and le: "\<forall>m\<in>set merged. iv_start m \<le> iv_start i"
  shows "separated (merge_step merged i) \<and> (\<forall>j\<in>set (merge_step merged i). iv_ok value j \<and> iv_start j \<le> iv_start i) \<and>
    iset (merge_step merged i) = iset merged \<union> {iv_start i..<iv_end i}"
proof (cases "merged = []")
  case True
  then show ?thesis using ok by (simp add: merge_step_def separated_def)
next
  case False
  then obtain ms m where m: "merged = ms @ [m]" by (metis append_butlast_last_id)
  have last: "iv_start m \<le> iv_start i" "iv_ok value m" using le ok m by simp_all
  have before: "\<forall>x\<in>set ms. iv_end x < iv_start m" using sep m by (simp add: separated_def sorted_wrt_append)
  show ?thesis
    using sep ok le last before m
    by (auto simp: merge_step_def separated_def sorted_wrt_append iv_ok_def)
qed

lemma merge_ok:
  assumes "separated merged" "\<forall>i\<in>set merged. iv_ok value i" "\<forall>i\<in>set ivs. iv_ok value i"
    and "\<forall>m\<in>set merged. \<forall>i\<in>set ivs. iv_start m \<le> iv_start i" "sorted_wrt (\<lambda>a b. iv_start a \<le> iv_start b) ivs"
  shows "separated (foldl merge_step merged ivs) \<and> (\<forall>i\<in>set (foldl merge_step merged ivs). iv_ok value i) \<and>
    iset (foldl merge_step merged ivs) = iset merged \<union> iset ivs"
  using assms
proof (induction ivs arbitrary: merged)
  case (Cons i ivs)
  have "separated (merge_step merged i) \<and> (\<forall>j\<in>set (merge_step merged i). iv_ok value j \<and> iv_start j \<le> iv_start i) \<and>
    iset (merge_step merged i) = iset merged \<union> {iv_start i..<iv_end i}"
    using Cons.prems by (intro merge_step_ok) auto
  note m = this
  moreover have "\<forall>m\<in>set (merge_step merged i). \<forall>j\<in>set ivs. iv_start m \<le> iv_start j"
    using m Cons.prems(5) by (auto intro: le_trans)
  ultimately show ?case using Cons.IH [of "merge_step merged i"] Cons.prems(3,5) by (simp add: Un_assoc)
qed simp

lemma intervals_exact:
  "separated (protectedValueIntervals value pvs) \<and> (\<forall>i\<in>set (protectedValueIntervals value pvs). iv_ok value i) \<and>
   iset (protectedValueIntervals value pvs) = covered value pvs"
proof -
  define ms where "ms = fold (\<lambda>p acc. if length p = 0 then acc else collectMemberIntervals value p acc) pvs []"
  have ms: "iset ms = covered value pvs" "\<forall>i\<in>set ms. iv_ok value i"
    using collect_all_covers [of "[]" "value" pvs] by (simp_all add: ms_def)
  let ?s = "sort_key (\<lambda>i. (iv_start i, iv_end i)) ms"
  have "sorted (map (\<lambda>i. (iv_start i, iv_end i)) ?s)" by simp
  then have "sorted_wrt (\<lambda>a b. iv_start a \<le> iv_start b) ?s"
    unfolding sorted_map by (rule sorted_wrt_mono_rel [rotated]) auto
  then have "separated (mergeIntervals ?s) \<and> (\<forall>i\<in>set (mergeIntervals ?s). iv_ok value i) \<and> iset (mergeIntervals ?s) = iset ?s"
    using merge_ok [of "[]" "value" ?s] ms(2) by (simp add: mergeIntervals_def separated_def)
  moreover have "iset ?s = iset ms" by (rule iset_cong) simp
  moreover have "protectedValueIntervals value pvs = (if ms = [] then [] else mergeIntervals ?s)"
    unfolding protectedValueIntervals_def ms_def [symmetric] Let_def ..
  ultimately show ?thesis using ms by (cases "ms = []") (simp_all add: separated_def)
qed

section \<open>Redaction of one string\<close>

text \<open>The reference: walk the string, copy what is not covered, and write the marker where a run
  of covered code units starts.\<close>

definition redact_unit :: "jstr \<Rightarrow> nat set \<Rightarrow> nat \<Rightarrow> jstr" where
  "redact_unit value cov k =
     (if k \<notin> cov then [value ! k]
      else if k > 0 \<and> k - 1 \<in> cov then [] else PROTECTED_VALUE_REDACTION_MARKER)"

definition redact_ref :: "jstr \<Rightarrow> nat set \<Rightarrow> jstr" where
  "redact_ref value cov = concat (map (redact_unit value cov) [0..<length value])"

lemma copy_uncovered:
  assumes "b \<le> length value" "\<forall>k. a \<le> k \<and> k < b \<longrightarrow> k \<notin> cov"
  shows "concat (map (redact_unit value cov) [a..<b]) = slice value a b"
proof -
  have "concat (map (redact_unit value cov) [a..<b]) = concat (map (\<lambda>k. [value ! k]) [a..<b])"
    using assms(2) by (intro arg_cong [of _ _ concat] map_cong) (auto simp: redact_unit_def)
  then show ?thesis using assms(1) by (simp add: slice_as_map concat_map_singleton)
qed

lemma mark_covered:
  assumes "a < b" "{a..<b} \<subseteq> cov" "a = 0 \<or> a - 1 \<notin> cov"
  shows "concat (map (redact_unit value cov) [a..<b]) = PROTECTED_VALUE_REDACTION_MARKER"
proof -
  have "[a..<b] = a # [Suc a..<b]" using assms(1) by (simp add: upt_rec)
  moreover have "redact_unit value cov a = PROTECTED_VALUE_REDACTION_MARKER"
    using assms by (auto simp: redact_unit_def)
  moreover have "redact_unit value cov k = []" if "k \<in> set [Suc a..<b]" for k
  proof -
    have "k \<in> {a..<b}" "k - 1 \<in> {a..<b}" "k > 0" using that by auto
    then have "k \<in> cov" "k - 1 \<in> cov" "k > 0" using assms(2) by blast+
    then show ?thesis by (simp add: redact_unit_def)
  qed
  ultimately show ?thesis by simp
qed

lemma redact_step_eq: "redact_step value (out, cursor) i =
    (out @ slice value cursor (iv_start i) @ PROTECTED_VALUE_REDACTION_MARKER, iv_end i)"
  by (simp add: redact_step_def)

lemma redact_fold:
  assumes "separated ivs" "\<forall>i\<in>set ivs. iv_ok value i" "\<forall>i\<in>set ivs. cursor \<le> iv_start i"
    and "cursor > 0 \<longrightarrow> (\<forall>i\<in>set ivs. cursor < iv_start i) \<and> cursor \<le> length value"
    and "cov \<inter> {cursor..} = iset ivs" "cursor \<notin> iset ivs \<or> cursor = 0"
  shows "(case foldl (redact_step value) (out, cursor) ivs of (output, c) \<Rightarrow> output @ drop c value) =
    out @ concat (map (redact_unit value cov) [cursor..<length value])"
  using assms
proof (induction ivs arbitrary: out cursor)
  case Nil
  then have "\<forall>k. cursor \<le> k \<and> k < length value \<longrightarrow> k \<notin> cov" by auto
  then show ?case using copy_uncovered [of "length value" "value" cursor cov] by (simp add: slice_def)
next
  case (Cons i ivs)
  let ?a = "iv_start i" and ?b = "iv_end i"
  have ab: "?a < ?b" "?b \<le> length value" "cursor \<le> ?a" using Cons.prems by (auto simp: iv_ok_def)
  have later: "\<forall>j\<in>set ivs. ?b < iv_start j" using Cons.prems(1) by (simp add: separated_def)
  have cov: "k \<in> cov \<longleftrightarrow> k \<in> {?a..<?b} \<union> iset ivs" if "cursor \<le> k" for k
  proof -
    have "k \<in> cov \<inter> {cursor..} \<longleftrightarrow> k \<in> iset (i # ivs)" by (simp only: Cons.prems(5))
    then show ?thesis using that by simp
  qed
  have far: "k \<in> iset ivs \<Longrightarrow> ?b < k" for k using later by (auto simp: iset_def)
  have "concat (map (redact_unit value cov) [cursor..<?a]) = slice value cursor ?a"
  proof (rule copy_uncovered)
    show "\<forall>k. cursor \<le> k \<and> k < ?a \<longrightarrow> k \<notin> cov" using cov far ab by fastforce
  qed (use ab in simp)
  moreover have "concat (map (redact_unit value cov) [?a..<?b]) = PROTECTED_VALUE_REDACTION_MARKER"
  proof (rule mark_covered [OF ab(1)])
    show "{?a..<?b} \<subseteq> cov" using cov ab(3) by auto
    show "?a = 0 \<or> ?a - 1 \<notin> cov"
    proof (cases "cursor = ?a")
      case True
      then show ?thesis using Cons.prems(4) by auto
    next
      case False
      then have "cursor \<le> ?a - 1" using ab(3) by simp
      then show ?thesis using cov [of "?a - 1"] far [of "?a - 1"] ab(1) False ab(3) by auto
    qed
  qed
  moreover have "[cursor..<length value] = [cursor..<?a] @ [?a..<?b] @ [?b..<length value]"
    using ab by (metis le_trans less_imp_le upt_append_le)
  moreover have "cov \<inter> {?b..} = iset ivs"
  proof (rule set_eqI)
    fix k
    show "k \<in> cov \<inter> {?b..} \<longleftrightarrow> k \<in> iset ivs" using cov [of k] far [of k] ab by auto
  qed
  then have "(case foldl (redact_step value) (fst (redact_step value (out, cursor) i), ?b) ivs of
       (output, c) \<Rightarrow> output @ drop c value) =
     fst (redact_step value (out, cursor) i) @ concat (map (redact_unit value cov) [?b..<length value])"
    using Cons.prems ab later far [of ?b] by (intro Cons.IH) (auto simp: separated_def less_imp_le)
  ultimately show ?case by (simp add: redact_step_eq)
qed

lemma redact_exact: "redactProtectedString value pvs = redact_ref value (covered value pvs)"
proof -
  let ?ivs = "protectedValueIntervals value pvs"
  have "(case foldl (redact_step value) ([], 0) ?ivs of (output, c) \<Rightarrow> output @ drop c value) =
      [] @ concat (map (redact_unit value (covered value pvs)) [0..<length value])"
    using intervals_exact [of "value" pvs] by (intro redact_fold) auto
  moreover have "redact_ref value {} = value"
    using copy_uncovered [of "length value" "value" 0 "{}"] by (simp add: redact_ref_def slice_def)
  ultimately show ?thesis
    using intervals_exact [of "value" pvs] by (auto simp: redactProtectedString_def Let_def redact_ref_def)
qed

section \<open>Whole values\<close>

text \<open>The reference: a value is refused when some key at any depth holds a protected value, and is
  otherwise rebuilt with every string redacted and every scalar that spells one replaced.\<close>

fun protected_key :: "jstr list \<Rightarrow> jsval \<Rightarrow> bool" where
  "protected_key pvs (JArr vs) \<longleftrightarrow> (\<exists>v\<in>set vs. protected_key pvs v)"
| "protected_key pvs (JObj kvs) \<longleftrightarrow> (\<exists>(k, v)\<in>set kvs. containsProtectedString k pvs \<or> protected_key pvs v)"
| "protected_key pvs _ \<longleftrightarrow> False"

fun redact_val :: "jstr list \<Rightarrow> jsval \<Rightarrow> jsval" where
  "redact_val pvs (JStr s) = JStr (redact_ref s (covered s pvs))"
| "redact_val pvs (JArr vs) = JArr (map (redact_val pvs) vs)"
| "redact_val pvs (JObj kvs) = JObj (map (\<lambda>(k, v). (k, redact_val pvs v)) kvs)"
| "redact_val pvs v =
     (case canonicalJsonScalar v of
        Some t \<Rightarrow> if t \<in> set pvs then JStr PROTECTED_VALUE_REDACTION_MARKER else v | None \<Rightarrow> v)"

lemma sanitize_exact:
  "wf_val v \<Longrightarrow> sanitizeNormalizedProtectedValueJson v pvs = (if protected_key pvs v then Inl () else Inr (redact_val pvs v))"
  "\<forall>v\<in>set vs. wf_val v \<Longrightarrow> sanitizeProtectedValueArray vs pvs =
     (if \<exists>v\<in>set vs. protected_key pvs v then Inl () else Inr (map (redact_val pvs) vs))"
  "\<forall>kv\<in>set kvs. wf_val (snd kv) \<Longrightarrow> sanitizeProtectedValueRecord kvs pvs =
     (if \<exists>(k, v)\<in>set kvs. containsProtectedString k pvs \<or> protected_key pvs v then Inl ()
      else Inr (map (\<lambda>(k, v). (k, redact_val pvs v)) kvs))"
proof (induction v pvs and vs pvs and kvs pvs
    rule: sanitizeNormalizedProtectedValueJson_sanitizeProtectedValueArray_sanitizeProtectedValueRecord.induct)
  case (3 kvs pvs)
  have "from_entries (map (\<lambda>(k, v). (k, redact_val pvs v)) kvs) = map (\<lambda>(k, v). (k, redact_val pvs v)) kvs"
    using 3 by (intro from_entries_distinct) (simp add: comp_def case_prod_beta')
  then show ?case using 3 by simp
qed (auto simp: redact_exact split: option.splits)

lemma covered_empty: "\<not> containsProtectedString s pvs \<Longrightarrow> covered s pvs = {}"
  by (auto simp: containsProtectedString_def covered_def occ_set_def str_includes_iff)

lemma redact_ref_none [simp]: "redact_ref s {} = s"
  using copy_uncovered [of "length s" s 0 "{}"] by (simp add: redact_ref_def slice_def)

lemma not_contains:
  "\<not> containsNormalizedProtectedValueJson v pvs \<Longrightarrow> \<not> protected_key pvs v \<and> redact_val pvs v = v"
proof (induction v pvs rule: containsNormalizedProtectedValueJson.induct)
  case (1 s pvs)
  then show ?case by (simp add: covered_empty)
next
  case (2 vs pvs)
  then show ?case by (auto intro: map_idI)
next
  case (3 kvs pvs)
  then have "\<not> protected_key pvs v \<and> redact_val pvs v = v" if "(k, v) \<in> set kvs" for k v
    using that by fastforce
  then show ?case using 3 by (auto intro!: map_idI)
qed (auto split: option.splits)

lemma set_js_set [simp]: "set (js_set xs) = set xs" and distinct_js_set [simp]: "distinct (js_set xs)"
  by (simp_all add: js_set_def)

lemma set_normalize: "set (normalizeProtectedValues vs) = {v \<in> set vs. v \<noteq> []}"
  by (auto simp: normalizeProtectedValues_def)

lemma covered_normalize: "covered s (normalizeProtectedValues vs) = covered s vs"
proof -
  have "{p \<in> set (normalizeProtectedValues vs). p \<noteq> []} = {p \<in> set vs. p \<noteq> []}"
    by (auto simp: set_normalize)
  then show ?thesis by (simp only: covered_def)
qed

section \<open>Properties\<close>

text \<open>The intervals are exact: sorted, pairwise disjoint with a gap between neighbours, each
  non-empty and inside the string, and a code unit is inside one of them exactly when it is
  inside some occurrence (overlapping ones included) of a non-empty protected value.\<close>

lemma intervals_cover_exactly:
  "sorted_wrt (\<lambda>a b. iv_end a < iv_start b) (protectedValueIntervals value pvs) \<and>
   (\<forall>i\<in>set (protectedValueIntervals value pvs). iv_start i < iv_end i \<and> iv_end i \<le> length value) \<and>
   (\<forall>k. (\<exists>i\<in>set (protectedValueIntervals value pvs). iv_start i \<le> k \<and> k < iv_end i) \<longleftrightarrow>
      (\<exists>p\<in>set pvs. p \<noteq> [] \<and> (\<exists>i. occurs_at value p i \<and> i \<le> k \<and> k < i + length p)))"
proof -
  have "k \<in> iset (protectedValueIntervals value pvs) \<longleftrightarrow> k \<in> covered value pvs" for k
    using intervals_exact [of "value" pvs] by simp
  then show ?thesis
    using intervals_exact [of "value" pvs]
    by (auto simp: separated_def iv_ok_def iset_def covered_def occ_set_def)
qed

theorem intervals_cover_exactly_witness:
  "\<exists>i\<in>set (protectedValueIntervals (js ''xaba'') [js ''ab'', js ''ba'']). iv_start i \<le> 3 \<and> 3 < iv_end i"
proof -
  have "occurs_at (js ''xaba'') (js ''ba'') 2" by code_simp
  then have "\<exists>p\<in>set [js ''ab'', js ''ba'']. p \<noteq> [] \<and> (\<exists>i. occurs_at (js ''xaba'') p i \<and> i \<le> 3 \<and> 3 < i + length p)"
    by (intro bexI [of _ "js ''ba''"]) (auto simp: js.simps)
  then show ?thesis using intervals_cover_exactly [of "js ''xaba''" "[js ''ab'', js ''ba'']"] by blast
qed

text \<open>C14: Redaction removes exactly the secrets. The redacted string is the original with every
  maximal run of code units inside occurrences replaced by one marker and every other code unit
  copied in order; so no code unit of an occurrence survives, not even the tail of one that
  overlaps another, and a string with no occurrence is returned as it is.\<close>

theorem redact_removes_exactly:
  "redactProtectedString value pvs = redact_ref value (covered value pvs) \<and>
   (\<not> containsProtectedString value pvs \<longrightarrow> redactProtectedString value pvs = value)"
  using covered_empty by (auto simp: redact_exact)

theorem redact_removes_exactly_witness:
  "redactProtectedString (js ''abc'') [js ''x''] = js ''abc''"
proof -
  have "\<not> containsProtectedString (js ''abc'') [js ''x'']" by code_simp
  then show ?thesis using redact_removes_exactly [of "js ''abc''" "[js ''x'']"] by blast
qed

text \<open>C39: A whole JSON value is sanitized or refused, and nothing in between. It is refused
  exactly when some object key, at any depth, contains a protected value; otherwise the result
  has the same shape, every string in it redacted exactly, and every number, Boolean or null that
  spells a protected value replaced by the marker. A value in which nothing protected is detected
  is returned unchanged.\<close>

theorem sanitize_fails_closed:
  assumes "wf_val v"
  shows "sanitizeProtectedValueJson v pvs =
      (if protected_key (normalizeProtectedValues pvs) v then Inl ()
       else Inr (redact_val (normalizeProtectedValues pvs) v)) \<and>
    (\<not> containsProtectedValueJson v pvs \<longrightarrow> sanitizeProtectedValueJson v pvs = Inr v)"
  using sanitize_exact(1) [OF assms] not_contains [of v "normalizeProtectedValues pvs"]
  by (auto simp: sanitizeProtectedValueJson_def containsProtectedValueJson_def)

theorem sanitize_fails_closed_witness:
  "sanitizeProtectedValueJson (JObj [(js ''key'', JStr (js ''ok''))]) [js ''ey''] = Inl ()"
proof -
  have "protected_key (normalizeProtectedValues [js ''ey'']) (JObj [(js ''key'', JStr (js ''ok''))])" by code_simp
  then show ?thesis
    using sanitize_fails_closed [of "JObj [(js ''key'', JStr (js ''ok''))]" "[js ''ey'']"] by simp
qed

end
