(* ===== verification/Reserved_Delimiters.thy ===== *)
theory Reserved_Delimiters
  imports Js_Prelude
begin

text \<open>
  Neutralizing forged framing in tool results
  (\<^verbatim>\<open>packages/runtime-safety/src/reserved-delimiters.ts\<close>) and hiding display data from the model
  (\<^verbatim>\<open>model-visible.ts\<close>). A tag-shaped token that names a reserved delimiter is escaped; nothing else
  of the text changes.

  The code walks the text by index; \<open>neutralize_ref\<close> is the same rule by recursion on the text,
  and the properties are proved on it.
\<close>

section \<open>The code\<close>

text \<open>The two angle brackets, the solidus and the characters of a tag name.\<close>

definition LT :: code_unit where
  "LT = 60"

definition GT :: code_unit where
  "GT = 62"

definition is_letter :: "code_unit \<Rightarrow> bool" where
  "is_letter c \<longleftrightarrow> (65 \<le> c \<and> c \<le> 90) \<or> (97 \<le> c \<and> c \<le> 122)"

definition is_name_char :: "code_unit \<Rightarrow> bool" where
  "is_name_char c \<longleftrightarrow> is_letter c \<or> (48 \<le> c \<and> c \<le> 57) \<or> c = 95 \<or> c = 46 \<or> c = 58 \<or> c = 45"

definition ascii_lower :: "code_unit \<Rightarrow> code_unit" where
  "ascii_lower c = (if 65 \<le> c \<and> c \<le> 90 then c + 32 else c)"

definition RESERVED_DELIMITER_NAMES :: "jstr list" where
  "RESERVED_DELIMITER_NAMES =
     [js ''system-reminder'', js ''tool-call'', js ''tool-result'', js ''user_chat_history'',
      js ''user_personalization'', js ''skill'', js ''available_skills'']"

text \<open>The capture of \<^verbatim>\<open>/^<\s*(?:\/\s*)?([A-Za-z][\w.:-]*)/u\<close>. White space, the solidus and letters are
  disjoint, so the match is decided without backtracking.\<close>

definition skip_solidus :: "jstr \<Rightarrow> jstr" where
  "skip_solidus s = (case s of c # r \<Rightarrow> if c = 47 then dropWhile is_whitespace r else s | [] \<Rightarrow> [])"

definition RESERVED_INTENT :: "jstr \<Rightarrow> jstr option" where
  "RESERVED_INTENT token =
     (case token of
        c # r \<Rightarrow>
          if c \<noteq> LT then None
          else (case skip_solidus (dropWhile is_whitespace r) of
                  d # _ \<Rightarrow> if is_letter d
                           then Some (takeWhile is_name_char (skip_solidus (dropWhile is_whitespace r)))
                           else None
                | [] \<Rightarrow> None)
      | [] \<Rightarrow> None)"

record tag_token =
  tt_start :: nat
  tt_end :: nat
  tt_token :: jstr

definition in_tag :: "code_unit \<Rightarrow> bool" where
  "in_tag c \<longleftrightarrow> c \<noteq> LT \<and> c \<noteq> GT"

text \<open>The inner loop of the scan, then the step over a closing bracket.\<close>

function walk_tag :: "jstr \<Rightarrow> nat \<Rightarrow> nat" where
  "walk_tag t e = (if e < length t \<and> in_tag (t ! e) then walk_tag t (e + 1) else e)"
  by pat_completeness auto
termination by (relation "measure (\<lambda>(t, e). length t - e)") auto

declare walk_tag.simps [simp del]

definition token_end :: "jstr \<Rightarrow> nat \<Rightarrow> nat" where
  "token_end t index =
     (let e = walk_tag t (index + 1) in if e < length t \<and> t ! e = GT then e + 1 else e)"

lemma walk_tag_ge: "e \<le> walk_tag t e"
  by (induction t e rule: walk_tag.induct) (subst walk_tag.simps, auto)

lemma token_end_gt: "i < token_end t i"
  using walk_tag_ge [of "i + 1" t] by (auto simp: token_end_def Let_def)

function scan_from :: "jstr \<Rightarrow> nat option \<Rightarrow> tag_token list" where
  "scan_from t index =
     (case index of
        None \<Rightarrow> []
      | Some i \<Rightarrow>
          (let e = token_end t i in
           \<lparr>tt_start = i, tt_end = e, tt_token = slice t i e\<rparr> # scan_from t (index_of t [LT] e)))"
  by pat_completeness auto
termination
proof (relation "measure (\<lambda>(t, index). case index of None \<Rightarrow> 0 | Some i \<Rightarrow> Suc (length t - i))", goal_cases)
  case (2 t index i e)
  then show ?case using token_end_gt [of i t] by (auto simp: index_of_Some occurs_at_def split: option.splits)
qed simp

declare scan_from.simps [simp del]

definition scanTagTokens :: "jstr \<Rightarrow> tag_token list" where
  "scanTagTokens t = scan_from t (index_of t [LT] 0)"

definition escape_angle :: "code_unit \<Rightarrow> jstr" where
  "escape_angle c = (if c = LT then js ''&lt;'' else if c = GT then js ''&gt;'' else [c])"

definition escapeAngles :: "jstr \<Rightarrow> jstr" where
  "escapeAngles token = concat (map escape_angle token)"

definition isReservedDelimiterToken :: "jstr \<Rightarrow> bool" where
  "isReservedDelimiterToken token =
     (case RESERVED_INTENT token of
        None \<Rightarrow> False | Some name \<Rightarrow> map ascii_lower name \<in> set RESERVED_DELIMITER_NAMES)"

definition neutralize_step :: "jstr \<Rightarrow> jstr \<times> nat \<Rightarrow> tag_token \<Rightarrow> jstr \<times> nat" where
  "neutralize_step t st tok =
     (if \<not> isReservedDelimiterToken (tt_token tok) then st
      else (fst st @ slice t (snd st) (tt_start tok) @ escapeAngles (tt_token tok), tt_end tok))"

definition neutralizeReservedDelimiters :: "jstr \<Rightarrow> jstr" where
  "neutralizeReservedDelimiters t =
     (case foldl (neutralize_step t) ([], 0) (scanTagTokens t) of
        (out, cursor) \<Rightarrow> if cursor = 0 then t else out @ drop cursor t)"

fun hasEscapedKeyCollision :: "jsval \<Rightarrow> bool" where
  "hasEscapedKeyCollision (JArr vs) = (\<exists>v\<in>set vs. hasEscapedKeyCollision v)"
| "hasEscapedKeyCollision (JObj kvs) =
     ((\<exists>k\<in>set (map fst kvs). neutralizeReservedDelimiters k \<noteq> k \<and> neutralizeReservedDelimiters k \<in> set (map fst kvs)) \<or>
      (\<exists>(k, v)\<in>set kvs. hasEscapedKeyCollision v))"
| "hasEscapedKeyCollision _ = False"

fun neutralizeValue :: "jsval \<Rightarrow> jsval" where
  "neutralizeValue (JStr s) = JStr (neutralizeReservedDelimiters s)"
| "neutralizeValue (JArr vs) = JArr (map neutralizeValue vs)"
| "neutralizeValue (JObj kvs) =
     JObj (from_entries (map (\<lambda>(k, v). (neutralizeReservedDelimiters k, neutralizeValue v)) kvs))"
| "neutralizeValue v = v"

definition modelVisibleResult :: "jsval \<Rightarrow> jsval" where
  "modelVisibleResult value =
     (case value of
        JObj kvs \<Rightarrow>
          (let hidesThumbnail = (get_prop kvs (js ''kind'') = JStr (js ''image'') \<and> has_own kvs (js ''thumbnail'')) in
           if \<not> has_own kvs (js ''display'') \<and> \<not> hidesThumbnail then value
           else (let rest = map_delete kvs (js ''display'') in
                 if \<not> hidesThumbnail then JObj rest else JObj (map_delete rest (js ''thumbnail''))))
      | _ \<Rightarrow> value)"

section \<open>The same rule by recursion on the text\<close>

definition before_tag :: "jstr \<Rightarrow> jstr" where
  "before_tag s = takeWhile (\<lambda>c. c \<noteq> LT) s"

definition from_tag :: "jstr \<Rightarrow> jstr" where
  "from_tag s = dropWhile (\<lambda>c. c \<noteq> LT) s"

text \<open>For a text that starts with an opening bracket: its first token and what follows.\<close>

definition tag_body :: "jstr \<Rightarrow> jstr" where
  "tag_body s = takeWhile in_tag (tl s)"

definition tag_len :: "jstr \<Rightarrow> nat" where
  "tag_len s = (let e = Suc (length (tag_body s)) in if e < length s \<and> s ! e = GT then Suc e else e)"

lemma tag_len_pos [simp]: "0 < tag_len s" "tag_len s \<noteq> 0"
  by (simp_all add: tag_len_def Let_def)

function neutralize_ref :: "jstr \<Rightarrow> jstr" where
  "neutralize_ref s =
     (let r = from_tag s in
      if r = [] then s
      else before_tag s @
           (if isReservedDelimiterToken (take (tag_len r) r) then escapeAngles (take (tag_len r) r) else take (tag_len r) r) @
           neutralize_ref (drop (tag_len r) r))"
  by pat_completeness auto

lemma from_tag_le: "length (from_tag s) \<le> length s"
  by (simp add: from_tag_def length_dropWhile_le)

termination neutralize_ref
proof (relation "measure length")
  fix s r :: jstr
  assume r: "r = from_tag s" "r \<noteq> []"
  then have "0 < length r" "length r \<le> length s" using from_tag_le [of s] by simp_all
  then have "length r - tag_len r < length s" using tag_len_pos(1) [of r] by linarith
  then show "(drop (tag_len r) r, s) \<in> measure length" by simp
qed simp

declare neutralize_ref.simps [simp del]

lemma split_at_tag: "before_tag s @ from_tag s = s"
  by (simp add: before_tag_def from_tag_def)

lemma from_tag_hd: "from_tag s \<noteq> [] \<Longrightarrow> hd (from_tag s) = LT"
  using hd_dropWhile [of "\<lambda>c. c \<noteq> LT" s] by (simp add: from_tag_def)

lemma nth_before_tag: "j < length (before_tag s) \<Longrightarrow> s ! j \<noteq> LT"
proof -
  assume j: "j < length (before_tag s)"
  then have "before_tag s ! j \<noteq> LT"
    using nth_mem [OF j] set_takeWhileD [of _ "\<lambda>c. c \<noteq> LT" s] unfolding before_tag_def by blast
  then show ?thesis using j by (simp add: before_tag_def takeWhile_nth)
qed

lemma index_of_tag:
  "index_of t [LT] p =
     (if from_tag (drop p t) = [] then None else Some (p + length (before_tag (drop p t))))"
proof (cases "from_tag (drop p t) = []")
  case True
  have "t ! j \<noteq> LT" if "p \<le> j" "j < length t" for j
  proof -
    have "drop p t ! (j - p) \<in> set (drop p t)" using that by (intro nth_mem) simp
    moreover have "LT \<notin> set (drop p t)" using True by (auto simp: from_tag_def)
    moreover have "drop p t ! (j - p) = t ! j" using that by simp
    ultimately show ?thesis by metis
  qed
  then show ?thesis using True by (simp add: index_of_None occurs_at_single)
next
  case False
  let ?b = "before_tag (drop p t)" and ?r = "from_tag (drop p t)"
  have parts: "drop p t = ?b @ ?r" by (simp add: split_at_tag)
  then have "length t - p = length ?b + length ?r" by (metis length_append length_drop)
  moreover have "0 < length ?r" using False by blast
  ultimately have p: "p + length ?b < length t" by linarith
  have "t ! (p + length ?b) = drop p t ! length ?b" using p by simp
  also have "\<dots> = hd ?r" using parts False by (metis hd_conv_nth nth_append_length_plus add_0_right)
  finally have at: "t ! (p + length ?b) = LT" using from_tag_hd [OF False] by simp
  have "t ! j \<noteq> LT" if "p \<le> j" "j < p + length ?b" for j
    using nth_before_tag [of "j - p" "drop p t"] that p by simp
  then show ?thesis using False p at by (auto simp: index_of_Some occurs_at_single)
qed

lemma walk_tag_eq: "e \<le> length t \<Longrightarrow> walk_tag t e = e + length (takeWhile in_tag (drop e t))"
proof (induction t e rule: walk_tag.induct)
  case (1 t e)
  show ?case
  proof (cases "e < length t \<and> in_tag (t ! e)")
    case True
    then show ?thesis using 1 by (subst walk_tag.simps) (simp flip: Cons_nth_drop_Suc)
  next
    case False
    then have "takeWhile in_tag (drop e t) = []"
      using "1.prems" by (cases "e < length t") (simp_all flip: Cons_nth_drop_Suc)
    then show ?thesis using False by (subst walk_tag.simps) auto
  qed
qed

lemma token_end_eq:
  assumes "i < length t"
  shows "token_end t i = i + tag_len (drop i t)"
proof -
  have w: "walk_tag t (i + 1) = i + Suc (length (tag_body (drop i t)))"
    using assms walk_tag_eq [of "i + 1" t] by (simp add: tag_body_def drop_Suc tl_drop)
  then show ?thesis using assms by (auto simp: token_end_def tag_len_def Let_def)
qed

lemma neutralize_step_eq: "neutralize_step t (out, cursor) tok =
    (if isReservedDelimiterToken (tt_token tok)
     then (out @ slice t cursor (tt_start tok) @ escapeAngles (tt_token tok), tt_end tok) else (out, cursor))"
  by (simp add: neutralize_step_def)

lemma neutralize_fold:
  assumes "s = drop p t" "cursor \<le> p" "p \<le> length t" "cursor = 0 \<longrightarrow> out = []"
  shows "case foldl (neutralize_step t) (out, cursor) (scan_from t (index_of t [LT] p)) of (o', c) \<Rightarrow>
      o' @ drop c t = out @ slice t cursor p @ neutralize_ref s \<and> (c = 0 \<longrightarrow> o' = [])"
  using assms
proof (induction s arbitrary: p out cursor rule: neutralize_ref.induct)
  case (1 s)
  note s = "1.prems"(1)
  have join: "slice t cursor p @ drop p t = drop cursor t"
    using "1.prems"(2,3) by (metis append_take_drop_id drop_append diff_is_0_eq drop0 le_add_diff_inverse slice_def length_take min.absorb2)
  show ?case
  proof (cases "from_tag s = []")
    case True
    then show ?thesis using "1.prems" join by (subst scan_from.simps, subst neutralize_ref.simps) (simp add: index_of_tag)
  next
    case False
    let ?b = "before_tag s" and ?r = "from_tag s"
    let ?i = "p + length ?b" and ?n = "tag_len ?r"
    have parts: "s = ?b @ ?r" by (simp add: split_at_tag)
    have i: "?i < length t"
      using arg_cong [OF parts, of length] False s by (cases ?r) auto
    have r: "?r = drop ?i t" using parts s by (metis add.commute append_eq_conv_conj drop_drop)
    have e: "token_end t ?i = ?i + ?n" using token_end_eq [OF i] r by simp
    have n: "?i + ?n \<le> length t"
    proof -
      have "length (tag_body ?r) \<le> length (tl ?r)" unfolding tag_body_def by (rule length_takeWhile_le)
      then have "tag_len ?r \<le> length ?r" using False by (cases ?r) (auto simp: tag_len_def Let_def)
      then show ?thesis using r i by simp
    qed
    define tok where "tok = take ?n ?r"
    have tok: "slice t ?i (?i + ?n) = tok"
      unfolding tok_def slice_def using arg_cong [OF r, of "take ?n"] take_drop [of ?n ?i t] by (simp add: add.commute)
    have scan: "scan_from t (index_of t [LT] p) =
        \<lparr>tt_start = ?i, tt_end = ?i + ?n, tt_token = tok\<rparr> # scan_from t (index_of t [LT] (?i + ?n))"
      using False s e tok by (subst scan_from.simps) (simp add: index_of_tag Let_def)
    have b: "?b = slice t p ?i" using parts s i unfolding slice_def
      by (metis add.commute append_eq_conv_conj take_drop)
    have glue: "slice t a c @ slice t c d = slice t a d" if "a \<le> c" "c \<le> d" "d \<le> length t" for a c d
      using that by (simp add: slice_as_map upt_append_le [of a c d d])
    have drop_s: "drop ?n ?r = drop (?i + ?n) t" using r by (simp add: add.commute)
    have ref: "neutralize_ref s = ?b @ (if isReservedDelimiterToken tok then escapeAngles tok else tok) @ neutralize_ref (drop ?n ?r)"
      using False by (subst neutralize_ref.simps) (simp add: Let_def tok_def)
    note IH = "1.IH" [OF refl False]
    show ?thesis
    proof (cases "isReservedDelimiterToken tok")
      case True
      have "slice t cursor p @ ?b = slice t cursor ?i" using glue [of cursor p ?i] "1.prems"(2) i b by simp
      then have "slice t cursor p @ neutralize_ref s =
          slice t cursor ?i @ escapeAngles tok @ neutralize_ref (drop ?n ?r)"
        using ref True by (metis append.assoc)
      then show ?thesis
        using IH [OF drop_s, of "?i + ?n" "out @ slice t cursor ?i @ escapeAngles tok"] n True
        by (simp add: scan neutralize_step_eq)
    next
      case nonres: False
      have "slice t cursor p @ ?b @ tok = slice t cursor (?i + ?n)"
        using glue [of p ?i "?i + ?n"] glue [of cursor p "?i + ?n"] "1.prems"(2) n b tok by simp
      then have "slice t cursor p @ neutralize_ref s = slice t cursor (?i + ?n) @ neutralize_ref (drop ?n ?r)"
        using ref nonres by (metis append.assoc)
      then show ?thesis
        using IH [OF drop_s, of cursor out] n nonres "1.prems"(2,4)
        by (simp add: scan neutralize_step_eq)
    qed
  qed
qed

lemma neutralize_eq_ref: "neutralizeReservedDelimiters t = neutralize_ref t"
  using neutralize_fold [of t 0 t 0 "[]"]
  by (auto simp: neutralizeReservedDelimiters_def scanTagTokens_def split: prod.splits)

section \<open>Nothing reserved is left\<close>

definition clean :: "jstr \<Rightarrow> bool" where
  "clean t \<longleftrightarrow> (\<forall>tok\<in>set (scanTagTokens t). \<not> isReservedDelimiterToken (tt_token tok))"

function clean_ref :: "jstr \<Rightarrow> bool" where
  "clean_ref s \<longleftrightarrow>
     (let r = from_tag s in
      if r = [] then True
      else \<not> isReservedDelimiterToken (take (tag_len r) r) \<and> clean_ref (drop (tag_len r) r))"
  by pat_completeness auto
termination clean_ref
proof (relation "measure length")
  fix s r :: jstr
  assume r: "r = from_tag s" "r \<noteq> []"
  then have "0 < length r" "length r \<le> length s" using from_tag_le [of s] by simp_all
  then have "length r - tag_len r < length s" using tag_len_pos(1) [of r] by linarith
  then show "(drop (tag_len r) r, s) \<in> measure length" by simp
qed simp

declare clean_ref.simps [simp del]

lemma clean_scan:
  "s = drop p t \<Longrightarrow> (\<forall>tok\<in>set (scan_from t (index_of t [LT] p)). \<not> isReservedDelimiterToken (tt_token tok)) \<longleftrightarrow> clean_ref s"
proof (induction s arbitrary: p rule: clean_ref.induct)
  case (1 s)
  show ?case
  proof (cases "from_tag s = []")
    case True
    then show ?thesis using 1 by (subst scan_from.simps, subst clean_ref.simps) (simp add: index_of_tag)
  next
    case False
    let ?i = "p + length (before_tag s)" and ?r = "from_tag s"
    have parts: "s = before_tag s @ ?r" by (simp add: split_at_tag)
    have i: "?i < length t" using arg_cong [OF parts, of length] False "1.prems" by (cases ?r) auto
    have r: "?r = drop ?i t" using parts "1.prems" by (metis add.commute append_eq_conv_conj drop_drop)
    have e: "token_end t ?i = ?i + tag_len ?r" using token_end_eq [OF i] r by simp
    have tok: "slice t ?i (?i + tag_len ?r) = take (tag_len ?r) ?r"
      unfolding slice_def using arg_cong [OF r, of "take (tag_len ?r)"] take_drop [of "tag_len ?r" ?i t]
      by (simp add: add.commute)
    have "drop (tag_len ?r) ?r = drop (?i + tag_len ?r) t" using r by (simp add: add.commute)
    note IH = "1.IH" [OF refl False this]
    have "scan_from t (index_of t [LT] p) =
        \<lparr>tt_start = ?i, tt_end = ?i + tag_len ?r, tt_token = take (tag_len ?r) ?r\<rparr> #
        scan_from t (index_of t [LT] (?i + tag_len ?r))"
      using False "1.prems" e tok by (subst scan_from.simps) (simp add: index_of_tag Let_def)
    then show ?thesis using IH False by (subst clean_ref.simps) (simp add: Let_def)
  qed
qed

lemma clean_eq_ref: "clean t \<longleftrightarrow> clean_ref t"
  unfolding clean_def scanTagTokens_def by (rule clean_scan) simp

lemma from_tag_skip: "LT \<notin> set a \<Longrightarrow> from_tag (a @ s) = from_tag s"
  by (induction a) (auto simp: from_tag_def)

lemma clean_ref_skip: "LT \<notin> set a \<Longrightarrow> clean_ref (a @ s) = clean_ref s"
  by (subst (1 2) clean_ref.simps) (simp add: from_tag_skip)


lemma takeWhile_stop: "\<not> P z \<Longrightarrow> takeWhile P (xs @ z # ys) = takeWhile P xs"
  by (induction xs) auto

lemma dropWhile_stop: "\<not> P z \<Longrightarrow> dropWhile P (xs @ z # ys) = dropWhile P xs @ z # ys"
  by (induction xs) auto

text \<open>An ampersand ends a tag name and starts none, so text that follows a token after an escaped
  bracket does not change what the token names.\<close>

lemma amp_facts: "\<not> is_whitespace 38" "\<not> is_letter 38" "\<not> is_name_char 38" "(38 :: code_unit) \<noteq> 47"
  by (simp_all add: is_whitespace_def is_letter_def is_name_char_def)

lemma skip_solidus_amp: "skip_solidus (a @ 38 # y) = skip_solidus a @ 38 # y"
  by (cases a) (simp_all add: skip_solidus_def dropWhile_stop amp_facts)

lemma intent_amp: "RESERVED_INTENT (LT # b @ 38 # y) = RESERVED_INTENT (LT # b)"
proof (cases "skip_solidus (dropWhile is_whitespace b)")
  case Nil
  then show ?thesis
    by (simp add: RESERVED_INTENT_def dropWhile_stop skip_solidus_amp amp_facts)
next
  case (Cons d r)
  have "takeWhile is_name_char (d # r @ 38 # y) = takeWhile is_name_char (d # r)"
    using takeWhile_stop [of is_name_char 38 "d # r" y] amp_facts by simp
  then show ?thesis
    using Cons by (simp add: RESERVED_INTENT_def dropWhile_stop skip_solidus_amp amp_facts)
qed

lemma from_tag_LT [simp]: "from_tag (LT # s) = LT # s"
  by (simp add: from_tag_def)

lemma tag_len_cases:
  "tag_len (LT # s) = Suc (length (takeWhile in_tag s)) +
     (case dropWhile in_tag s of c # _ \<Rightarrow> if c = GT then 1 else 0 | [] \<Rightarrow> 0)"
proof -
  let ?w = "takeWhile in_tag s" and ?d = "dropWhile in_tag s"
  have "s = ?w @ ?d" by simp
  then have "s ! length ?w = hd ?d" "length s = length ?w + length ?d" if "?d \<noteq> []"
    using that by (metis hd_conv_nth nth_append_length_plus add_0_right, metis length_append)
  moreover have "?d = [] \<Longrightarrow> length s = length ?w" by (metis append_Nil2 takeWhile_dropWhile_id)
  ultimately show ?thesis by (cases ?d) (auto simp: tag_len_def tag_body_def Let_def simp del: dropWhile_eq_Nil_conv)
qed

lemma clean_after_tag:
  assumes body: "\<forall>c\<in>set body. in_tag c" and n: "clean_ref n" "n = [] \<or> hd n = LT \<or> hd n = 38"
    and res: "\<not> isReservedDelimiterToken (LT # body)"
  shows "clean_ref (LT # body @ n)"
proof -
  let ?w = "takeWhile in_tag n" and ?d = "dropWhile in_tag n"
  let ?s = "LT # body @ n"
  define g where "g = (case ?d of c # _ \<Rightarrow> if c = GT then [GT] else [] | [] \<Rightarrow> [])"
  have tw: "takeWhile in_tag (body @ n) = body @ ?w" "dropWhile in_tag (body @ n) = ?d"
    using body by (simp_all add: takeWhile_append2 dropWhile_append2)
  have len: "tag_len ?s = length (LT # body @ ?w @ g)"
    by (cases ?d) (simp_all add: tag_len_cases tw g_def del: dropWhile_eq_Nil_conv)
  define rest where "rest = drop (length g) ?d"
  have rest: "?d = g @ rest" unfolding g_def rest_def by (cases ?d) (auto simp del: dropWhile_eq_Nil_conv)
  have s: "?s = (LT # body @ ?w @ g) @ rest" using rest by (metis Cons_eq_appendI append.assoc takeWhile_dropWhile_id)
  have parts: "take (tag_len ?s) ?s = LT # body @ ?w @ g" "drop (tag_len ?s) ?s = rest"
    unfolding len by (subst s, simp)+
  have "RESERVED_INTENT (LT # body @ ?w @ g) = RESERVED_INTENT (LT # body)"
  proof (cases "n \<noteq> [] \<and> hd n = 38")
    case True
    then have "?w @ g = 38 # tl (?w @ g)" by (cases n) (simp_all add: in_tag_def LT_def GT_def)
    then show ?thesis using intent_amp by metis
  next
    case False
    then have "?w @ g = []" using n(2) by (cases n) (auto simp: in_tag_def g_def LT_def GT_def)
    then show ?thesis by simp
  qed
  then have "\<not> isReservedDelimiterToken (LT # body @ ?w @ g)" using res by (simp add: isReservedDelimiterToken_def)
  moreover have "clean_ref rest"
  proof -
    have "LT \<notin> set (?w @ g)"
      by (auto simp: g_def in_tag_def LT_def GT_def split: list.splits dest!: set_takeWhileD)
    moreover have "n = (?w @ g) @ rest" using rest by (metis append.assoc takeWhile_dropWhile_id)
    ultimately show ?thesis using n(1) clean_ref_skip by metis
  qed
  ultimately show ?thesis using parts by (subst clean_ref.simps) (simp add: Let_def)
qed

lemma clean_closed_tag:
  assumes "\<forall>c\<in>set body. in_tag c" "clean_ref n" "\<not> isReservedDelimiterToken (LT # body @ [GT])"
  shows "clean_ref (LT # body @ GT # n)"
proof -
  have "\<not> in_tag GT" by (simp add: in_tag_def)
  then have "tag_len (LT # body @ GT # n) = length (LT # body @ [GT])"
    using assms(1) by (simp add: tag_len_cases takeWhile_append2 dropWhile_append2)
  then show ?thesis using assms by (subst clean_ref.simps) (simp add: Let_def)
qed

lemma take_tag_len: "take (tag_len (LT # r)) (LT # r) = LT # takeWhile in_tag r @
    (case dropWhile in_tag r of c # _ \<Rightarrow> if c = GT then [GT] else [] | [] \<Rightarrow> [])"
  and drop_tag_len: "drop (tag_len (LT # r)) (LT # r) =
    (case dropWhile in_tag r of c # d \<Rightarrow> if c = GT then d else c # d | [] \<Rightarrow> [])"
proof -
  let ?w = "takeWhile in_tag r" and ?d = "dropWhile in_tag r"
  have "take (length ?w + k) r = ?w @ take k ?d" "drop (length ?w + k) r = drop k ?d" for k
    using take_append [of "length ?w + k" ?w ?d] drop_append [of "length ?w + k" ?w ?d] by simp_all
  then show "take (tag_len (LT # r)) (LT # r) = LT # ?w @ (case ?d of c # _ \<Rightarrow> if c = GT then [GT] else [] | [] \<Rightarrow> [])"
    and "drop (tag_len (LT # r)) (LT # r) = (case ?d of c # d \<Rightarrow> if c = GT then d else c # d | [] \<Rightarrow> [])"
    by (cases ?d; simp add: tag_len_cases del: dropWhile_eq_Nil_conv)+
qed

lemma no_LT_escape: "LT \<notin> set (escapeAngles tok)"
  by (auto simp: escapeAngles_def escape_angle_def LT_def GT_def js.simps split: if_splits)

lemma hd_neutralize_tag: "hd (neutralize_ref (LT # x)) = LT \<or> hd (neutralize_ref (LT # x)) = 38"
proof -
  have "hd (escapeAngles (LT # y) @ z) = 38" for y z
    by (simp add: escapeAngles_def escape_angle_def js.simps)
  then show ?thesis
    by (subst (1 2) neutralize_ref.simps) (simp add: Let_def before_tag_def take_tag_len)
qed

lemma neutralize_ref_Nil: "neutralize_ref [] = []"
  by (subst neutralize_ref.simps) (simp add: from_tag_def)

lemma neutralize_ref_is_clean: "clean_ref (neutralize_ref s)"
proof (induction s rule: neutralize_ref.induct)
  case (1 s)
  show ?case
  proof (cases "from_tag s")
    case Nil
    then show ?thesis by (subst neutralize_ref.simps, subst clean_ref.simps) simp
  next
    case (Cons c r)
    then have r: "from_tag s = LT # r" using from_tag_hd [of s] by simp
    let ?tok = "take (tag_len (LT # r)) (LT # r)" and ?n = "neutralize_ref (drop (tag_len (LT # r)) (LT # r))"
    have IH: "clean_ref ?n" using "1.IH" [OF refl] r by simp
    have pre: "LT \<notin> set (before_tag s)" by (auto simp: before_tag_def dest: set_takeWhileD)
    have eq: "neutralize_ref s = before_tag s @ (if isReservedDelimiterToken ?tok then escapeAngles ?tok else ?tok) @ ?n"
      using r by (subst neutralize_ref.simps) (simp add: Let_def)
    have body: "\<forall>c\<in>set (takeWhile in_tag r). in_tag c" by (auto dest: set_takeWhileD)
    have "clean_ref (?tok @ ?n)" if nr: "\<not> isReservedDelimiterToken ?tok"
    proof (cases "dropWhile in_tag r")
      case Nil
      then show ?thesis
        using nr clean_after_tag [OF body IH]
        by (simp add: take_tag_len drop_tag_len neutralize_ref_Nil del: dropWhile_eq_Nil_conv)
    next
      case d: (Cons c d)
      show ?thesis
      proof (cases "c = GT")
        case True
        then show ?thesis
          using nr d clean_closed_tag [OF body IH] by (simp add: take_tag_len drop_tag_len)
      next
        case False
        then have "c = LT" using d hd_dropWhile [of in_tag r] by (auto simp: in_tag_def)
        then show ?thesis
          using nr d False clean_after_tag [OF body IH] hd_neutralize_tag [of d]
          by (simp add: take_tag_len drop_tag_len)
      qed
    qed
    then show ?thesis using IH pre no_LT_escape eq by (simp add: clean_ref_skip)
  qed
qed

section \<open>Whole values\<close>

fun all_texts :: "jsval \<Rightarrow> jstr list" where
  "all_texts (JStr s) = [s]"
| "all_texts (JArr vs) = concat (map all_texts vs)"
| "all_texts (JObj kvs) = concat (map (\<lambda>(k, v). k # all_texts v) kvs)"
| "all_texts _ = []"

lemma set_fold_map_set: "set (fold (\<lambda>(k, v) m. map_set m k v) kvs m) \<subseteq> set m \<union> set kvs"
proof (induction kvs arbitrary: m)
  case (Cons kv kvs)
  have "set (map_set m k v) \<subseteq> insert (k, v) (set m)" for m :: "('a \<times> 'b) list" and k v
    by (induction m k v rule: map_set.induct) auto
  then show ?case using Cons.IH [of "map_set m (fst kv) (snd kv)"] by (cases kv) fastforce
qed simp

lemma set_from_entries: "set (from_entries kvs) \<subseteq> set kvs"
  using set_fold_map_set [of kvs "[]"] by (simp add: from_entries_def)

lemma neutralizeValue_clean: "s \<in> set (all_texts (neutralizeValue v)) \<Longrightarrow> clean s"
proof (induction v rule: neutralizeValue.induct)
  case (3 kvs)
  then obtain k' v' where kv: "(k', v') \<in> set (from_entries (map (\<lambda>(k, v). (neutralizeReservedDelimiters k, neutralizeValue v)) kvs))"
    "s = k' \<or> s \<in> set (all_texts v')" by auto
  then obtain k v where "(k, v) \<in> set kvs" "k' = neutralizeReservedDelimiters k" "v' = neutralizeValue v"
    using set_from_entries by fastforce
  then show ?case using kv(2) "3.IH" by (auto simp: clean_eq_ref neutralize_eq_ref neutralize_ref_is_clean)
qed (auto simp: clean_eq_ref neutralize_eq_ref neutralize_ref_is_clean)

section \<open>Properties\<close>



text \<open>The same holds for a whole JSON value: no object key and no string, at any depth of the
  walked value, carries a reserved token.\<close>

lemma neutralized_value_is_clean:
  "\<forall>s\<in>set (all_texts (neutralizeValue v)). clean s"
  by (auto intro: neutralizeValue_clean)

theorem neutralized_value_is_clean_witness:
  "clean (js ''&lt;skill&gt;'') \<and> js ''&lt;skill&gt;'' \<in> set (all_texts (neutralizeValue (JStr (js ''<skill>''))))"
proof -
  have "neutralizeReservedDelimiters (js ''<skill>'') = js ''&lt;skill&gt;''" by code_simp
  then have "js ''&lt;skill&gt;'' \<in> set (all_texts (neutralizeValue (JStr (js ''<skill>''))))" by simp
  then show ?thesis using neutralized_value_is_clean [of "JStr (js ''<skill>'')"] by blast
qed

text \<open>The collision check misses a collision. The keys \<^verbatim>\<open><skill>\<close> and \<^verbatim>\<open><skill&gt;\<close> escape to the
  same key, neither being the escaped spelling of the other; the check answers that nothing would
  be lost, and the walk drops the first member.\<close>

lemma collision_check_incomplete:
  "\<not> hasEscapedKeyCollision (JObj [(js ''<skill>'', JBool True), (js ''<skill&gt;'', JBool False)]) \<and>
   neutralizeValue (JObj [(js ''<skill>'', JBool True), (js ''<skill&gt;'', JBool False)]) =
     JObj [(js ''&lt;skill&gt;'', JBool False)]"
proof -
  have "neutralizeReservedDelimiters (js ''<skill>'') = js ''&lt;skill&gt;''"
    "neutralizeReservedDelimiters (js ''<skill&gt;'') = js ''&lt;skill&gt;''" by code_simp+
  then show ?thesis by (simp add: from_entries_def)
qed

text \<open>What the owner's display data holds never reaches the model: the visible part of a result
  has no \<^verbatim>\<open>display\<close> member, an image result has no \<^verbatim>\<open>thumbnail\<close>, and every other member keeps its
  value.\<close>

lemma display_never_visible:
  assumes "value = JObj kvs" "modelVisibleResult value = JObj kvs'"
  shows "map_of kvs' (js ''display'') = None \<and>
    (get_prop kvs (js ''kind'') = JStr (js ''image'') \<longrightarrow> map_of kvs' (js ''thumbnail'') = None) \<and>
    (\<forall>k. k \<noteq> js ''display'' \<and> (k \<noteq> js ''thumbnail'' \<or> get_prop kvs (js ''kind'') \<noteq> JStr (js ''image'')) \<longrightarrow>
       map_of kvs' k = map_of kvs k)"
  using assms by (auto simp: modelVisibleResult_def Let_def has_own_def split: if_splits)

theorem display_never_visible_witness:
  "modelVisibleResult (JObj [(js ''display'', JNull), (js ''a'', JBool True)]) = JObj [(js ''a'', JBool True)]"
proof -
  have eq: "modelVisibleResult (JObj [(js ''display'', JNull), (js ''a'', JBool True)]) =
      JObj (map_delete [(js ''display'', JNull), (js ''a'', JBool True)] (js ''display''))"
    by (simp add: modelVisibleResult_def has_own_def get_prop_def)
  have "map_of (map_delete [(js ''display'', JNull), (js ''a'', JBool True)] (js ''display'')) (js ''a'') = Some (JBool True)"
    using display_never_visible [OF refl eq] by simp
  then show ?thesis using eq by (simp add: map_delete_def)
qed

end
