(* ===== verification/Result_Truncation.thy ===== *)
theory Result_Truncation
  imports Json_Parse
begin

text \<open>
  Capping an oversized tool result without losing its shape
  (\<^verbatim>\<open>packages/runtime-safety/src/result-truncation.ts\<close>), the notice that names the stored artifact
  (\<^verbatim>\<open>artifact-notice.ts\<close>) and the surrogate-safe cut both use (\<^verbatim>\<open>code-point-boundary.ts\<close>).

  A result is its association list of members. The caller's \<^verbatim>\<open>measure\<close> is compared with
  \<^verbatim>\<open>measureJson\<close> by identity in the source, so \<open>measure_fn\<close> distinguishes the two. The order in
  which an object literal puts integer-like member names first is not tracked: no measure, guard
  or message depends on it.
\<close>

section \<open>Cutting between code points\<close>

definition codePointSafeCutIndex :: "jstr \<Rightarrow> nat \<Rightarrow> nat" where
  "codePointSafeCutIndex t index =
     (if 0 < index \<and> index < length t \<and> is_high_surrogate (t ! (index - 1)) \<and> is_low_surrogate (t ! index)
      then index - 1 else index)"

definition cutStringAtCodePointBoundary :: "jstr \<Rightarrow> nat \<Rightarrow> jstr" where
  "cutStringAtCodePointBoundary value limit =
     (if length value \<le> limit then value else slice value 0 (codePointSafeCutIndex value limit))"

section \<open>The artifact notice\<close>

definition ARTIFACT_NOT_STORED :: jstr where
  "ARTIFACT_NOT_STORED = js ''[full result not stored]''"

record notice_part =
  np_locator :: jstr
  np_lines :: nat

record host_files =
  hf_directory :: jstr
  hf_elsewhere :: bool
  hf_readable :: bool

record notice_options =
  no_continueWith :: "(jstr \<times> nat) option"
  no_hostFiles :: "host_files option"

definition is_line_break :: "code_unit \<Rightarrow> bool" where
  "is_line_break c \<longleftrightarrow> c = 13 \<or> c = 10 \<or> c = 0x2028 \<or> c = 0x2029"

text \<open>\<^verbatim>\<open>value.replaceAll(/[\r\n\u2028\u2029]+/gu, " ")\<close>: \<open>after\<close> is whether the previous unit was a break.\<close>

fun collapse_breaks :: "bool \<Rightarrow> jstr \<Rightarrow> jstr" where
  "collapse_breaks after [] = []"
| "collapse_breaks after (c # s) =
     (if is_line_break c then (if after then [] else [32]) @ collapse_breaks True s
      else c # collapse_breaks False s)"

definition oneLine :: "jstr \<Rightarrow> jstr" where
  "oneLine value = collapse_breaks False value"

definition hostFilesPhrase :: "host_files option \<Rightarrow> jstr" where
  "hostFilesPhrase h =
     (case h of
        None \<Rightarrow> []
      | Some f \<Rightarrow>
          (let directory = oneLine (hf_directory f) in
           if \<not> hf_elsewhere f then js ''; host files in '' @ directory
           else if hf_readable f then js ''; host files on the llame host only''
           else js ''; host files in '' @ directory @ js '' on the llame host''))"

definition artifactNotice :: "notice_part list \<Rightarrow> notice_options \<Rightarrow> jstr" where
  "artifactNotice parts opts =
     (let named = join (js '', '') (map (\<lambda>p. oneLine (np_locator p) @ js '' ('' @ nat_to_js (np_lines p) @ js '' '' @
                     (if np_lines p = 1 then js ''line'' else js ''lines'') @ js '')'') parts);
          continuation =
            (case no_continueWith opts of
               None \<Rightarrow> []
             | Some (locator, next_line) \<Rightarrow>
                 js ''; continue with '' @ oneLine locator @ js '':'' @ nat_to_js next_line @ js ''-'')
      in js ''[full result: '' @ named @ continuation @ hostFilesPhrase (no_hostFiles opts) @ js '']'')"

section \<open>Shrinking a value\<close>

definition RESULT_TRUNCATE_CHARS :: int where
  "RESULT_TRUNCATE_CHARS = 16000"

datatype capped_result_spill = Stored jstr nat "host_files option" | NotStored

definition measureJson :: "jsval \<Rightarrow> int" where
  "measureJson value = int (length (stringify_text value))"

datatype measure_fn = MeasureJson | MeasureWith "(jstr \<times> jsval) list \<Rightarrow> int"

fun measure_of :: "measure_fn \<Rightarrow> (jstr \<times> jsval) list \<Rightarrow> int" where
  "measure_of MeasureJson r = measureJson (JObj r)"
| "measure_of (MeasureWith f) r = f r"

record shortened_list =
  sl_path :: jstr
  sl_kept :: nat
  sl_total :: nat

definition NAMED_LIST_LIMIT :: nat where
  "NAMED_LIST_LIMIT = 3"

definition note_list :: "jstr \<Rightarrow> nat \<Rightarrow> nat \<Rightarrow> shortened_list list \<Rightarrow> shortened_list list" where
  "note_list path kept whole ls =
     (if kept < whole
      then ls @ [\<lparr>sl_path = (if path = [] then js ''the result'' else path), sl_kept = kept, sl_total = whole\<rparr>]
      else ls)"

lemma size_list_take: "size_list f (take n xs) \<le> size_list f xs"
  by (induction xs arbitrary: n) (auto simp: take_Cons' )

definition cap_list :: "bool \<Rightarrow> nat \<Rightarrow> 'a list \<Rightarrow> 'a list" where
  "cap_list keepAll limit xs = (if keepAll then xs else take limit xs)"

lemma size_cap_list: "size_list f (cap_list b n xs) \<le> size_list f xs"
  by (simp add: cap_list_def size_list_take)

text \<open>\<open>capValues\<close> and \<open>capRecord\<close> thread the list of shortened lists they find; \<open>cap_items\<close> is the
  callback over an array's kept elements with their index, \<open>cap_entries\<close> that over an object's
  kept entries.\<close>

function capValues :: "nat \<Rightarrow> bool \<Rightarrow> jsval \<Rightarrow> jstr \<Rightarrow> shortened_list list \<Rightarrow> jsval \<times> shortened_list list"
  and cap_items :: "nat \<Rightarrow> bool \<Rightarrow> jsval list \<Rightarrow> jstr \<Rightarrow> nat \<Rightarrow> shortened_list list \<Rightarrow> jsval list \<times> shortened_list list"
  and cap_entries :: "nat \<Rightarrow> bool \<Rightarrow> (jstr \<times> jsval) list \<Rightarrow> jstr \<Rightarrow> shortened_list list \<Rightarrow>
        (jstr \<times> jsval) list \<times> shortened_list list" where
  "capValues limit keepAll value path ls =
     (case value of
        JStr s \<Rightarrow> (JStr (cutStringAtCodePointBoundary s limit), ls)
      | JArr vs \<Rightarrow>
          (case cap_items limit keepAll (take limit vs) path 0 (note_list path (length (take limit vs)) (length vs) ls) of
             (xs, l) \<Rightarrow> (JArr xs, l))
      | JObj kvs \<Rightarrow>
          (case cap_entries limit keepAll (cap_list keepAll limit kvs) path ls of
             (xs, l) \<Rightarrow> (JObj (from_entries xs), l))
      | _ \<Rightarrow> (value, ls))"
| "cap_items limit keepAll vs path index ls =
     (case vs of
        [] \<Rightarrow> ([], ls)
      | v # vs' \<Rightarrow>
          (case capValues limit keepAll v (path @ js ''['' @ nat_to_js index @ js '']'') ls of
             (x, l) \<Rightarrow> (case cap_items limit keepAll vs' path (Suc index) l of (xs, l') \<Rightarrow> (x # xs, l'))))"
| "cap_entries limit keepAll kvs path ls =
     (case kvs of
        [] \<Rightarrow> ([], ls)
      | kv # kvs' \<Rightarrow>
          (case capValues limit keepAll (snd kv) (if path = [] then fst kv else path @ js ''.'' @ fst kv) ls of
             (x, l) \<Rightarrow>
               (case cap_entries limit keepAll kvs' path l of (xs, l') \<Rightarrow> ((fst kv, x) # xs, l'))))"
  by pat_completeness auto

termination
proof (relation "measure (\<lambda>x. case x of
      Inl (n, b, v, p, l) \<Rightarrow> size v
    | Inr (Inl (n, b, vs, p, i, l)) \<Rightarrow> size_list size vs
    | Inr (Inr (n, b, kvs, p, l)) \<Rightarrow> size_list (size_prod (\<lambda>_. 0) size) kvs)", goal_cases)
  case (2 limit keepAll v path ls vs)
  then show ?case using size_list_take [of size limit vs] by simp
next
  case (3 limit keepAll v path ls kvs)
  then show ?case using size_cap_list [of "size_prod (\<lambda>_. 0) size" keepAll limit kvs] by simp
next
  case (6 limit keepAll kvs path ls kv kvs')
  then show ?case by (cases kv) (simp add: size_prod_simp)
qed simp_all

declare capValues.simps [simp del] cap_items.simps [simp del] cap_entries.simps [simp del]

definition capRecord ::
    "nat \<Rightarrow> bool \<Rightarrow> (jstr \<times> jsval) list \<Rightarrow> jstr \<Rightarrow> shortened_list list \<Rightarrow> (jstr \<times> jsval) list \<times> shortened_list list" where
  "capRecord limit keepAll kvs path ls =
     (case cap_entries limit keepAll (cap_list keepAll limit kvs) path ls of (xs, l) \<Rightarrow> (from_entries xs, l))"

section \<open>The truncation marker\<close>

definition shortenedListPhrase :: "shortened_list list \<Rightarrow> jstr" where
  "shortenedListPhrase ls =
     (if ls = [] then []
      else
        (let ranked = sort_key (\<lambda>l. - (int (sl_total l) - int (sl_kept l))) ls;
             named = join (js ''; '') (map (\<lambda>l. sl_path l @ js '' kept '' @ nat_to_js (sl_kept l) @ js '' of '' @
                        nat_to_js (sl_total l)) (take NAMED_LIST_LIMIT ranked));
             remaining = length ranked - min (length ranked) NAMED_LIST_LIMIT;
             more = (if remaining > 0 then js '' (and '' @ nat_to_js remaining @ js '' more)'' else [])
         in js '' Lists shortened: '' @ named @ more @ js ''.''))"

definition omittedFieldPhrase :: "int \<Rightarrow> nat \<Rightarrow> jstr" where
  "omittedFieldPhrase omittedFields totalFields =
     (if omittedFields = 0 then []
      else js '' '' @ int_to_js omittedFields @ js '' of '' @ nat_to_js totalFields @ js '' result fields omitted entirely.'')"

definition spillPhrase :: "capped_result_spill option \<Rightarrow> jstr" where
  "spillPhrase spill =
     (case spill of
        None \<Rightarrow> []
      | Some NotStored \<Rightarrow> js '' '' @ ARTIFACT_NOT_STORED
      | Some (Stored locator lineCount hostFiles) \<Rightarrow>
          js '' '' @ artifactNotice [\<lparr>np_locator = locator, np_lines = lineCount\<rparr>]
            \<lparr>no_continueWith = Some (locator, 1), no_hostFiles = hostFiles\<rparr>)"

definition truncationNotice ::
    "int \<Rightarrow> shortened_list list \<Rightarrow> int \<Rightarrow> nat \<Rightarrow> capped_result_spill option \<Rightarrow> jstr" where
  "truncationNotice omittedUnits ls omittedFields totalFields spill =
     js ''Result truncated to fit the '' @ int_to_js RESULT_TRUNCATE_CHARS @ js ''-character tool-result cap; '' @
     int_to_js omittedUnits @ js '' characters omitted.'' @ omittedFieldPhrase omittedFields totalFields @
     shortenedListPhrase ls @ spillPhrase spill @ js '' '' @
     js ''Re-run this tool with narrower arguments if you need the omitted content.''"

section \<open>Display data\<close>

definition is_success :: "(jstr \<times> jsval) list \<Rightarrow> bool" where
  "is_success r \<longleftrightarrow> get_prop r (js ''status'') = JStr (js ''success'')"

fun displayAwareMeasure :: "measure_fn \<Rightarrow> jsval \<Rightarrow> measure_fn" where
  "displayAwareMeasure MeasureJson display = MeasureJson"
| "displayAwareMeasure (MeasureWith f) display =
     MeasureWith (\<lambda>c. if is_success c then f (map_set c (js ''display'') display) else f c)"

record display_split =
  ds_split :: bool
  ds_shown :: "(jstr \<times> jsval) list"
  ds_measure :: measure_fn
  ds_display :: jsval

definition splitDisplay :: "(jstr \<times> jsval) list \<Rightarrow> measure_fn \<Rightarrow> display_split" where
  "splitDisplay r m =
     (if \<not> is_success r \<or> \<not> has_own r (js ''display'')
      then \<lparr>ds_split = False, ds_shown = r, ds_measure = m, ds_display = JUndef\<rparr>
      else (let display = get_prop r (js ''display'') in
            \<lparr>ds_split = True, ds_shown = map_delete r (js ''display''),
             ds_measure = (if is_record display then displayAwareMeasure m display else m), ds_display = display\<rparr>))"

definition isOversizedResult :: "(jstr \<times> jsval) list \<Rightarrow> measure_fn \<Rightarrow> bool" where
  "isOversizedResult r m \<longleftrightarrow>
     is_success r \<and> measure_of (ds_measure (splitDisplay r m)) (ds_shown (splitDisplay r m)) > RESULT_TRUNCATE_CHARS"

section \<open>Truncation\<close>

definition is_alnum :: "code_unit \<Rightarrow> bool" where
  "is_alnum c \<longleftrightarrow> (65 \<le> c \<and> c \<le> 90) \<or> (97 \<le> c \<and> c \<le> 122) \<or> (48 \<le> c \<and> c \<le> 57)"

definition is_token :: "jstr \<Rightarrow> bool" where
  "is_token s \<longleftrightarrow> s \<noteq> [] \<and> is_alnum (hd s) \<and> (\<forall>c\<in>set s. is_alnum c \<or> c = 95 \<or> c = 45)"

definition is_counter :: "jstr \<Rightarrow> bool" where
  "is_counter s \<longleftrightarrow> s \<noteq> [] \<and> hd s \<noteq> 48 \<and> (\<forall>c\<in>set s. 48 \<le> c \<and> c \<le> 57)"

text \<open>\<^verbatim>\<open>^artifact:\/\/TOKEN-[1-9]\d*(?:\/TOKEN)?$\<close> with \<^verbatim>\<open>TOKEN = [A-Za-z0-9][A-Za-z0-9_-]*\<close>: some split
  of the text matches.\<close>

definition ARTIFACT_LOCATOR :: "jstr \<Rightarrow> bool" where
  "ARTIFACT_LOCATOR s \<longleftrightarrow>
     starts_with s (js ''artifact://'') \<and>
     (let rest = drop (length (js ''artifact://'')) s;
          name = takeWhile (\<lambda>c. c \<noteq> 47) rest;
          tail = dropWhile (\<lambda>c. c \<noteq> 47) rest
      in (\<exists>i\<in>set [0..<length name].
            name ! i = 45 \<and> is_token (take i name) \<and> is_counter (drop (Suc i) name)) \<and>
         (tail = [] \<or> is_token (tl tail)))"

definition ARTIFACT_LOCATOR_MAX_LENGTH :: nat where
  "ARTIFACT_LOCATOR_MAX_LENGTH = 512"

fun isArtifactLocatorValue :: "jsval \<Rightarrow> bool" where
  "isArtifactLocatorValue (JStr s) \<longleftrightarrow> length s \<le> ARTIFACT_LOCATOR_MAX_LENGTH \<and> ARTIFACT_LOCATOR s"
| "isArtifactLocatorValue _ \<longleftrightarrow> False"

definition pinnedFields :: "(jstr \<times> jsval) list \<Rightarrow> (jstr \<times> jsval) list" where
  "pinnedFields payload =
     (let kind = get_prop payload (js ''kind'');
          pinsMedia = ((kind = JStr (js ''image'') \<or> kind = JStr (js ''pdf'')) \<and> is_string (get_prop payload (js ''media'')))
      in (if pinsMedia then [(js ''media'', get_prop payload (js ''media''))] else []) @
         (if isArtifactLocatorValue (get_prop payload (js ''artifact''))
          then [(js ''artifact'', get_prop payload (js ''artifact''))] else []))"

record truncation_source =
  ts_payload :: "(jstr \<times> jsval) list"
  ts_pinned :: "(jstr \<times> jsval) list"
  ts_totalFields :: nat
  ts_json :: jstr
  ts_measured :: int
  ts_measure :: measure_fn
  ts_spill :: "capped_result_spill option"

text \<open>\<^verbatim>\<open>{ ...a, ...b }\<close>.\<close>

definition spread :: "(jstr \<times> jsval) list \<Rightarrow> (jstr \<times> jsval) list \<Rightarrow> (jstr \<times> jsval) list" where
  "spread a b = fold (\<lambda>(k, v) m. map_set m k v) b a"

definition buildTruncatedResult :: "truncation_source \<Rightarrow> nat \<Rightarrow> bool \<Rightarrow> (jstr \<times> jsval) list" where
  "buildTruncatedResult src limit keepAllFields =
     (let (capped, ls) = capRecord limit keepAllFields (ts_payload src) [] [];
          kept = spread capped (ts_pinned src);
          status = [(js ''status'', JStr (js ''success''))];
          omittedUnits = ts_measured src - measure_of (ts_measure src) (spread status kept)
      in spread (spread status kept)
           [(js ''truncated'', JBool True),
            (js ''truncationNotice'', JStr (truncationNotice omittedUnits ls
               (int (ts_totalFields src) - int (length kept)) (ts_totalFields src) (ts_spill src)))])"

function search_loop :: "truncation_source \<Rightarrow> bool \<Rightarrow> int \<Rightarrow> int \<Rightarrow> (jstr \<times> jsval) list \<Rightarrow> (jstr \<times> jsval) list" where
  "search_loop src keepAll low high best =
     (if low \<le> high
      then (let mid = (low + high) div 2; candidate = buildTruncatedResult src (nat mid) keepAll in
            if measure_of (ts_measure src) candidate \<le> RESULT_TRUNCATE_CHARS
            then search_loop src keepAll (mid + 1) high candidate
            else search_loop src keepAll low (mid - 1) best)
      else best)"
  by pat_completeness auto
termination
  by (relation "measure (\<lambda>(src, keepAll, low, high, best). nat (high - low + 1))") auto

declare search_loop.simps [simp del]

definition searchLargestFittingLimit :: "truncation_source \<Rightarrow> bool \<Rightarrow> (jstr \<times> jsval) list" where
  "searchLargestFittingLimit src keepAll =
     search_loop src keepAll 0 (int (length (ts_json src))) (buildTruncatedResult src 0 keepAll)"

datatype truncation_error = MalformedProjection

definition truncate_shown ::
    "(jstr \<times> jsval) list \<Rightarrow> measure_fn \<Rightarrow> capped_result_spill option \<Rightarrow> truncation_error + (jstr \<times> jsval) list" where
  "truncate_shown r m spill =
     (let measured = measure_of m r in
      if measured \<le> RESULT_TRUNCATE_CHARS then Inr r
      else (case json_projection (JObj r) of
              JObj parsed \<Rightarrow>
                if \<not> is_success parsed then Inl MalformedProjection
                else
                  (let payload = map_delete parsed (js ''status'');
                       src = \<lparr>ts_payload = payload, ts_pinned = pinnedFields payload, ts_totalFields = length payload,
                              ts_json = stringify_text (JObj r), ts_measured = measured, ts_measure = m, ts_spill = spill\<rparr>;
                       preserved = searchLargestFittingLimit src True
                   in Inr (if measure_of m preserved \<le> RESULT_TRUNCATE_CHARS then preserved
                           else searchLargestFittingLimit src False))
            | _ \<Rightarrow> Inl MalformedProjection))"

text \<open>The call the source makes on the display-free result splits nothing again, so it is
  \<open>truncate_shown\<close>.\<close>

definition truncateOversizedResult ::
    "(jstr \<times> jsval) list \<Rightarrow> measure_fn \<Rightarrow> capped_result_spill option \<Rightarrow> truncation_error + (jstr \<times> jsval) list" where
  "truncateOversizedResult r m spill =
     (if \<not> is_success r then Inr r
      else (let s = splitDisplay r m in
            if ds_split s
            then bind_res (truncate_shown (ds_shown s) (ds_measure s) spill) (\<lambda>capped.
                   Inr (if is_success capped then map_set capped (js ''display'') (ds_display s) else capped))
            else truncate_shown r m spill))"

section \<open>Cutting keeps code points whole\<close>

lemma cut_index_le: "codePointSafeCutIndex t i \<le> i" and cut_index_ge: "i \<le> Suc (codePointSafeCutIndex t i)"
  by (auto simp: codePointSafeCutIndex_def)

lemma cut_index_safe:
  assumes "i < length t"
  shows "pair_safe (take (codePointSafeCutIndex t i) t) (drop (codePointSafeCutIndex t i) t)"
proof -
  have at: "last (take j t) = t ! (j - 1) \<and> hd (drop j t) = t ! j" if "0 < j" "j < length t" for j
  proof -
    have "take j t \<noteq> []" using that by (cases t) auto
    then show ?thesis using that by (simp add: last_conv_nth hd_drop_conv_nth)
  qed
  show ?thesis
  proof (cases "codePointSafeCutIndex t i = i")
    case True
    then show ?thesis
      using assms at [of i] by (cases "i = 0") (auto simp: pair_safe_def codePointSafeCutIndex_def split: if_splits)
  next
    case False
    then have i: "0 < i" "is_high_surrogate (t ! (i - 1))" "codePointSafeCutIndex t i = i - 1"
      by (auto simp: codePointSafeCutIndex_def split: if_splits)
    then have "\<not> is_low_surrogate (t ! (i - 1))" using surrogates_disjoint by blast
    then show ?thesis using i assms at [of "i - 1"] by (cases "i - 1 = 0") (auto simp: pair_safe_def)
  qed
qed

section \<open>Shrinking keeps the shape\<close>

text \<open>A value is shrunk to another when strings and lists are cut to a prefix and everything else,
  member names included, stays.\<close>

inductive shrunk :: "jsval \<Rightarrow> jsval \<Rightarrow> bool" where
  same: "shrunk v v"
| text_cut: "shrunk (JStr s) (JStr (take n s))"
| list_cut: "list_all2 shrunk (take n vs) xs \<Longrightarrow> shrunk (JArr vs) (JArr xs)"
| members_cut: "list_all2 (\<lambda>a b. fst a = fst b \<and> shrunk (snd a) (snd b)) (take n kvs) xs \<Longrightarrow>
    shrunk (JObj kvs) (JObj xs)"

inductive_cases shrunk_StrE: "shrunk (JStr s) v"
inductive_cases shrunk_ArrE: "shrunk (JArr vs) v"
inductive_cases shrunk_ObjE: "shrunk (JObj kvs) v"

abbreviation member_shrunk :: "jstr \<times> jsval \<Rightarrow> jstr \<times> jsval \<Rightarrow> bool" where
  "member_shrunk a b \<equiv> fst a = fst b \<and> shrunk (snd a) (snd b)"

lemma cut_is_prefix: "\<exists>n. cutStringAtCodePointBoundary s limit = take n s"
  by (auto simp: cutStringAtCodePointBoundary_def slice_def intro: exI [of _ "length s"])

lemma cap_list_prefix: "\<exists>n. cap_list b limit xs = take n xs"
  by (auto simp: cap_list_def intro: exI [of _ "length xs"])

lemma member_shrunk_keys: "list_all2 member_shrunk kvs xs \<Longrightarrow> map fst xs = map fst kvs"
  by (induction rule: list_all2_induct) auto

lemma distinct_cap_list: "distinct (map fst kvs) \<Longrightarrow> distinct (map fst (cap_list b n kvs))"
  by (simp add: cap_list_def take_map [symmetric])

lemma cap_list_subset: "set (cap_list b n xs) \<subseteq> set xs"
  by (auto simp: cap_list_def dest: in_set_takeD)

lemma capValues_shrunk:
  "wf_val v \<Longrightarrow> shrunk v (fst (capValues limit keepAll v path ls))"
  "\<forall>v\<in>set vs. wf_val v \<Longrightarrow> list_all2 shrunk vs (fst (cap_items limit keepAll vs path i ls))"
  "\<forall>kv\<in>set kvs. wf_val (snd kv) \<Longrightarrow> list_all2 member_shrunk kvs (fst (cap_entries limit keepAll kvs path ls))"
proof (induction limit keepAll v path ls and limit keepAll vs path i ls and limit keepAll kvs path ls
    rule: capValues_cap_items_cap_entries.induct)
  case (1 limit keepAll v path ls)
  show ?case
  proof (cases v)
    case (JStr s)
    obtain n where "cutStringAtCodePointBoundary s limit = take n s" using cut_is_prefix by blast
    then show ?thesis using JStr by (simp add: capValues.simps shrunk.text_cut)
  next
    case (JArr vs)
    have "\<forall>v\<in>set (take limit vs). wf_val v" using "1.prems" JArr by (auto dest: in_set_takeD)
    from "1.IH"(1) [OF JArr this] show ?thesis
      using JArr by (auto simp: capValues.simps intro: shrunk.list_cut split: prod.splits)
  next
    case (JObj kvs)
    have "\<forall>kv\<in>set (cap_list keepAll limit kvs). wf_val (snd kv)"
      using "1.prems" JObj cap_list_subset by fastforce
    note IH = "1.IH"(2) [OF JObj this]
    have "distinct (map fst (fst (cap_entries limit keepAll (cap_list keepAll limit kvs) path ls)))"
      using member_shrunk_keys [OF IH] distinct_cap_list [of kvs] "1.prems" JObj by simp
    moreover obtain n where "cap_list keepAll limit kvs = take n kvs" using cap_list_prefix by blast
    ultimately show ?thesis
      using IH JObj by (auto simp: capValues.simps intro: shrunk.members_cut split: prod.splits)
  qed (simp_all add: capValues.simps shrunk.same)
next
  case (2 limit keepAll vs path i ls)
  show ?case
  proof (cases vs)
    case (Cons v vs')
    then show ?thesis
      using "2.IH"(1) [OF Cons] "2.IH"(2) [OF Cons prod.collapse] "2.prems"
      by (subst cap_items.simps) (simp add: case_prod_beta')
  qed (simp add: cap_items.simps)
next
  case (3 limit keepAll kvs path ls)
  show ?case
  proof (cases kvs)
    case (Cons kv kvs')
    then show ?thesis
      using "3.IH"(1) [OF Cons] "3.IH"(2) [OF Cons prod.collapse] "3.prems"
      by (subst cap_entries.simps) (simp add: case_prod_beta')
  qed (simp add: cap_entries.simps)
qed

lemma capRecord_shrunk:
  assumes "wf_val (JObj kvs)" "capRecord limit keepAll kvs path ls = (xs, l)"
  shows "list_all2 member_shrunk (cap_list keepAll limit kvs) xs" "distinct (map fst xs)"
proof -
  have "\<forall>kv\<in>set (cap_list keepAll limit kvs). wf_val (snd kv)" using assms(1) cap_list_subset by fastforce
  note e = capValues_shrunk(3) [OF this, of limit keepAll path ls]
  have d: "distinct (map fst (fst (cap_entries limit keepAll (cap_list keepAll limit kvs) path ls)))"
    using member_shrunk_keys [OF e] distinct_cap_list [of kvs] assms(1) by simp
  then have xs: "xs = fst (cap_entries limit keepAll (cap_list keepAll limit kvs) path ls)"
    using assms(2) by (simp add: capRecord_def case_prod_beta')
  show "list_all2 member_shrunk (cap_list keepAll limit kvs) xs" "distinct (map fst xs)"
    using e d xs by simp_all
qed

lemma shrunk_lookup:
  assumes "list_all2 member_shrunk kvs xs"
  shows "map_of xs k = None \<longleftrightarrow> map_of kvs k = None"
    and "map_of xs k = Some x \<Longrightarrow> \<exists>v. map_of kvs k = Some v \<and> shrunk v x"
  using assms by (induction rule: list_all2_induct) (auto split: if_splits)

lemma map_of_cap_list: "map_of (cap_list b n kvs) k = Some v \<Longrightarrow> map_of kvs k = Some v"
  unfolding cap_list_def
  by (auto split: if_splits) (metis append_take_drop_id map_of_append map_add_Some_iff map_add_def)

section \<open>The search\<close>

definition fits_at :: "truncation_source \<Rightarrow> bool \<Rightarrow> nat \<Rightarrow> bool" where
  "fits_at src keepAll n \<longleftrightarrow> measure_of (ts_measure src) (buildTruncatedResult src n keepAll) \<le> RESULT_TRUNCATE_CHARS"

lemma search_loop_result:
  "search_loop src keepAll low high best = best \<or>
   (\<exists>n. search_loop src keepAll low high best = buildTruncatedResult src n keepAll \<and> fits_at src keepAll n)"
proof (induction src keepAll low high best rule: search_loop.induct)
  case (1 src keepAll low high best)
  show ?case
    using 1 by (subst (1 2) search_loop.simps) (auto simp: Let_def fits_at_def)
qed

lemma search_result:
  "(\<exists>n. searchLargestFittingLimit src keepAll = buildTruncatedResult src n keepAll \<and> fits_at src keepAll n) \<or>
   searchLargestFittingLimit src keepAll = buildTruncatedResult src 0 keepAll \<and> \<not> fits_at src keepAll 0"
  unfolding searchLargestFittingLimit_def using search_loop_result by metis

lemma search_loop_largest:
  assumes "\<forall>n m. m \<le> n \<and> fits_at src keepAll n \<longrightarrow> fits_at src keepAll m" "0 \<le> low" "low \<le> high + 1"
    and "\<forall>n. n \<le> N \<and> fits_at src keepAll n \<longrightarrow> int n \<le> high"
    and "best = buildTruncatedResult src (nat (low - 1)) keepAll" "fits_at src keepAll (nat (low - 1))"
  shows "\<exists>b. search_loop src keepAll low high best = buildTruncatedResult src b keepAll \<and> fits_at src keepAll b \<and>
    (\<forall>n. n \<le> N \<and> fits_at src keepAll n \<longrightarrow> n \<le> b)"
  using assms
proof (induction src keepAll low high best rule: search_loop.induct)
  case (1 src keepAll low high best)
  let ?mid = "(low + high) div 2"
  show ?case
  proof (cases "low \<le> high")
    case False
    then have hi: "high = low - 1" using "1.prems"(3) by simp
    have "n \<le> nat (low - 1)" if "n \<le> N" "fits_at src keepAll n" for n
    proof -
      have "int n \<le> low - 1" using "1.prems"(4) that hi by blast
      then show ?thesis by linarith
    qed
    then show ?thesis using False "1.prems"(5,6) by (subst search_loop.simps) auto
  next
    case True
    then have mid: "low \<le> ?mid" "?mid \<le> high" by auto
    show ?thesis
    proof (cases "fits_at src keepAll (nat ?mid)")
      case fit: True
      have "search_loop src keepAll low high best =
          search_loop src keepAll (?mid + 1) high (buildTruncatedResult src (nat ?mid) keepAll)"
        using fit True by (subst search_loop.simps) (simp add: Let_def fits_at_def)
      then show ?thesis
        using "1.IH"(1) [OF True refl refl fit [unfolded fits_at_def] "1.prems"(1) _ _ "1.prems"(4)] fit "1.prems"(2) mid
        by simp
    next
      case nofit: False
      have "int n \<le> ?mid - 1" if n: "n \<le> N" "fits_at src keepAll n" for n
      proof (rule ccontr)
        assume "\<not> int n \<le> ?mid - 1"
        then have "nat ?mid \<le> n" by linarith
        then show False using "1.prems"(1) n(2) nofit by blast
      qed
      then have "\<forall>n. n \<le> N \<and> fits_at src keepAll n \<longrightarrow> int n \<le> ?mid - 1" by blast
      moreover have "search_loop src keepAll low high best = search_loop src keepAll low (?mid - 1) best"
        using nofit True by (subst search_loop.simps) (simp add: Let_def fits_at_def)
      ultimately show ?thesis
        using "1.IH"(2) [OF True refl refl nofit [unfolded fits_at_def] "1.prems"(1,2) _ _ "1.prems"(5,6)] mid by simp
    qed
  qed
qed

section \<open>The truncated result\<close>

definition source_of ::
    "(jstr \<times> jsval) list \<Rightarrow> measure_fn \<Rightarrow> capped_result_spill option \<Rightarrow> truncation_source" where
  "source_of r m spill =
     (let payload = map_delete (case json_projection (JObj r) of JObj p \<Rightarrow> p | _ \<Rightarrow> []) (js ''status'') in
      \<lparr>ts_payload = payload, ts_pinned = pinnedFields payload, ts_totalFields = length payload,
       ts_json = stringify_text (JObj r), ts_measured = measure_of m r, ts_measure = m, ts_spill = spill\<rparr>)"

lemma source_of_simps [simp]:
  "ts_measure (source_of r m spill) = m" "ts_json (source_of r m spill) = stringify_text (JObj r)"
  "ts_pinned (source_of r m spill) = pinnedFields (ts_payload (source_of r m spill))"
  by (simp_all add: source_of_def Let_def)

lemma map_of_projection:
  "distinct (map fst r) \<Longrightarrow> map_of (map (\<lambda>(k, v). (k, json_projection v)) (defined_entries r)) k =
    (case map_of r k of None \<Rightarrow> None | Some v \<Rightarrow> if v = JUndef then None else Some (json_projection v))"
proof (induction r)
  case (Cons kv r)
  obtain k' v' where kv: "kv = (k', v')" by fastforce
  have "map_of r k = None" if "k = k'" using Cons.prems kv that by (auto simp: map_of_eq_None_iff)
  then show ?case using Cons kv by (auto simp: defined_entries_def)
qed (simp add: defined_entries_def)

lemma projection_success: "wf_val (JObj r) \<Longrightarrow> is_success r \<Longrightarrow>
    is_success (map (\<lambda>(k, v). (k, json_projection v)) (defined_entries r))"
  by (cases "map_of r (js ''status'')") (simp_all add: is_success_def get_prop_def map_of_projection)

lemma truncate_shown_eq:
  assumes "wf_val (JObj r)" "is_success r" "measure_of m r > RESULT_TRUNCATE_CHARS"
  shows "truncate_shown r m spill =
    (let src = source_of r m spill; preserved = searchLargestFittingLimit src True in
     Inr (if measure_of m preserved \<le> RESULT_TRUNCATE_CHARS then preserved else searchLargestFittingLimit src False))"
  using assms projection_success [OF assms(1,2)]
  by (simp add: truncate_shown_def source_of_def Let_def)

lemma truncated_is_built:
  assumes "wf_val (JObj r)" "is_success r" "measure_of m r > RESULT_TRUNCATE_CHARS" "truncate_shown r m spill = Inr out"
  defines "src \<equiv> source_of r m spill"
  shows "(\<exists>n keepAll. out = buildTruncatedResult src n keepAll \<and> fits_at src keepAll n \<and> (fits_at src True 0 \<longrightarrow> keepAll)) \<or>
    out = buildTruncatedResult src 0 False \<and> \<not> fits_at src False 0 \<and> \<not> fits_at src True 0"
proof -
  have out: "out = (if measure_of m (searchLargestFittingLimit src True) \<le> RESULT_TRUNCATE_CHARS
      then searchLargestFittingLimit src True else searchLargestFittingLimit src False)"
    using truncate_shown_eq [OF assms(1-3), of spill] assms(4) by (simp add: src_def Let_def)
  have m: "ts_measure src = m" by (simp add: src_def)
  show ?thesis
  proof (cases "measure_of m (searchLargestFittingLimit src True) \<le> RESULT_TRUNCATE_CHARS")
    case True
    then show ?thesis using out search_result [of src True] m by (auto simp: fits_at_def)
  next
    case False
    then have "\<not> fits_at src True 0" using search_result [of src True] m by (auto simp: fits_at_def)
    then show ?thesis using out False search_result [of src False] by auto
  qed
qed

lemma map_of_spread: "map_of (spread a b) k = (case map_of (rev b) k of Some v \<Rightarrow> Some v | None \<Rightarrow> map_of a k)"
  unfolding spread_def
  by (induction b arbitrary: a) (auto simp: map_of_append map_add_def split: option.splits)

lemma wf_payload:
  assumes "wf_val (JObj r)"
  shows "wf_val (JObj (ts_payload (source_of r m spill)))"
proof -
  have "wf_val (json_projection (JObj r))" using assms by (rule wf_projection)
  then show ?thesis by (auto simp: source_of_def Let_def set_map_delete)
qed

lemma payload_no_status: "map_of (ts_payload (source_of r m spill)) (js ''status'') = None"
  by (simp add: source_of_def Let_def)

lemma pinned_lookup: "map_of (rev (pinnedFields p)) k = Some v \<Longrightarrow> (k = js ''media'' \<or> k = js ''artifact'') \<and> map_of p k = Some v"
  by (auto simp: pinnedFields_def Let_def get_prop_def split: if_splits option.splits)

definition markers :: "jstr set" where
  "markers = {js ''status'', js ''truncated'', js ''truncationNotice''}"

text \<open>What every candidate of the search looks like, whatever the limit.\<close>

definition candidate_of :: "(jstr \<times> jsval) list \<Rightarrow> bool \<Rightarrow> (jstr \<times> jsval) list \<Rightarrow> bool" where
  "candidate_of payload keepAll out \<longleftrightarrow>
     map_of out (js ''status'') = Some (JStr (js ''success'')) \<and> map_of out (js ''truncated'') = Some (JBool True) \<and>
     (\<exists>s. map_of out (js ''truncationNotice'') = Some (JStr s)) \<and>
     (\<forall>k v. map_of (rev (pinnedFields payload)) k = Some v \<longrightarrow> map_of out k = Some v) \<and>
     (\<forall>k x. k \<notin> markers \<and> map_of out k = Some x \<longrightarrow> (\<exists>v. map_of payload k = Some v \<and> shrunk v x)) \<and>
     (keepAll \<longrightarrow> (\<forall>k. map_of payload k \<noteq> None \<longrightarrow> map_of out k \<noteq> None))"

lemma build_candidate:
  assumes wf: "wf_val (JObj (ts_payload src))" and pin: "ts_pinned src = pinnedFields (ts_payload src)"
    and st: "map_of (ts_payload src) (js ''status'') = None"
  shows "candidate_of (ts_payload src) keepAll (buildTruncatedResult src n keepAll)"
proof -
  let ?p = "ts_payload src" and ?out = "buildTruncatedResult src n keepAll"
  obtain xs l where cap: "capRecord n keepAll ?p [] [] = (xs, l)" by fastforce
  note sh = capRecord_shrunk(1) [OF wf cap]
  define kept where "kept = spread xs (pinnedFields ?p)"
  obtain msg where out: "?out = spread (spread [(js ''status'', JStr (js ''success''))] kept)
      [(js ''truncated'', JBool True), (js ''truncationNotice'', JStr msg)]"
    unfolding buildTruncatedResult_def cap Let_def pin by (auto simp: kept_def)
  have xs: "\<exists>v. map_of ?p k = Some v \<and> shrunk v x" if "map_of xs k = Some x" for k x
    using shrunk_lookup(2) [OF sh that] map_of_cap_list by metis
  have kept: "map_of kept k = (case map_of (rev (pinnedFields ?p)) k of Some v \<Rightarrow> Some v | None \<Rightarrow> map_of xs k)" for k
    by (simp add: kept_def map_of_spread)
  have kept_val: "\<exists>v. map_of ?p k = Some v \<and> shrunk v x" if "map_of kept k = Some x" for k x
  proof (cases "map_of (rev (pinnedFields ?p)) k")
    case None
    then show ?thesis using that xs by (simp add: kept)
  next
    case (Some v)
    then show ?thesis using that pinned_lookup [OF Some] by (auto simp: kept intro: shrunk.same)
  qed
  have no_status: "map_of kept (js ''status'') = None"
    using kept_val [of "js ''status''"] st by (cases "map_of kept (js ''status'')") auto
  have merged: "map_of (spread [(js ''status'', JStr (js ''success''))] kept) k =
      (if k = js ''status'' then Some (JStr (js ''success'')) else map_of kept k)" for k
  proof -
    have "map_of (rev kept) k = map_of kept k"
    proof -
      have "distinct (map fst xs)" by (rule capRecord_shrunk(2) [OF wf cap])
      then have "distinct (map fst kept)" unfolding kept_def spread_def by (rule distinct_fold_map_set)
      then have "map_of (rev kept) = map_of kept" by (subst map_of_inject_set) (simp_all add: rev_map [symmetric])
      then show ?thesis by simp
    qed
    then show ?thesis using no_status by (auto simp: map_of_spread split: option.splits)
  qed
  have look: "map_of ?out k = (if k = js ''truncated'' then Some (JBool True)
      else if k = js ''truncationNotice'' then Some (JStr msg)
      else if k = js ''status'' then Some (JStr (js ''success'')) else map_of kept k)" for k
    unfolding out by (subst map_of_spread) (simp add: merged)
  have all: "map_of kept k \<noteq> None" if "keepAll" "map_of ?p k \<noteq> None" for k
  proof -
    have "map_of (cap_list keepAll n ?p) k \<noteq> None" using that by (simp add: cap_list_def)
    then have "map_of xs k \<noteq> None" using shrunk_lookup(1) [OF sh, of k] by simp
    then show ?thesis by (auto simp: kept split: option.splits)
  qed
  have pinned: "map_of ?out k = Some v" if "map_of (rev (pinnedFields ?p)) k = Some v" for k v
    using that pinned_lookup [OF that] by (auto simp: look kept)
  have kept_all: "\<forall>k. map_of ?p k \<noteq> None \<longrightarrow> map_of ?out k \<noteq> None" if keepAll
    using all [OF that] by (simp add: look)
  have vals: "\<forall>k x. k \<notin> markers \<and> map_of ?out k = Some x \<longrightarrow> (\<exists>v. map_of ?p k = Some v \<and> shrunk v x)"
    using kept_val by (simp add: look markers_def)
  show ?thesis
    unfolding candidate_of_def using kept_all vals pinned by (simp add: look)
qed

lemma source_candidate:
  "wf_val (JObj r) \<Longrightarrow> candidate_of (ts_payload (source_of r m spill)) keepAll (buildTruncatedResult (source_of r m spill) n keepAll)"
  by (rule build_candidate) (simp_all only: wf_payload source_of_simps payload_no_status)

lemma truncate_no_display:
  "is_success r \<Longrightarrow> \<not> has_own r (js ''display'') \<Longrightarrow> truncateOversizedResult r m spill = truncate_shown r m spill"
  by (simp add: truncateOversizedResult_def splitDisplay_def)

lemma truncation_shape:
  assumes "wf_val (JObj r)" "is_success r" "\<not> has_own r (js ''display'')" "measure_of m r > RESULT_TRUNCATE_CHARS"
  shows "\<exists>out keepAll. truncateOversizedResult r m spill = Inr out \<and>
    candidate_of (ts_payload (source_of r m spill)) keepAll out \<and>
    (fits_at (source_of r m spill) True 0 \<longrightarrow> keepAll)"
proof -
  obtain out where out: "truncate_shown r m spill = Inr out"
    using truncate_shown_eq [OF assms(1,2,4), of spill] by (simp add: Let_def)
  from truncated_is_built [OF assms(1,2,4) out] show ?thesis
    using source_candidate [OF assms(1)] out truncate_no_display [OF assms(2,3)] by metis
qed

lemma payload_lookup:
  assumes "wf_val (JObj r)" "k \<noteq> js ''status''" "map_of r k = Some (JStr s)"
  shows "map_of (ts_payload (source_of r m spill)) k = Some (JStr s)"
  using assms map_of_projection [of r k] by (simp add: source_of_def Let_def)

section \<open>Length of a serialization\<close>

lemma length_join: "x \<in> set xs \<Longrightarrow> length x \<le> length (join sep xs)"
  by (induction sep xs rule: join.induct) auto

lemma length_escape: "Suc 0 \<le> length (escape_unit c)"
  by (simp add: escape_unit_def unicode_escape_def)

lemma length_quote: "length s \<le> length (json_quote s)"
proof -
  have "length s \<le> length (quote_body s)"
  proof (induction s rule: quote_body.induct)
    case (3 c d s)
    then show ?case using length_escape [of c] by (cases "is_high_surrogate c \<and> is_low_surrogate d") auto
  qed (simp_all add: length_escape)
  then show ?thesis by (simp add: json_quote_def)
qed

lemma length_member:
  assumes "map_of kvs k = Some (JStr s)"
  shows "int (length s) \<le> measureJson (JObj kvs)"
proof -
  have "(k, JStr s) \<in> set (defined_entries kvs)" using assms by (auto simp: defined_entries_def dest: map_of_SomeD)
  then have "json_quote k @ js '':'' @ stringify_text (JStr s) \<in>
      set (map (\<lambda>kv. json_quote (fst kv) @ js '':'' @ stringify_text (snd kv)) (defined_entries kvs))" by force
  from length_join [OF this, of "js '',''"] length_quote [of s]
  show ?thesis by (simp add: measureJson_def del: set_map)
qed

section \<open>Properties\<close>

text \<open>A string is cut to at most the limit and at least one code unit short of it, the cut is a
  prefix, and it never separates a surrogate pair; a string within the limit is not cut.\<close>

lemma cut_keeps_code_points:
  "length (cutStringAtCodePointBoundary s n) \<le> n \<and>
   (\<exists>rest. s = cutStringAtCodePointBoundary s n @ rest \<and> pair_safe (cutStringAtCodePointBoundary s n) rest) \<and>
   min (length s) n \<le> Suc (length (cutStringAtCodePointBoundary s n)) \<and>
   (length s \<le> n \<longrightarrow> cutStringAtCodePointBoundary s n = s)"
proof (cases "length s \<le> n")
  case True
  then show ?thesis by (simp add: cutStringAtCodePointBoundary_def pair_safe_def)
next
  case False
  let ?i = "codePointSafeCutIndex s n"
  have "cutStringAtCodePointBoundary s n = take ?i s" using False by (simp add: cutStringAtCodePointBoundary_def slice_def)
  moreover have "s = take ?i s @ drop ?i s" by simp
  moreover have "pair_safe (take ?i s) (drop ?i s)" using False by (intro cut_index_safe) simp
  ultimately show ?thesis using False cut_index_le [of s n] cut_index_ge [of n s] by (metis (no_types, lifting)
      Suc_le_mono length_take min.absorb2 min_le_iff_disj nat_le_linear not_less_eq_eq order_trans)
qed

theorem cut_keeps_code_points_witness:
  "cutStringAtCodePointBoundary (js ''ab'') 5 = js ''ab''"
  using cut_keeps_code_points [of "js ''ab''" 5] by (simp add: length_js)

text \<open>Truncation keeps the shape the tool declared. For every oversized success result the
  capped copy exists (the code does not throw), keeps the \<^verbatim>\<open>success\<close> status, carries the truncation
  marker and a notice, keeps the pinned media and artifact locators exactly, and every other
  member it has is a member of the result's JSON projection whose value was shrunk in place:
  strings and lists cut to a prefix, nothing re-serialized, nothing invented. When emptying the
  values is enough to fit, every member of the result survives.\<close>

lemma truncation_keeps_shape:
  assumes "wf_val (JObj r)" "is_success r" "\<not> has_own r (js ''display'')" "measure_of m r > RESULT_TRUNCATE_CHARS"
  shows "\<exists>out keepAll. truncateOversizedResult r m spill = Inr out \<and>
    candidate_of (ts_payload (source_of r m spill)) keepAll out \<and>
    (fits_at (source_of r m spill) True 0 \<longrightarrow> keepAll)"
  using assms by (rule truncation_shape)

definition long_result :: "(jstr \<times> jsval) list" where
  "long_result = [(js ''status'', JStr (js ''success'')), (js ''text'', JStr (replicate 16001 120))]"

lemma long_result_facts:
  "wf_val (JObj long_result)" "is_success long_result" "\<not> has_own long_result (js ''display'')"
  "measure_of MeasureJson long_result > RESULT_TRUNCATE_CHARS"
proof -
  have "int (length (replicate 16001 (120 :: code_unit))) \<le> measureJson (JObj long_result)"
    by (rule length_member [of _ "js ''text''"]) (simp add: long_result_def)
  then show "measure_of MeasureJson long_result > RESULT_TRUNCATE_CHARS" by (simp add: RESULT_TRUNCATE_CHARS_def)
qed (simp_all add: long_result_def is_success_def get_prop_def has_own_def)

theorem truncation_keeps_shape_witness:
  "\<exists>out. truncateOversizedResult long_result MeasureJson None = Inr out \<and> map_of out (js ''truncated'') = Some (JBool True)"
  using truncation_keeps_shape [OF long_result_facts, of None] by (auto simp: candidate_of_def)



text \<open>The search ends at the largest limit that fits: when a smaller limit never measures more,
  no limit up to the length of the serialization that is larger than the one chosen fits.\<close>

lemma search_finds_largest:
  assumes "\<forall>n k. k \<le> n \<and> fits_at src keepAll n \<longrightarrow> fits_at src keepAll k" "fits_at src keepAll 0"
  shows "\<exists>b. searchLargestFittingLimit src keepAll = buildTruncatedResult src b keepAll \<and> fits_at src keepAll b \<and>
    (\<forall>n. n \<le> length (ts_json src) \<and> fits_at src keepAll n \<longrightarrow> n \<le> b)"
  unfolding searchLargestFittingLimit_def using assms by (intro search_loop_largest) auto

definition small_source :: truncation_source where
  "small_source = \<lparr>ts_payload = [], ts_pinned = [], ts_totalFields = 0, ts_json = [], ts_measured = 0,
     ts_measure = MeasureWith (\<lambda>_. 0), ts_spill = None\<rparr>"

theorem search_finds_largest_witness:
  "\<exists>b. searchLargestFittingLimit small_source True = buildTruncatedResult small_source b True \<and> fits_at small_source True b"
proof -
  have "fits_at small_source True n" for n by (simp add: fits_at_def small_source_def RESULT_TRUNCATE_CHARS_def)
  then show ?thesis using search_finds_largest [of small_source True] by blast
qed

lemma truncated_is_success:
  assumes "wf_val (JObj s)" "is_success s" "truncate_shown s m spill = Inr out"
  shows "is_success out"
proof (cases "measure_of m s > RESULT_TRUNCATE_CHARS")
  case True
  obtain n keepAll where "out = buildTruncatedResult (source_of s m spill) n keepAll"
    using truncated_is_built [OF assms(1,2) True assms(3)] by blast
  then show ?thesis
    using source_candidate [OF assms(1), of m spill keepAll n] by (simp add: candidate_of_def is_success_def get_prop_def)
next
  case False
  then show ?thesis using assms by (simp add: truncate_shown_def)
qed

lemma truncation_keeps_display:
  assumes wf: "wf_val (JObj r)" and r: "is_success r" "map_of r (js ''display'') = Some d"
    and out: "truncateOversizedResult r m spill = Inr out"
  shows "map_of out (js ''display'') = Some d"
proof -
  let ?s = "map_delete r (js ''display'')" and ?m = "if is_record d then displayAwareMeasure m d else m"
  have s: "is_success ?s" "wf_val (JObj ?s)"
    using r(1) wf by (auto simp: is_success_def get_prop_def set_map_delete)
  have "truncateOversizedResult r m spill = bind_res (truncate_shown ?s ?m spill)
      (\<lambda>capped. Inr (if is_success capped then map_set capped (js ''display'') d else capped))"
    using r by (simp add: truncateOversizedResult_def splitDisplay_def has_own_def get_prop_def Let_def cong: if_cong)
  then have "bind_res (truncate_shown ?s ?m spill)
      (\<lambda>capped. Inr (if is_success capped then map_set capped (js ''display'') d else capped)) = Inr out"
    using out by (rule subst)
  then obtain capped where capped: "truncate_shown ?s ?m spill = Inr capped"
    "Inr (if is_success capped then map_set capped (js ''display'') d else capped) = (Inr out :: truncation_error + _)"
    unfolding bind_res_Inr by blast
  then show ?thesis using truncated_is_success [OF s(2,1) capped(1)] by auto
qed

lemma truncation_unchanged:
  assumes "\<not> has_own r (js ''display'')" "\<not> isOversizedResult r m"
  shows "truncateOversizedResult r m spill = Inr r"
proof (cases "is_success r")
  case True
  then have "measure_of m r \<le> RESULT_TRUNCATE_CHARS" using assms by (simp add: isOversizedResult_def splitDisplay_def)
  then show ?thesis using truncate_no_display [OF True assms(1)] by (simp add: truncate_shown_def)
qed (simp add: truncateOversizedResult_def)

text \<open>What is not oversized is not touched: an error result is returned as it is, and so is
  a result without display data that \<^verbatim>\<open>isOversizedResult\<close> does not report. Display data is never
  shortened: whatever is cut from a success result, the capped result carries its display data unchanged.\<close>

lemma truncation_leaves_fitting:
  assumes "wf_val (JObj r)"
  shows "(\<not> is_success r \<longrightarrow> truncateOversizedResult r m spill = Inr r) \<and>
    (\<not> has_own r (js ''display'') \<and> \<not> isOversizedResult r m \<longrightarrow> truncateOversizedResult r m spill = Inr r) \<and>
    (\<forall>d out. is_success r \<and> map_of r (js ''display'') = Some d \<and> truncateOversizedResult r m spill = Inr out \<longrightarrow>
       map_of out (js ''display'') = Some d)"
proof (intro conjI)
  show "\<not> is_success r \<longrightarrow> truncateOversizedResult r m spill = Inr r" by (simp add: truncateOversizedResult_def)
qed (use truncation_keeps_display [OF assms] truncation_unchanged in blast)+

theorem truncation_leaves_fitting_witness:
  "truncateOversizedResult [(js ''status'', JStr (js ''error''))] MeasureJson None = Inr [(js ''status'', JStr (js ''error''))]"
  using truncation_leaves_fitting [of "[(js ''status'', JStr (js ''error''))]" MeasureJson None]
  by (simp add: is_success_def get_prop_def)

text \<open>The last-resort pass does not always fit. An image or PDF result whose pinned \<^verbatim>\<open>media\<close>
  locator is longer than the cap stays above the cap after truncation.\<close>

lemma pinned_media_exceeds_cap:
  assumes "wf_val (JObj r)" "is_success r" "\<not> has_own r (js ''display'')"
    and "map_of r (js ''kind'') = Some (JStr (js ''image''))" "map_of r (js ''media'') = Some (JStr s)" "length s > 16000"
  shows "\<exists>out. truncateOversizedResult r MeasureJson spill = Inr out \<and> measureJson (JObj out) > 16000"
proof -
  let ?p = "ts_payload (source_of r MeasureJson spill)"
  have big: "measure_of MeasureJson r > RESULT_TRUNCATE_CHARS"
    using length_member [OF assms(5)] assms(6) by (simp add: RESULT_TRUNCATE_CHARS_def)
  obtain out keepAll where out: "truncateOversizedResult r MeasureJson spill = Inr out" "candidate_of ?p keepAll out"
    using truncation_shape [OF assms(1-3) big] by blast
  have "map_of ?p (js ''kind'') = Some (JStr (js ''image''))" "map_of ?p (js ''media'') = Some (JStr s)"
    using assms by (simp_all add: payload_lookup)
  then have "map_of (rev (pinnedFields ?p)) (js ''media'') = Some (JStr s)"
    by (simp add: pinnedFields_def get_prop_def Let_def)
  then have "map_of out (js ''media'') = Some (JStr s)" using out(2) by (simp add: candidate_of_def)
  then show ?thesis using out(1) length_member [of out "js ''media''" s] assms(6) by fastforce
qed

theorem pinned_media_exceeds_cap_witness:
  "\<exists>out. truncateOversizedResult [(js ''status'', JStr (js ''success'')), (js ''kind'', JStr (js ''image'')),
      (js ''media'', JStr (replicate 16001 120))] MeasureJson None = Inr out \<and> measureJson (JObj out) > 16000"
  by (rule pinned_media_exceeds_cap [where s = "replicate 16001 120"])
    (simp_all add: is_success_def get_prop_def has_own_def)

end
