(* ===== verification/Bash_Output.thy ===== *)
theory Bash_Output
  imports Protected_Values Result_Truncation
begin

text \<open>
  What a command's output becomes before it is stored or shown
  (\<^verbatim>\<open>packages/bash-executor/src/output-bound.ts\<close>, \<^verbatim>\<open>sanitize.ts\<close>): the per-stream bound in code units or
  UTF-8 bytes, the managed boundary a context must offer, and the redaction of a captured stream
  that may have been cut inside a protected value or have a gap. Bounds and offsets are counts.
\<close>

section \<open>The output bound\<close>

datatype bound_kind = CodeUnits | Bytes

record stream_bound =
  sb_kind :: bound_kind
  sb_limit :: nat

record bash_executor_context =
  bc_secretBoundary :: bool
  bc_processIsolation :: bool
  bc_outputBound :: "nat option"
  bc_outputBoundBytes :: "nat option"
  bc_inputBound :: int
  bc_durationMs :: int
  bc_maxProcesses :: int

definition streamOutputBound :: "bash_executor_context \<Rightarrow> stream_bound" where
  "streamOutputBound ctx =
     (case bc_outputBoundBytes ctx of
        None \<Rightarrow> \<lparr>sb_kind = CodeUnits, sb_limit = (case bc_outputBound ctx of None \<Rightarrow> 0 | Some n \<Rightarrow> n)\<rparr>
      | Some n \<Rightarrow> \<lparr>sb_kind = Bytes, sb_limit = n\<rparr>)"

definition boundedLength :: "jstr \<Rightarrow> stream_bound \<Rightarrow> nat" where
  "boundedLength t bound = (case sb_kind bound of Bytes \<Rightarrow> byte_length t | CodeUnits \<Rightarrow> length t)"

text \<open>\<^verbatim>\<open>text.codePointAt(index)\<close> for an index inside the text.\<close>

definition code_point_at :: "jstr \<Rightarrow> nat \<Rightarrow> nat" where
  "code_point_at t i =
     (if Suc i < length t \<and> is_high_surrogate (t ! i) \<and> is_low_surrogate (t ! Suc i)
      then 65536 + (unat (t ! i) - 55296) * 1024 + (unat (t ! Suc i) - 56320)
      else unat (t ! i))"

definition utf8Width :: "nat \<Rightarrow> nat" where
  "utf8Width code = (if code \<le> 127 then 1 else if code \<le> 2047 then 2 else if code \<le> 65535 then 3 else 4)"

function utf8_loop :: "jstr \<Rightarrow> nat \<Rightarrow> nat \<Rightarrow> nat \<Rightarrow> nat" where
  "utf8_loop t limit bytes index =
     (if index < length t
      then (let code = code_point_at t index; bytes' = bytes + utf8Width code in
            if bytes' > limit then index
            else utf8_loop t limit bytes' (index + (if code > 65535 then 2 else 1)))
      else index)"
  by pat_completeness auto
termination
  by (relation "measure (\<lambda>(t, limit, bytes, index). length t - index)") auto

declare utf8_loop.simps [simp del]

definition utf8CutIndex :: "jstr \<Rightarrow> nat \<Rightarrow> nat" where
  "utf8CutIndex t limit = utf8_loop t limit 0 0"

definition cutLength :: "jstr \<Rightarrow> stream_bound \<Rightarrow> nat" where
  "cutLength t bound =
     (case sb_kind bound of
        Bytes \<Rightarrow> utf8CutIndex t (sb_limit bound)
      | CodeUnits \<Rightarrow> codePointSafeCutIndex t (min (length t) (sb_limit bound)))"

definition cutToBound :: "jstr \<Rightarrow> stream_bound \<Rightarrow> jstr" where
  "cutToBound t bound = (let index = cutLength t bound in if index = length t then t else take index t)"

section \<open>The managed boundary\<close>

definition boundary_holds :: "bash_executor_context \<Rightarrow> bool" where
  "boundary_holds ctx \<longleftrightarrow>
     bc_secretBoundary ctx \<and> bc_processIsolation ctx \<and> 0 < sb_limit (streamOutputBound ctx) \<and>
     0 < bc_inputBound ctx \<and> 0 < bc_durationMs ctx \<and> 0 < bc_maxProcesses ctx"

datatype boundary_refusal = BoundaryMissing

definition requireManagedBoundary :: "bash_executor_context \<Rightarrow> boundary_refusal option" where
  "requireManagedBoundary ctx =
     (if \<not> bc_secretBoundary ctx \<or> \<not> bc_processIsolation ctx \<or> sb_limit (streamOutputBound ctx) \<le> 0 \<or>
         bc_inputBound ctx \<le> 0 \<or> bc_durationMs ctx \<le> 0 \<or> bc_maxProcesses ctx \<le> 0
      then Some BoundaryMissing else None)"

section \<open>Redacting a captured stream\<close>

record stream_capture =
  cap_endedByLlame :: bool
  cap_gapAt :: "int option"

record sanitized_stream =
  ss_text :: jstr
  ss_truncated :: bool

record kept_capture =
  kc_text :: jstr
  kc_intervals :: "interval list"
  kc_dropped :: bool

record redaction =
  rd_values :: "jstr list"
  rd_longest :: nat

definition longestMemberLength :: "jstr list \<Rightarrow> nat" where
  "longestMemberLength pvs = fold (\<lambda>m longest. max longest (length m)) pvs 0"

definition isProperMemberPrefix :: "jstr \<Rightarrow> jstr list \<Rightarrow> bool" where
  "isProperMemberPrefix candidate pvs \<longleftrightarrow> (\<exists>m\<in>set pvs. length m > length candidate \<and> starts_with m candidate)"

definition isProperMemberSuffix :: "jstr \<Rightarrow> jstr list \<Rightarrow> bool" where
  "isProperMemberSuffix candidate pvs \<longleftrightarrow>
     (\<exists>m\<in>set pvs. length m > length candidate \<and> drop (length m - length candidate) m = candidate)"

definition longest_passing :: "nat \<Rightarrow> (nat \<Rightarrow> bool) \<Rightarrow> nat" where
  "longest_passing n P = (case find P (rev [1..<Suc n]) of Some l \<Rightarrow> l | None \<Rightarrow> 0)"

definition trailingMemberPrefixLength :: "jstr \<Rightarrow> redaction \<Rightarrow> nat" where
  "trailingMemberPrefixLength value r =
     longest_passing (min (rd_longest r - 1) (length value))
       (\<lambda>l. isProperMemberPrefix (drop (length value - l) value) (rd_values r))"

definition leadingMemberSuffixLength :: "jstr \<Rightarrow> redaction \<Rightarrow> nat" where
  "leadingMemberSuffixLength value r =
     longest_passing (min (rd_longest r - 1) (length value))
       (\<lambda>l. isProperMemberSuffix (take l value) (rd_values r))"

fun clipIntervals :: "interval list \<Rightarrow> nat \<Rightarrow> interval list" where
  "clipIntervals [] stop = []"
| "clipIntervals (i # ivs) stop =
     (if iv_start i \<ge> stop then []
      else iv (iv_start i) (min (iv_end i) stop) # clipIntervals ivs stop)"

definition tailIntervals :: "jstr \<Rightarrow> nat \<Rightarrow> nat \<Rightarrow> jstr list \<Rightarrow> interval list" where
  "tailIntervals tail tailDrop headLength pvs =
     map (\<lambda>i. iv (headLength + (iv_start i - tailDrop)) (headLength + iv_end i - tailDrop))
       (filter (\<lambda>i. \<not> iv_end i \<le> tailDrop) (protectedValueIntervals tail pvs))"

definition gap_offset :: "jstr \<Rightarrow> int \<Rightarrow> nat" where
  "gap_offset value gapAt = nat (max 0 (min gapAt (int (length value))))"

definition keptGap :: "jstr \<Rightarrow> int \<Rightarrow> redaction \<Rightarrow> kept_capture" where
  "keptGap value gapAt r =
     (let gap = gap_offset value gapAt; head = take gap value; tail = drop gap value;
          headDrop = trailingMemberPrefixLength head r; tailDrop = leadingMemberSuffixLength tail r;
          headText = take (length head - headDrop) head; tailText = drop tailDrop tail
      in \<lparr>kc_text = headText @ tailText,
          kc_intervals = clipIntervals (protectedValueIntervals head (rd_values r)) (length headText) @
            tailIntervals tail tailDrop (length headText) (rd_values r),
          kc_dropped = True\<rparr>)"

definition keptCapture :: "jstr \<Rightarrow> stream_capture option \<Rightarrow> redaction \<Rightarrow> kept_capture" where
  "keptCapture value capture r =
     (case Option.bind capture cap_gapAt of
        Some gapAt \<Rightarrow> keptGap value gapAt r
      | None \<Rightarrow>
          (let ended = (case capture of None \<Rightarrow> False | Some c \<Rightarrow> cap_endedByLlame c);
               drop_length = (if ended then trailingMemberPrefixLength value r else 0);
               keptEnd = length value - drop_length
           in \<lparr>kc_text = take keptEnd value,
               kc_intervals = clipIntervals (protectedValueIntervals value (rd_values r)) keptEnd,
               kc_dropped = drop_length > 0\<rparr>))"

fun replace_from :: "jstr \<Rightarrow> interval list \<Rightarrow> nat \<Rightarrow> nat \<Rightarrow> jstr" where
  "replace_from value [] stop cursor = slice value cursor stop"
| "replace_from value (i # ivs) stop cursor =
     (if iv_start i \<ge> stop then slice value cursor stop
      else (let clippedEnd = min (iv_end i) stop in
            slice value cursor (iv_start i) @
            (if clippedEnd - iv_start i \<ge> length PROTECTED_VALUE_REDACTION_MARKER
             then PROTECTED_VALUE_REDACTION_MARKER else []) @
            replace_from value ivs stop clippedEnd))"

definition replaceIntervals :: "jstr \<Rightarrow> interval list \<Rightarrow> nat \<Rightarrow> jstr" where
  "replaceIntervals value ivs stop = replace_from value ivs stop 0"

definition sanitizeStream :: "jstr \<Rightarrow> stream_bound \<Rightarrow> redaction \<Rightarrow> stream_capture option \<Rightarrow> sanitized_stream" where
  "sanitizeStream value bound r capture =
     (let kept = keptCapture value capture r; cut = cutLength (kc_text kept) bound
      in \<lparr>ss_text = replaceIntervals (kc_text kept) (kc_intervals kept) cut,
          ss_truncated = kc_dropped kept \<or> cut < length (kc_text kept)\<rparr>)"

text \<open>The fields both result shapes share; what else a result carries is kept as it is.\<close>

record bash_result =
  br_stdout :: jstr
  br_stderr :: jstr
  br_truncated :: bool

record result_captures =
  rc_stdout :: "stream_capture option"
  rc_stderr :: "stream_capture option"

definition sanitizeKnownResultAtBound ::
    "'a bash_result_scheme \<Rightarrow> stream_bound \<Rightarrow> jstr list \<Rightarrow> result_captures \<Rightarrow> 'a bash_result_scheme" where
  "sanitizeKnownResultAtBound res bound pvs captures =
     (let r = \<lparr>rd_values = pvs, rd_longest = longestMemberLength pvs\<rparr>;
          out = sanitizeStream (br_stdout res) bound r (rc_stdout captures);
          err = sanitizeStream (br_stderr res) bound r (rc_stderr captures)
      in res\<lparr>br_stdout := ss_text out, br_stderr := ss_text err,
             br_truncated := br_truncated res \<or> ss_truncated out \<or> ss_truncated err\<rparr>)"

definition sanitizeKnownResult ::
    "'a bash_result_scheme \<Rightarrow> bash_executor_context \<Rightarrow> jstr list \<Rightarrow> result_captures \<Rightarrow> 'a bash_result_scheme" where
  "sanitizeKnownResult res ctx pvs captures = sanitizeKnownResultAtBound res (streamOutputBound ctx) pvs captures"

section \<open>Cutting to the bound\<close>

text \<open>A cut at \<open>r\<close> keeps code points whole.\<close>

definition clean_cut :: "jstr \<Rightarrow> nat \<Rightarrow> bool" where
  "clean_cut t r \<longleftrightarrow> r \<le> length t \<and> pair_safe (take r t) (drop r t)"

lemma clean_cut_iff:
  "clean_cut t r \<longleftrightarrow> r \<le> length t \<and>
     (r = 0 \<or> r = length t \<or> \<not> (is_high_surrogate (t ! (r - 1)) \<and> is_low_surrogate (t ! r)))"
proof -
  have "last (take r t) = t ! (r - 1)" if "0 < r" "r \<le> length t"
    using that by (subst last_conv_nth) (auto simp: min_def)
  then show ?thesis by (auto simp: clean_cut_def pair_safe_def hd_drop_conv_nth)
qed

lemma byte_length_take_mono: "i \<le> j \<Longrightarrow> clean_cut t i \<Longrightarrow> byte_length (take i t) \<le> byte_length (take j t)"
proof -
  assume ij: "i \<le> j" and "clean_cut t i"
  have "take j t = take i t @ take (j - i) (drop i t)" using ij by (metis le_add_diff_inverse take_add)
  moreover have "pair_safe (take i t) (take (j - i) (drop i t))"
    using \<open>clean_cut t i\<close> by (auto simp: clean_cut_def pair_safe_def hd_take)
  ultimately show ?thesis by (metis byte_length_append le_add1)
qed

definition code_point_step :: "jstr \<Rightarrow> nat \<Rightarrow> nat" where
  "code_point_step t i = (if code_point_at t i > 65535 then 2 else 1)"

lemma code_point_facts:
  assumes "i < length t"
  shows "code_point_at t i > 65535 \<longleftrightarrow> Suc i < length t \<and> is_high_surrogate (t ! i) \<and> is_low_surrogate (t ! Suc i)"
    and "i + code_point_step t i \<le> length t"
    and "byte_length (slice t i (i + code_point_step t i)) = utf8Width (code_point_at t i)"
proof -
  have "unat (t ! i) < 65536" using unsigned_less [of "t ! i"] by simp
  then show pt: "code_point_at t i > 65535 \<longleftrightarrow> Suc i < length t \<and> is_high_surrogate (t ! i) \<and> is_low_surrogate (t ! Suc i)"
    by (auto simp: code_point_at_def)
  then show "i + code_point_step t i \<le> length t" using assms by (auto simp: code_point_step_def)
  show "byte_length (slice t i (i + code_point_step t i)) = utf8Width (code_point_at t i)"
  proof (cases "code_point_at t i > 65535")
    case True
    then have "slice t i (i + 2) = [t ! i, t ! Suc i]" using pt by (simp add: slice_as_map upt_rec)
    then show ?thesis using True pt by (simp add: code_point_step_def utf8Width_def)
  next
    case False
    then have "code_point_at t i = unat (t ! i)" using pt by (auto simp: code_point_at_def)
    moreover have "slice t i (i + 1) = [t ! i]" using assms by (simp add: slice_as_map)
    ultimately show ?thesis using False
      by (simp add: code_point_step_def utf8Width_def word_less_nat_alt word_le_nat_alt)
  qed
qed

lemma utf8_loop_cut:
  assumes "clean_cut t i" "byte_length (take i t) = b" "b \<le> limit"
  shows "clean_cut t (utf8_loop t limit b i) \<and> byte_length (take (utf8_loop t limit b i) t) \<le> limit \<and>
    (\<forall>j. clean_cut t j \<longrightarrow> byte_length (take j t) \<le> limit \<longrightarrow> j \<le> utf8_loop t limit b i)"
  using assms
proof (induction t limit b i rule: utf8_loop.induct)
  case (1 t limit b i)
  show ?case
  proof (cases "i < length t")
    case False
    then show ?thesis using "1.prems" by (subst (1 2 3) utf8_loop.simps) (auto simp: clean_cut_def)
  next
    case True
    let ?w = "utf8Width (code_point_at t i)" and ?n = "i + code_point_step t i"
    note step = code_point_facts [OF True]
    have cut: "take ?n t = take i t @ slice t i ?n" by (simp add: slice_def) (metis append_take_drop_id le_add1 min.absorb1 take_take)
    have n: "clean_cut t ?n"
      using True step(1,2) unfolding clean_cut_iff
      by (auto simp: code_point_step_def dest: surrogates_disjoint split: if_splits)
    have "pair_safe (take i t) (slice t i ?n)"
      using "1.prems"(1) by (auto simp: clean_cut_def pair_safe_def slice_def drop_take hd_take)
    then have bytes: "byte_length (take ?n t) = b + ?w"
      unfolding cut using "1.prems"(2) step(3) by (simp add: byte_length_append)
    show ?thesis
    proof (cases "b + ?w > limit")
      case True
      have "j \<le> i" if given: "clean_cut t j" "byte_length (take j t) \<le> limit" for j
      proof (rule ccontr)
        assume "\<not> j \<le> i"
        then have "?n \<le> j" if "code_point_step t i = 1" using that by simp
        moreover have "?n \<le> j" if two: "code_point_step t i = 2"
        proof -
          have "is_high_surrogate (t ! i)" "is_low_surrogate (t ! Suc i)" "Suc i < length t"
            using two step(1) by (auto simp: code_point_step_def split: if_splits)
          then have "j \<noteq> Suc i" using given(1) by (auto simp: clean_cut_iff)
          then show ?thesis using \<open>\<not> j \<le> i\<close> two by simp
        qed
        ultimately have "?n \<le> j" by (auto simp: code_point_step_def)
        then show False using byte_length_take_mono [OF _ n, of j] bytes given(2) True by simp
      qed
      then show ?thesis using True \<open>i < length t\<close> "1.prems" by (subst (1 2 3) utf8_loop.simps) (simp add: Let_def)
    next
      case False
      then have "utf8_loop t limit b i = utf8_loop t limit (b + ?w) ?n"
        using \<open>i < length t\<close> by (subst utf8_loop.simps) (simp add: Let_def code_point_step_def)
      then show ?thesis using "1.IH" [OF \<open>i < length t\<close> refl refl] False n bytes by (simp add: code_point_step_def)
    qed
  qed
qed

lemma cut_index_cases:
  obtains (split) "codePointSafeCutIndex t i = i - 1" "0 < i" "i < length t" "is_high_surrogate (t ! (i - 1))" "is_low_surrogate (t ! i)"
  | (whole) "codePointSafeCutIndex t i = i" "\<not> (0 < i \<and> i < length t \<and> is_high_surrogate (t ! (i - 1)) \<and> is_low_surrogate (t ! i))"
  unfolding codePointSafeCutIndex_def by (metis (full_types))

lemma cut_index_clean: "i \<le> length t \<Longrightarrow> clean_cut t (codePointSafeCutIndex t i)"
proof (cases rule: cut_index_cases [of t i])
  case split
  then have "\<not> is_low_surrogate (t ! (i - 1))" by (simp add: surrogates_disjoint)
  then show ?thesis using split(1-3) unfolding clean_cut_iff split(1) by linarith
next
  case whole
  assume "i \<le> length t"
  then show ?thesis using whole(2) unfolding clean_cut_iff whole(1) by linarith
qed

lemma cut_index_best: "clean_cut t j \<Longrightarrow> j \<le> i \<Longrightarrow> j \<le> codePointSafeCutIndex t i"
proof (cases rule: cut_index_cases [of t i])
  case split
  assume j: "clean_cut t j" "j \<le> i"
  then have "j \<noteq> i" using split(2-) unfolding clean_cut_iff by force
  then show ?thesis using j(2) split(1) by linarith
qed simp

lemma cutLength_best:
  "clean_cut t (cutLength t bound) \<and> boundedLength (take (cutLength t bound) t) bound \<le> sb_limit bound \<and>
   (\<forall>j. clean_cut t j \<longrightarrow> boundedLength (take j t) bound \<le> sb_limit bound \<longrightarrow> j \<le> cutLength t bound)"
proof (cases "sb_kind bound")
  case Bytes
  have "clean_cut t 0" by (simp add: clean_cut_iff)
  from utf8_loop_cut [OF this, of 0 "sb_limit bound"] show ?thesis
    using Bytes by (simp add: cutLength_def boundedLength_def utf8CutIndex_def)
next
  case CodeUnits
  define i where "i = min (length t) (sb_limit bound)"
  have cut: "cutLength t bound = codePointSafeCutIndex t i" using CodeUnits by (simp add: cutLength_def i_def)
  have "codePointSafeCutIndex t i \<le> i" by (simp add: codePointSafeCutIndex_def)
  then have "length (take (codePointSafeCutIndex t i) t) \<le> sb_limit bound" by (simp add: i_def)
  moreover have "j \<le> codePointSafeCutIndex t i" if "clean_cut t j" "length (take j t) \<le> sb_limit bound" for j
    using that cut_index_best [of t j i] by (simp add: clean_cut_def i_def)
  moreover have "clean_cut t (codePointSafeCutIndex t i)" by (rule cut_index_clean) (simp add: i_def)
  ultimately show ?thesis using CodeUnits by (simp add: cut boundedLength_def)
qed

section \<open>Replacement never grows a stream\<close>

lemma byte_length_Cons_low: "is_low_surrogate d \<Longrightarrow> byte_length (d # s) = 3 + byte_length s"
  by (cases s) (auto dest: surrogates_disjoint simp: is_low_surrogate_def word_less_nat_alt word_le_nat_alt)

lemma byte_length_join:
  "byte_length (a @ b) + (if pair_safe a b then 0 else 2) = byte_length a + byte_length b"
proof (cases "pair_safe a b")
  case False
  then obtain a' c d b' where ab: "a = a' @ [c]" "b = d # b'" "is_high_surrogate c" "is_low_surrogate d"
    by (cases a rule: rev_cases; cases b) (auto simp: pair_safe_def)
  have "\<not> is_low_surrogate c" using ab(3) by (rule surrogates_disjoint)
  then have "pair_safe a' (c # d # b')" "pair_safe a' [c]" by (auto simp: pair_safe_def)
  then have "byte_length (a' @ c # d # b') = byte_length a' + byte_length (c # d # b')"
    "byte_length (a' @ [c]) = byte_length a' + byte_length [c]" by (auto dest: byte_length_append)
  moreover have "byte_length [c] = 3" using ab(3) by (auto simp: is_high_surrogate_def word_less_nat_alt word_le_nat_alt)
  ultimately show ?thesis using False ab byte_length_Cons_low [OF ab(4), of b'] by simp
qed (simp add: byte_length_append)

lemma byte_length_last_high: "s \<noteq> [] \<Longrightarrow> is_high_surrogate (last s) \<Longrightarrow> length s + 2 \<le> byte_length s"
proof (cases s rule: rev_exhaust)
  case (snoc s' c)
  assume "is_high_surrogate (last s)"
  then have "\<not> is_low_surrogate c" "byte_length [c] = 3"
    using snoc surrogates_disjoint by (auto simp: is_high_surrogate_def word_less_nat_alt word_le_nat_alt)
  then show ?thesis using snoc byte_length_append [of s' "[c]"] byte_length_bounds [of s'] by (simp add: pair_safe_def)
qed simp

lemma byte_length_ends:
  assumes "s \<noteq> []"
  shows "length s + (if is_low_surrogate (hd s) then 2 else 0) + (if is_high_surrogate (last s) then 2 else 0) \<le> byte_length s"
proof (cases "is_low_surrogate (hd s)")
  case True
  with assms obtain c s' where s: "s = c # s'" "is_low_surrogate c" by (cases s) auto
  have n: "byte_length s = 3 + byte_length s'" "length s' \<le> byte_length s'" "length s = length s' + 1"
    using byte_length_Cons_low [OF s(2), of s'] byte_length_bounds [of s'] s(1) by simp_all
  show ?thesis
  proof (cases "is_high_surrogate (last s)")
    case True
    then have "s' \<noteq> []" using s surrogates_disjoint [of c] by (cases s') simp_all
    then have "length s' + 2 \<le> byte_length s'" using True s(1) by (intro byte_length_last_high) simp_all
    then show ?thesis using n by simp
  qed (use n in simp)
next
  case False
  have "length s \<le> byte_length s" using byte_length_bounds [of s] by blast
  then show ?thesis using False byte_length_last_high [OF assms] by simp
qed

lemma byte_length_around:
  assumes "m \<noteq> []"
  shows "byte_length a + length m + byte_length b \<le> byte_length (a @ m @ b)"
proof -
  have "pair_safe a (m @ b) \<or> is_low_surrogate (hd m)" "pair_safe m b \<or> is_high_surrogate (last m)"
    using assms by (auto simp: pair_safe_def)
  then show ?thesis
    using byte_length_ends [OF assms] byte_length_join [of a "m @ b"] byte_length_join [of m b] by (auto split: if_splits)
qed

lemma byte_length_append_le: "byte_length (a @ b) \<le> byte_length a + byte_length b"
  using byte_length_join [of a b] by linarith

lemma swap_fits:
  assumes "length m \<le> length i" "byte_length m = length m"
  shows "boundedLength (a @ m @ b) bound \<le> boundedLength (a @ i @ b) bound"
proof (cases "sb_kind bound")
  case Bytes
  show ?thesis
  proof (cases "i = []")
    case False
    have "byte_length (a @ m @ b) \<le> byte_length a + byte_length m + byte_length b"
      using byte_length_append_le [of a "m @ b"] byte_length_append_le [of m b] by linarith
    also have "\<dots> \<le> byte_length (a @ i @ b)" using byte_length_around [OF False, of a b] assms by linarith
    finally show ?thesis using Bytes by (simp add: boundedLength_def)
  qed (use assms in simp)
qed (use assms in \<open>simp add: boundedLength_def\<close>)

fun chained :: "nat \<Rightarrow> interval list \<Rightarrow> bool" where
  "chained c [] \<longleftrightarrow> True"
| "chained c (i # ivs) \<longleftrightarrow> c \<le> iv_start i \<and> iv_start i \<le> iv_end i \<and> chained (iv_end i) ivs"

lemma chained_weaken: "chained d ivs \<Longrightarrow> c \<le> d \<Longrightarrow> chained c ivs"
  by (cases ivs) auto

lemma slice_split: "a \<le> b \<Longrightarrow> b \<le> c \<Longrightarrow> slice s a c = slice s a b @ slice s b c"
  by (rule nth_equalityI) (auto simp: slice_def nth_append min_def add.commute)

lemma marker_bytes [simp]:
  "byte_length PROTECTED_VALUE_REDACTION_MARKER = 10" "length PROTECTED_VALUE_REDACTION_MARKER = 10"
  by (simp_all add: PROTECTED_VALUE_REDACTION_MARKER_def js.simps is_high_surrogate_def is_low_surrogate_def)

lemma replace_from_fits:
  assumes "chained cursor ivs" "cursor \<le> stop" "stop \<le> length v"
  shows "boundedLength (pre @ replace_from v ivs stop cursor) bound \<le> boundedLength (pre @ slice v cursor stop) bound"
  using assms
proof (induction v ivs stop cursor arbitrary: pre rule: replace_from.induct)
  case (2 v i ivs stop cursor)
  let ?s = "iv_start i" and ?e = "min (iv_end i) stop"
  show ?case
  proof (cases "?s \<ge> stop")
    case False
    let ?m = "if ?e - ?s \<ge> 10 then PROTECTED_VALUE_REDACTION_MARKER else []"
    have le: "cursor \<le> ?s" "?s \<le> ?e" "?e \<le> stop" "chained ?e ivs"
      using "2.prems" False by (auto intro: chained_weaken)
    have "length (slice v ?s ?e) = ?e - ?s" using le "2.prems" by (simp add: slice_def)
    then have m: "length ?m \<le> length (slice v ?s ?e)" "byte_length ?m = length ?m" by auto
    have "boundedLength (pre @ replace_from v (i # ivs) stop cursor) bound =
        boundedLength ((pre @ slice v cursor ?s @ ?m) @ replace_from v ivs stop ?e) bound"
      using False by (simp add: Let_def)
    also have "\<dots> \<le> boundedLength ((pre @ slice v cursor ?s @ ?m) @ slice v ?e stop) bound"
      using "2.IH" [OF _ refl le(4,3) "2.prems"(3)] False by blast
    also have "\<dots> \<le> boundedLength ((pre @ slice v cursor ?s) @ slice v ?s ?e @ slice v ?e stop) bound"
      using swap_fits [OF m, of "pre @ slice v cursor ?s"] by simp
    also have "\<dots> = boundedLength (pre @ slice v cursor stop) bound"
      using le slice_split [of cursor ?s stop v] slice_split [of ?s ?e stop v] by simp
    finally show ?thesis .
  qed simp
qed simp

section \<open>What is kept\<close>




definition redaction_of :: "jstr list \<Rightarrow> redaction" where
  "redaction_of pvs = \<lparr>rd_values = pvs, rd_longest = longestMemberLength pvs\<rparr>"




lemma chained_intervals:
  "separated ivs \<Longrightarrow> \<forall>i\<in>set ivs. iv_ok v i \<Longrightarrow> \<forall>i\<in>set ivs. c \<le> iv_start i \<Longrightarrow> chained c ivs"
  by (induction ivs arbitrary: c) (auto simp: separated_def iv_ok_def less_imp_le)

lemma chained_members: "chained 0 (protectedValueIntervals v pvs)"
  using intervals_exact [of v pvs] by (intro chained_intervals) auto

lemma chained_iset: "chained c ivs \<Longrightarrow> iset ivs \<subseteq> {c..}"
proof (induction ivs arbitrary: c)
  case (Cons i ivs)
  then have "iset ivs \<subseteq> {iv_end i..}" "c \<le> iv_start i" "iv_start i \<le> iv_end i" by simp_all
  then show ?case by auto
qed simp

lemma clip_facts:
  "chained c ivs \<Longrightarrow> chained c (clipIntervals ivs stop) \<and> (\<forall>i\<in>set (clipIntervals ivs stop). iv_end i \<le> stop) \<and>
   iset (clipIntervals ivs stop) = iset ivs \<inter> {..<stop}"
proof (induction ivs arbitrary: c)
  case (Cons i ivs)
  have all: "iset (i # ivs) \<subseteq> {iv_start i..}" using Cons.prems by (intro chained_iset) simp
  show ?case
  proof (cases "iv_start i \<ge> stop")
    case True
    then have "iset (i # ivs) \<inter> {..<stop} = {}" using all by fastforce
    then show ?thesis using True by simp
  next
    case False
    note IH = Cons.IH [of "iv_end i"]
    have "chained (min (iv_end i) stop) (clipIntervals ivs stop)"
      using IH Cons.prems by (auto intro: chained_weaken)
    then show ?thesis using False IH Cons.prems by auto
  qed
qed simp

lemma chained_append: "chained c xs \<Longrightarrow> \<forall>i\<in>set xs. iv_end i \<le> d \<Longrightarrow> c \<le> d \<Longrightarrow> chained d ys \<Longrightarrow> chained c (xs @ ys)"
  by (induction xs arbitrary: c) (auto intro: chained_weaken)

lemma tail_facts:
  "chained h (tailIntervals t d h pvs)"
  "iset (tailIntervals t d h pvs) = {k. h \<le> k \<and> k - h + d \<in> covered t pvs}"
proof -
  let ?f = "\<lambda>i. iv (h + (iv_start i - d)) (h + iv_end i - d)"
  have step: "chained (h + (c - d)) (map ?f (filter (\<lambda>i. \<not> iv_end i \<le> d) ivs))" if "chained c ivs" for c ivs
    using that
  proof (induction ivs arbitrary: c)
    case (Cons i ivs)
    show ?case
    proof (cases "iv_end i \<le> d")
      case True
      then show ?thesis using Cons.IH [of c] Cons.prems by (auto intro: chained_weaken)
    next
      case False
      have "iv_start i - d \<le> iv_end i - d" "c - d \<le> iv_start i - d" using Cons.prems by (simp_all add: diff_le_mono)
      moreover have "h + iv_end i - d = h + (iv_end i - d)" using False by simp
      ultimately have "c - d \<le> iv_start i - d \<and> h + (iv_start i - d) \<le> h + iv_end i - d" by linarith
      moreover have "chained (h + iv_end i - d) (map ?f (filter (\<lambda>i. \<not> iv_end i \<le> d) ivs))"
        using False Cons.IH [of "iv_end i"] Cons.prems by simp
      ultimately show ?thesis using False by simp
    qed
  qed simp
  show "chained h (tailIntervals t d h pvs)"
    unfolding tailIntervals_def by (rule chained_weaken [OF step [OF chained_members]]) simp
  have one: "k \<in> {iv_start (?f i)..<iv_end (?f i)} \<longleftrightarrow> h \<le> k \<and> k - h + d \<in> {iv_start i..<iv_end i}" for k i
  proof (cases "h \<le> k")
    case True
    then obtain m where "k = h + m" by (metis le_add_diff_inverse)
    then show ?thesis by (simp add: le_diff_conv less_diff_conv add.commute add.left_commute)
  next
    case False
    then show ?thesis by simp
  qed
  have "k \<in> iset (map ?f (filter (\<lambda>i. \<not> iv_end i \<le> d) ivs)) \<longleftrightarrow> h \<le> k \<and> k - h + d \<in> iset ivs" for ivs k
  proof (induction ivs)
    case (Cons i ivs)
    have "iv_end i \<le> d \<Longrightarrow> k - h + d \<notin> {iv_start i..<iv_end i}" by simp
    then show ?case using one [of k i] Cons.IH by (cases "iv_end i \<le> d") (simp_all, blast)
  qed simp
  then have "iset (map ?f (filter (\<lambda>i. \<not> iv_end i \<le> d) ivs)) = {k. h \<le> k \<and> k - h + d \<in> iset ivs}" for ivs
    by blast
  then show "iset (tailIntervals t d h pvs) = {k. h \<le> k \<and> k - h + d \<in> covered t pvs}"
    unfolding tailIntervals_def using intervals_exact [of t pvs] by simp
qed

lemma keptCapture_chained: "chained 0 (kc_intervals (keptCapture v capture r))"
proof (cases "Option.bind capture cap_gapAt")
  case None
  then show ?thesis using clip_facts [OF chained_members [of v "rd_values r"]] by (simp add: keptCapture_def Let_def)
next
  case (Some g)
  define n where "n = gap_offset v g"
  show ?thesis using Some
    by (simp add: keptCapture_def keptGap_def Let_def flip: n_def)
      (intro chained_append [where d = "min (length v) n - trailingMemberPrefixLength (take n v) r"] tail_facts(1);
        use clip_facts [OF chained_members] in simp)
qed

section \<open>What is shown\<close>

text \<open>A sanitized stream as pieces: a code unit of the kept text, or the marker.\<close>

datatype piece = Shown nat | Marked


definition shown :: "piece list \<Rightarrow> nat list" where
  "shown ps = concat (map (\<lambda>p. case p of Shown k \<Rightarrow> [k] | Marked \<Rightarrow> []) ps)"

lemma shown_simps [simp]:
  "shown [] = []" "shown (ps @ qs) = shown ps @ shown qs" "shown (Marked # ps) = shown ps" "shown (map Shown ks) = ks"
  by (simp_all add: shown_def concat_map_singleton comp_def)













section \<open>The result\<close>

lemma sanitizeStream_fits: "boundedLength (ss_text (sanitizeStream v bound r capture)) bound \<le> sb_limit bound"
proof -
  define t where "t = kc_text (keptCapture v capture r)"
  note best = cutLength_best [of t bound]
  then have "boundedLength ([] @ replace_from t (kc_intervals (keptCapture v capture r)) (cutLength t bound) 0) bound
      \<le> boundedLength ([] @ slice t 0 (cutLength t bound)) bound"
    by (intro replace_from_fits keptCapture_chained) (simp_all add: clean_cut_def)
  then show ?thesis using best by (simp add: sanitizeStream_def Let_def replaceIntervals_def slice_def flip: t_def)
qed

lemma sanitizeStream_whole:
  assumes "\<not> ss_truncated (sanitizeStream v bound r capture)"
  shows "kc_text (keptCapture v capture r) = v" "cutLength v bound = length v"
proof -
  have kept: "\<not> kc_dropped (keptCapture v capture r)"
    and cut: "\<not> cutLength (kc_text (keptCapture v capture r)) bound < length (kc_text (keptCapture v capture r))"
    using assms by (simp_all add: sanitizeStream_def Let_def)
  show v: "kc_text (keptCapture v capture r) = v"
    using kept by (cases "Option.bind capture cap_gapAt") (auto simp: keptCapture_def keptGap_def Let_def)
  show "cutLength v bound = length v"
    using cut cutLength_best [of v bound] by (simp add: v clean_cut_def)
qed

text \<open>C35: Both streams of a sanitized result fit the context's bound, in its own unit, whatever
  was captured: writing a marker over a protected value never lengthens the text, not even in bytes
  when the value starts or ends inside a surrogate pair. A result that does not say it was truncated
  kept each stream whole.\<close>

theorem sanitized_result_fits:
  "boundedLength (br_stdout (sanitizeKnownResult res ctx pvs captures)) (streamOutputBound ctx) \<le> sb_limit (streamOutputBound ctx) \<and>
   boundedLength (br_stderr (sanitizeKnownResult res ctx pvs captures)) (streamOutputBound ctx) \<le> sb_limit (streamOutputBound ctx) \<and>
   (br_truncated (sanitizeKnownResult res ctx pvs captures) \<or>
    \<not> br_truncated res \<and>
    kc_text (keptCapture (br_stdout res) (rc_stdout captures) (redaction_of pvs)) = br_stdout res \<and>
    cutToBound (br_stdout res) (streamOutputBound ctx) = br_stdout res \<and>
    kc_text (keptCapture (br_stderr res) (rc_stderr captures) (redaction_of pvs)) = br_stderr res \<and>
    cutToBound (br_stderr res) (streamOutputBound ctx) = br_stderr res)"
proof -
  let ?b = "streamOutputBound ctx" and ?r = "redaction_of pvs"
  have out: "br_stdout (sanitizeKnownResult res ctx pvs captures) = ss_text (sanitizeStream (br_stdout res) ?b ?r (rc_stdout captures))"
    and err: "br_stderr (sanitizeKnownResult res ctx pvs captures) = ss_text (sanitizeStream (br_stderr res) ?b ?r (rc_stderr captures))"
    and trunc: "br_truncated (sanitizeKnownResult res ctx pvs captures) \<longleftrightarrow> br_truncated res \<or>
      ss_truncated (sanitizeStream (br_stdout res) ?b ?r (rc_stdout captures)) \<or>
      ss_truncated (sanitizeStream (br_stderr res) ?b ?r (rc_stderr captures))"
    by (simp_all add: sanitizeKnownResult_def sanitizeKnownResultAtBound_def redaction_of_def Let_def)
  show ?thesis unfolding out err trunc
    using sanitizeStream_fits sanitizeStream_whole by (auto simp: cutToBound_def)
qed

text \<open>Cutting a text to a bound gives a prefix of it that fits and keeps every code point
  whole, and the longest prefix that does; the loop that measures UTF-8 bytes agrees with the byte
  length of the string.\<close>

lemma cutToBound_longest:
  "\<exists>n. cutToBound t bound = take n t \<and> clean_cut t n \<and> boundedLength (cutToBound t bound) bound \<le> sb_limit bound \<and>
     {j. clean_cut t j \<and> boundedLength (take j t) bound \<le> sb_limit bound} \<subseteq> {..n}"
  using cutLength_best [of t bound]
  by (intro exI [of _ "cutLength t bound"]) (auto simp: cutToBound_def Let_def)

text \<open>The managed boundary is refused exactly when one of its parts is missing, so a context
  with no output bound in either unit is always refused.\<close>

lemma managed_boundary_closed:
  "(requireManagedBoundary ctx = None) = boundary_holds ctx \<and>
   requireManagedBoundary (ctx\<lparr>bc_outputBound := None, bc_outputBoundBytes := None\<rparr>) = Some BoundaryMissing"
  by (auto simp: requireManagedBoundary_def boundary_holds_def streamOutputBound_def)

text \<open>With a gap, whether llame ended the capture makes no difference: the end of the stream is not trimmed.\<close>

lemma gap_ignores_ended:
  "sanitizeStream v bound r (Some \<lparr>cap_endedByLlame = True, cap_gapAt = Some g\<rparr>) =
   sanitizeStream v bound r (Some \<lparr>cap_endedByLlame = False, cap_gapAt = Some g\<rparr>)"
  by (simp add: sanitizeStream_def keptCapture_def)

end
