(* ===== verification/Search_Chunking.thy ===== *)
theory Search_Chunking
  imports Result_Truncation
begin

text \<open>
  Cutting a conversation into search chunks: the budgeted grouping and the boundary cut of
  \<^verbatim>\<open>apps/api/src/search/core/chunking.ts\<close>, the hash input and normalization of \<^verbatim>\<open>core/text.ts\<close>, the
  fusion score of \<^verbatim>\<open>core/fusion.ts\<close>, the messages that count as evidence
  (\<^verbatim>\<open>chats/conversation-evidence.ts\<close>, \<^verbatim>\<open>chats/assistant-completion.ts\<close>) and the chunker that puts them
  together (\<^verbatim>\<open>search/chat/conversation-chunker.ts\<close>).

  Unicode NFKC normalization, full lower-casing and SHA-256 are parameters. The loop that slices a
  long message is a partial function: that it returns is a theorem.
\<close>

section \<open>Grouping items under a budget\<close>

text \<open>The cursor into the items is the list of items still to come.\<close>

fun fill_group :: "('a \<Rightarrow> nat) \<Rightarrow> nat \<Rightarrow> nat \<Rightarrow> 'a list \<Rightarrow> nat \<Rightarrow> 'a list \<Rightarrow> 'a list \<times> 'a list" where
  "fill_group sizeOf maxChars tailLen grp total_size [] = (grp, [])"
| "fill_group sizeOf maxChars tailLen grp total_size (next_item # rest) =
     (if length grp > tailLen \<and> total_size + sizeOf next_item > maxChars then (grp, next_item # rest)
      else fill_group sizeOf maxChars tailLen (grp @ [next_item]) (total_size + sizeOf next_item) rest)"

lemma fill_group_le: "length (snd (fill_group f m t g s xs)) \<le> length xs"
  by (induction f m t g s xs rule: fill_group.induct) auto

lemma fill_group_lt: "length g \<le> t \<Longrightarrow> xs \<noteq> [] \<Longrightarrow> length (snd (fill_group f m t g s xs)) < length xs"
  using fill_group_le [of f m t _ _ "tl xs"] by (cases xs) (auto simp: less_Suc_eq_le)

definition last_items :: "nat \<Rightarrow> 'a list \<Rightarrow> 'a list" where
  "last_items n xs = drop (length xs - n) xs"

function chunk_loop :: "('a \<Rightarrow> nat) \<Rightarrow> nat \<Rightarrow> nat \<Rightarrow> 'a list \<Rightarrow> 'a list \<Rightarrow> 'a list list" where
  "chunk_loop sizeOf maxChars overlapItems prevTail items =
     (if items = [] then []
      else
        (let (grp, rest) = fill_group sizeOf maxChars (length prevTail) prevTail (sum_list (map sizeOf prevTail)) items;
             tail = (if overlapItems > 0 \<and> rest \<noteq> []
                     then filter (\<lambda>item. sizeOf item < maxChars) (last_items overlapItems grp) else [])
         in grp # chunk_loop sizeOf maxChars overlapItems tail rest))"
  by pat_completeness auto
termination
proof (relation "measure (\<lambda>(f, m, o', t, xs). length xs)", goal_cases)
  case (2 f m o' t xs p g rest tail)
  then show ?case using fill_group_lt [of t "length t" xs f m "sum_list (map f t)"] by (simp add: prod_eq_iff)
qed simp

declare chunk_loop.simps [simp del]

definition chunkByCharBudget :: "'a list \<Rightarrow> ('a \<Rightarrow> nat) \<Rightarrow> nat \<Rightarrow> nat \<Rightarrow> 'a list list" where
  "chunkByCharBudget items sizeOf maxChars overlapItems = chunk_loop sizeOf maxChars overlapItems [] items"

section \<open>Cutting text at a boundary\<close>

definition later_end :: "jstr \<Rightarrow> jstr \<Rightarrow> nat \<Rightarrow> nat" where
  "later_end window token best =
     (case last_index_of window token of
        Some i \<Rightarrow> if i > 0 then max best (i + length token) else best | None \<Rightarrow> best)"

definition SENTENCE_ENDS :: "jstr list" where
  "SENTENCE_ENDS = [[10], js ''. '', js ''! '', js ''? '']"

text \<open>The ends are relative to the window; \<open>0\<close> stands for none found, as every end found is
  positive.\<close>

definition blank_line_end :: "jstr \<Rightarrow> nat" where
  "blank_line_end window =
     (case last_index_of window [10, 10] of Some i \<Rightarrow> if i > 0 then i + 2 else 0 | None \<Rightarrow> 0)"

definition sentence_end :: "jstr \<Rightarrow> nat" where
  "sentence_end window = fold (later_end window) SENTENCE_ENDS 0"

definition space_end :: "jstr \<Rightarrow> nat" where
  "space_end window =
     (case find (\<lambda>i. is_whitespace (window ! i)) (rev [1..<length window]) of Some i \<Rightarrow> i + 1 | None \<Rightarrow> 0)"

definition cutTextAtBoundary :: "jstr \<Rightarrow> nat \<Rightarrow> nat \<Rightarrow> nat" where
  "cutTextAtBoundary t start maxLen =
     (if length t - start \<le> maxLen then length t
      else
        (let window = slice t start (start + maxLen) in
         if blank_line_end window > 0 then start + blank_line_end window
         else if sentence_end window > 0 then start + sentence_end window
         else if space_end window > 0 then start + space_end window
         else codePointSafeCutIndex t (start + maxLen)))"

section \<open>Which messages are evidence\<close>






section \<open>The conversation chunker\<close>
























section \<open>Rank fusion\<close>

text \<open>The score over the rationals: a leg's weight divided by its offset rank.\<close>

definition RRF_DEFAULT_K :: rat where
  "RRF_DEFAULT_K = 60"

definition rrfScore :: "(rat \<times> rat option) list \<Rightarrow> rat \<Rightarrow> rat" where
  "rrfScore legs k =
     foldl (\<lambda>acc (weight, rank). acc + (case rank of None \<Rightarrow> 0 | Some r \<Rightarrow> weight / (k + r))) 0 legs"

section \<open>Groups cover the items\<close>

lemma fill_group_spec:
  assumes "fill_group f m t g s xs = (g', rest)" "s = sum_list (map f g)"
    and "length g \<le> Suc t \<or> sum_list (map f g) \<le> m" "t \<le> length g"
  shows "\<exists>new. g' = g @ new \<and> xs = new @ rest \<and> (length g = t \<and> xs \<noteq> [] \<longrightarrow> new \<noteq> []) \<and>
    (length g' \<le> Suc t \<or> sum_list (map f g') \<le> m)"
  using assms
proof (induction f m t g s xs rule: fill_group.induct)
  case (2 f m t g s x xs)
  show ?case
  proof (cases "length g > t \<and> s + f x > m")
    case True
    then show ?thesis using 2 by auto
  next
    case False
    then have "\<exists>new. g' = (g @ [x]) @ new \<and> xs = new @ rest \<and> (length (g @ [x]) = t \<and> xs \<noteq> [] \<longrightarrow> new \<noteq> []) \<and>
        (length g' \<le> Suc t \<or> sum_list (map f g') \<le> m)"
      using 2 by auto
    then show ?thesis by (metis append.assoc append_Cons append_Nil list.distinct(1))
  qed
qed auto

definition chunk_group_ok :: "('a \<Rightarrow> nat) \<Rightarrow> nat \<Rightarrow> nat \<Rightarrow> 'a list \<Rightarrow> 'a list \<Rightarrow> bool" where
  "chunk_group_ok sizeOf maxChars overlapItems grp new \<longleftrightarrow>
     new \<noteq> [] \<and> (\<exists>tail. grp = tail @ new \<and> length tail \<le> overlapItems \<and> (\<forall>x\<in>set tail. sizeOf x < maxChars)) \<and>
     (length new = 1 \<or> sum_list (map sizeOf grp) \<le> maxChars)"

lemma chunk_loop_covers:
  "length prevTail \<le> n \<Longrightarrow> (\<forall>x\<in>set prevTail. f x < m) \<Longrightarrow>
   \<exists>news. concat news = items \<and> list_all2 (chunk_group_ok f m n) (chunk_loop f m n prevTail items) news"
proof (induction f m n prevTail items rule: chunk_loop.induct)
  case (1 f m n prevTail items)
  show ?case
  proof (cases "items = []")
    case True
    then show ?thesis by (intro exI [of _ "[]"]) (simp add: chunk_loop.simps)
  next
    case False
    obtain g rest where g: "fill_group f m (length prevTail) prevTail (sum_list (map f prevTail)) items = (g, rest)"
      by fastforce
    define tail where "tail = (if n > 0 \<and> rest \<noteq> [] then filter (\<lambda>x. f x < m) (last_items n g) else [])"
    have loop: "chunk_loop f m n prevTail items = g # chunk_loop f m n tail rest"
      using False g by (subst chunk_loop.simps) (simp add: Let_def tail_def)
    obtain new where new: "g = prevTail @ new" "items = new @ rest" "new \<noteq> []"
      "length g \<le> Suc (length prevTail) \<or> sum_list (map f g) \<le> m"
      using fill_group_spec [OF g refl] False by auto
    have "length (last_items n g) \<le> n" by (simp add: last_items_def)
    then have "length tail \<le> n" "\<forall>x\<in>set tail. f x < m"
      by (auto simp: tail_def intro: order_trans [OF length_filter_le])
    then obtain news where "concat news = rest" "list_all2 (chunk_group_ok f m n) (chunk_loop f m n tail rest) news"
      using "1.IH" [OF False g [symmetric] refl tail_def] by blast
    moreover have "chunk_group_ok f m n g new"
      using new "1.prems" by (cases new) (auto simp: chunk_group_ok_def)
    ultimately show ?thesis using loop new(2) by (intro exI [of _ "new # news"]) simp
  qed
qed

section \<open>Where text is cut\<close>

lemma find_SomeD: "find P xs = Some x \<Longrightarrow> x \<in> set xs \<and> P x"
  by (induction xs) (auto split: if_splits)

lemma last_index_of_Some: "last_index_of s p = Some i \<Longrightarrow> occurs_at s p i"
  unfolding last_index_of_def by (blast dest: find_SomeD)

text \<open>An end in a window is inside it and follows white space.\<close>

definition end_ok :: "jstr \<Rightarrow> nat \<Rightarrow> bool" where
  "end_ok window e \<longleftrightarrow> e = 0 \<or> e \<le> length window \<and> is_whitespace (window ! (e - 1))"

lemma occurs_at_last:
  assumes "occurs_at w p i" "p \<noteq> []" "is_whitespace (last p)"
  shows "end_ok w (i + length p)"
proof -
  obtain a b where w: "w = a @ p @ b" "length a = i" using assms(1) occurs_at_append by blast
  have "w ! (i + (length p - 1)) = p ! (length p - 1)"
    using w assms(2) by (simp add: nth_append)
  then have "w ! (i + length p - 1) = last p"
    using assms(2) by (cases p) (simp_all add: last_conv_nth)
  then show ?thesis using w assms by (simp add: end_ok_def)
qed

lemma later_end_ok: "end_ok w best \<Longrightarrow> token \<noteq> [] \<Longrightarrow> is_whitespace (last token) \<Longrightarrow> end_ok w (later_end w token best)"
  by (auto simp: later_end_def max_def dest!: last_index_of_Some intro: occurs_at_last split: option.splits)

lemma ws_facts: "is_whitespace 10" "is_whitespace 32"
  by (simp_all add: is_whitespace_def)

lemma ends_ok: "end_ok w (blank_line_end w)" "end_ok w (sentence_end w)" "end_ok w (space_end w)"
proof -
  show "end_ok w (blank_line_end w)"
    using occurs_at_last [of w "[10, 10]"]
    by (auto simp: blank_line_end_def ws_facts end_ok_def [of w 0] dest!: last_index_of_Some split: option.splits)
  show "end_ok w (sentence_end w)"
    by (simp add: sentence_end_def SENTENCE_ENDS_def later_end_ok ws_facts js.simps end_ok_def [of w 0])
  show "end_ok w (space_end w)"
    unfolding space_end_def end_ok_def by (auto split: option.splits dest!: find_SomeD)
qed

lemma whitespace_not_high: "is_whitespace c \<Longrightarrow> \<not> is_high_surrogate c"
  by (auto simp: is_whitespace_def is_high_surrogate_def word_le_nat_alt word_less_nat_alt)

lemma end_cut:
  assumes "end_ok (slice t a b) e" "0 < e" "a \<le> b" "b < length t"
  shows "a + e \<le> b" "pair_safe (take (a + e) t) (drop (a + e) t)"
proof -
  have e: "e \<le> b - a" "is_whitespace (slice t a b ! (e - 1))" using assms by (auto simp: end_ok_def)
  have "slice t a b ! (e - 1) = t ! (a + e - 1)" using e assms by (simp add: slice_def)
  moreover have "take (a + e) t \<noteq> []" using assms by auto
  then have "last (take (a + e) t) = t ! (a + e - 1)" using e assms by (simp add: last_conv_nth)
  ultimately have "\<not> is_high_surrogate (last (take (a + e) t))" using e(2) whitespace_not_high by metis
  then show "pair_safe (take (a + e) t) (drop (a + e) t)" by (simp add: pair_safe_def)
  show "a + e \<le> b" using e assms by simp
qed

lemma cut_spec:
  assumes "start < length t" "0 < maxLen"
  shows "cutTextAtBoundary t start maxLen \<le> length t" "cutTextAtBoundary t start maxLen \<le> start + maxLen"
    and "start \<le> cutTextAtBoundary t start maxLen"
    and "2 \<le> maxLen \<Longrightarrow> start < cutTextAtBoundary t start maxLen"
    and "pair_safe (take (cutTextAtBoundary t start maxLen) t) (drop (cutTextAtBoundary t start maxLen) t)"
proof -
  let ?c = "cutTextAtBoundary t start maxLen" and ?w = "slice t start (start + maxLen)"
  have "?c \<le> length t \<and> ?c \<le> start + maxLen \<and> start \<le> ?c \<and> (2 \<le> maxLen \<longrightarrow> start < ?c) \<and> pair_safe (take ?c t) (drop ?c t)"
  proof (cases "length t - start \<le> maxLen")
    case True
    then show ?thesis using assms by (simp add: cutTextAtBoundary_def pair_safe_def)
  next
    case False
    then have b: "start \<le> start + maxLen" "start + maxLen < length t" by auto
    have "?thesis" if "?c = start + e" "end_ok ?w e" "0 < e" for e
      using end_cut [OF that(2,3) b] that b by simp
    moreover have "?thesis" if c: "?c = codePointSafeCutIndex t (start + maxLen)"
    proof -
      have "pair_safe (take ?c t) (drop ?c t)" using c b cut_index_safe by metis
      then show ?thesis
        using c b assms cut_index_le [of t "start + maxLen"] cut_index_ge [of "start + maxLen" t] by linarith
    qed
    moreover have "\<exists>e. ?c = start + e \<and> end_ok ?w e \<and> 0 < e \<or> ?c = codePointSafeCutIndex t (start + maxLen)"
      using False ends_ok [of ?w] by (auto simp: cutTextAtBoundary_def Let_def)
    ultimately show ?thesis by blast
  qed
  then show "?c \<le> length t" "?c \<le> start + maxLen" "start \<le> ?c" "2 \<le> maxLen \<Longrightarrow> start < ?c"
    "pair_safe (take ?c t) (drop ?c t)" by blast+
qed

section \<open>Blocks tile the text\<close>




















section \<open>Properties\<close>

text \<open>Grouping loses and repeats nothing. The new items of the groups, in order, are exactly the
  items; every group is an overlap of at most \<^verbatim>\<open>overlapItems\<close> items, each below the budget, followed
  by at least one new item; and a group with more than one new item is within the budget.\<close>

lemma grouping_covers_items:
  "\<exists>news. concat news = items \<and>
     list_all2 (chunk_group_ok sizeOf maxChars overlapItems) (chunkByCharBudget items sizeOf maxChars overlapItems) news"
  unfolding chunkByCharBudget_def by (rule chunk_loop_covers) simp_all

text \<open>A text is cut inside its window, after the start whenever the window has room for a code
  point, and never inside a surrogate pair.\<close>

lemma text_cut_in_window:
  assumes "start < length t" "2 \<le> maxLen"
  shows "start < cutTextAtBoundary t start maxLen \<and> cutTextAtBoundary t start maxLen \<le> start + maxLen \<and>
    cutTextAtBoundary t start maxLen \<le> length t \<and>
    pair_safe (take (cutTextAtBoundary t start maxLen) t) (drop (cutTextAtBoundary t start maxLen) t)"
  using cut_spec [of start t maxLen] assms by simp

theorem text_cut_in_window_witness: "1 < cutTextAtBoundary (js ''abcdef'') 1 2 \<and> cutTextAtBoundary (js ''abcdef'') 1 2 \<le> 3"
  using text_cut_in_window [of 1 "js ''abcdef''" 2] by (simp add: length_js)

text \<open>With a budget of one code unit the cut can make no progress: at a surrogate pair it
  returns the start itself, so a caller that advances to the cut would not advance.\<close>

lemma text_cut_stuck_at_pair:
  "cutTextAtBoundary [0xd83d, 0xde00, 97] 0 1 = 0"
  by code_simp



end
