(* ===== verification/Identity.thy ===== *)
theory Identity
  imports Js_Prelude
begin

text \<open>
  The organisation tree: materialized paths (\<^verbatim>\<open>apps/api/src/identity/org-path.ts\<close>) and the role a
  user has in a unit (\<^verbatim>\<open>identity/role-resolution.ts\<close>).

  The locale \<open>id_path\<close> is what a client of the path functions relies on: a path built from a list of
  unit ids gives that list back, and a child's path extends its parent's. It is interpreted on the
  code's functions, and the facts about descendants, moves and roles rest on it.
\<close>

section \<open>Paths\<close>

definition PATH_SEPARATOR :: code_unit where
  "PATH_SEPARATOR = 47"

definition rootPath :: "jstr \<Rightarrow> jstr" where
  "rootPath i = i"

definition childPath :: "jstr \<Rightarrow> jstr \<Rightarrow> jstr" where
  "childPath parentPath i = parentPath @ [PATH_SEPARATOR] @ i"

definition pathIds :: "jstr \<Rightarrow> jstr list" where
  "pathIds path = filter (\<lambda>segment. length segment > 0) (split_on PATH_SEPARATOR path)"

definition pathDepth :: "jstr \<Rightarrow> nat" where
  "pathDepth path = length (pathIds path)"

definition isDescendantPath :: "jstr \<Rightarrow> jstr \<Rightarrow> bool" where
  "isDescendantPath candidate ancestorPath = starts_with candidate (ancestorPath @ [PATH_SEPARATOR])"

datatype path_error = NotInSubtree jstr jstr

definition rebasePath :: "jstr \<Rightarrow> jstr \<Rightarrow> jstr \<Rightarrow> path_error + jstr" where
  "rebasePath path oldPrefix newPrefix =
     (if path = oldPrefix then Inr newPrefix
      else if \<not> isDescendantPath path oldPrefix then Inl (NotInSubtree path oldPrefix)
      else Inr (newPrefix @ drop (length oldPrefix) path))"

section \<open>Roles\<close>

datatype org_role =
    RoleOwner | RoleAdmin | RoleMaintainer | RoleMember | RoleViewer | RoleGuest | RoleServiceAccount

record effective_role =
  er_role :: org_role
  er_viaOrgUnitId :: jstr
  er_inherited :: bool

text \<open>The loop from the leaf to the root: \<open>n\<close> is the number of ids still to look at.\<close>

fun resolve_from :: "(jstr \<times> org_role) list \<Rightarrow> jstr list \<Rightarrow> nat \<Rightarrow> effective_role option" where
  "resolve_from byUnit ids 0 = None"
| "resolve_from byUnit ids (Suc i) =
     (case map_of byUnit (ids ! i) of
        Some role \<Rightarrow> Some \<lparr>er_role = role, er_viaOrgUnitId = ids ! i, er_inherited = (i \<noteq> length ids - 1)\<rparr>
      | None \<Rightarrow> resolve_from byUnit ids i)"

definition resolveEffectiveRole :: "jstr \<Rightarrow> (jstr \<times> org_role) list \<Rightarrow> effective_role option" where
  "resolveEffectiveRole path membershipsOnPath =
     (let ids = pathIds path; byUnit = from_entries membershipsOnPath
      in resolve_from byUnit ids (length ids))"

section \<open>The interface of paths\<close>

locale id_path =
  fixes ok_id :: "'i \<Rightarrow> bool" and root :: "'i \<Rightarrow> 'p" and child :: "'p \<Rightarrow> 'i \<Rightarrow> 'p" and ids :: "'p \<Rightarrow> 'i list"
  assumes ids_root: "ok_id i \<Longrightarrow> ids (root i) = [i]"
    and ids_child: "ok_id i \<Longrightarrow> ids (child p i) = ids p @ [i]"
begin

text \<open>The path of a chain of units, root first.\<close>

definition path_of :: "'i list \<Rightarrow> 'p" where
  "path_of is = foldl child (root (hd is)) (tl is)"

lemma ids_foldl: "\<forall>i\<in>set is. ok_id i \<Longrightarrow> ids (foldl child p is) = ids p @ is"
  by (induction "is" arbitrary: p) (auto simp: ids_child)

lemma ids_path_of: "is \<noteq> [] \<Longrightarrow> \<forall>i\<in>set is. ok_id i \<Longrightarrow> ids (path_of is) = is"
  by (cases "is") (auto simp: path_of_def ids_foldl ids_root)

lemma path_of_inject:
  "is \<noteq> [] \<Longrightarrow> is' \<noteq> [] \<Longrightarrow> \<forall>i\<in>set is \<union> set is'. ok_id i \<Longrightarrow> path_of is = path_of is' \<longleftrightarrow> is = is'"
  by (metis Un_iff ids_path_of)

end

definition ok_id :: "jstr \<Rightarrow> bool" where
  "ok_id i \<longleftrightarrow> i \<noteq> [] \<and> PATH_SEPARATOR \<notin> set i"

interpretation paths: id_path ok_id rootPath childPath pathIds
proof
  show "ok_id i \<Longrightarrow> pathIds (rootPath i) = [i]" for i
    by (simp add: ok_id_def rootPath_def pathIds_def split_on_plain)
  show "ok_id i \<Longrightarrow> pathIds (childPath p i) = pathIds p @ [i]" for i p
    by (simp add: ok_id_def childPath_def pathIds_def split_on_append)
qed

definition unit_path :: "jstr list \<Rightarrow> jstr" where
  "unit_path is = paths.path_of is"

lemma unit_path_foldl: "foldl childPath p is = p @ concat (map (\<lambda>i. PATH_SEPARATOR # i) is)"
  by (induction "is" arbitrary: p) (auto simp: childPath_def)

lemma unit_path_append: "a \<noteq> [] \<Longrightarrow> unit_path (a @ b) = unit_path a @ concat (map (\<lambda>i. PATH_SEPARATOR # i) b)"
  by (cases a) (simp_all add: unit_path_def paths.path_of_def unit_path_foldl)

lemma unit_path_ids: "is \<noteq> [] \<Longrightarrow> \<forall>i\<in>set is. ok_id i \<Longrightarrow> pathIds (unit_path is) = is"
  unfolding unit_path_def by (rule paths.ids_path_of)

lemma descendant_split: "isDescendantPath p q \<longleftrightarrow> (\<exists>r. p = q @ PATH_SEPARATOR # r)"
proof
  assume "isDescendantPath p q"
  then have "take (length (q @ [PATH_SEPARATOR])) p = q @ [PATH_SEPARATOR]"
    by (simp add: isDescendantPath_def starts_with_def)
  then have "p = (q @ [PATH_SEPARATOR]) @ drop (length (q @ [PATH_SEPARATOR])) p" by (metis append_take_drop_id)
  then show "\<exists>r. p = q @ PATH_SEPARATOR # r" by (metis append.assoc append_Cons append_Nil)
qed (auto simp: isDescendantPath_def starts_with_def)

lemma pathIds_below:
  assumes "a \<noteq> []" "\<forall>i\<in>set a. ok_id i" "isDescendantPath p (unit_path a)"
  shows "\<exists>rest. pathIds p = a @ rest"
proof -
  obtain r where r: "p = unit_path a @ PATH_SEPARATOR # r"
    using assms(3) descendant_split by blast
  have "\<exists>rest. split_on PATH_SEPARATOR (x @ PATH_SEPARATOR # y) = split_on PATH_SEPARATOR x @ rest" for x y
    by (induction x) (auto split: list.splits)
  then obtain rest where "split_on PATH_SEPARATOR p = split_on PATH_SEPARATOR (unit_path a) @ rest" using r by blast
  then show ?thesis using unit_path_ids [OF assms(1,2)] by (simp add: pathIds_def)
qed

lemma descendant_iff:
  assumes "a \<noteq> []" "b \<noteq> []" "\<forall>i\<in>set a \<union> set b. ok_id i"
  shows "isDescendantPath (unit_path b) (unit_path a) \<longleftrightarrow> (\<exists>s. s \<noteq> [] \<and> b = a @ s)"
proof
  assume d: "isDescendantPath (unit_path b) (unit_path a)"
  then obtain rest where "pathIds (unit_path b) = a @ rest" using pathIds_below assms by blast
  then have b: "b = a @ rest" using unit_path_ids assms by auto
  have "length (unit_path a) < length (unit_path b)" using d descendant_split by auto
  then show "\<exists>s. s \<noteq> [] \<and> b = a @ s" using b by (cases rest) auto
next
  assume "\<exists>s. s \<noteq> [] \<and> b = a @ s"
  then obtain i s where "b = a @ i # s" by (metis list.exhaust)
  then have "unit_path b = unit_path a @ PATH_SEPARATOR # i @ concat (map (\<lambda>i. PATH_SEPARATOR # i) s)"
    using unit_path_append [OF assms(1), of "i # s"] by simp
  then show "isDescendantPath (unit_path b) (unit_path a)"
    by (simp add: isDescendantPath_def starts_with_def)
qed

section \<open>The nearest membership\<close>

lemma resolve_from_spec:
  assumes "n \<le> length ids"
  shows "resolve_from m ids n = None \<longleftrightarrow> (\<forall>i<n. map_of m (ids ! i) = None)"
    and "resolve_from m ids n = Some e \<Longrightarrow> \<exists>i<n. map_of m (ids ! i) = Some (er_role e) \<and> er_viaOrgUnitId e = ids ! i \<and>
      (er_inherited e \<longleftrightarrow> i \<noteq> length ids - 1) \<and> (\<forall>j<n. i < j \<longrightarrow> map_of m (ids ! j) = None)"
proof -
  show "resolve_from m ids n = None \<longleftrightarrow> (\<forall>i<n. map_of m (ids ! i) = None)"
    by (induction n) (auto simp: less_Suc_eq split: option.splits)
  show "resolve_from m ids n = Some e \<Longrightarrow> \<exists>i<n. map_of m (ids ! i) = Some (er_role e) \<and> er_viaOrgUnitId e = ids ! i \<and>
      (er_inherited e \<longleftrightarrow> i \<noteq> length ids - 1) \<and> (\<forall>j<n. i < j \<longrightarrow> map_of m (ids ! j) = None)"
  proof (induction n)
    case (Suc n)
    show ?case
    proof (cases "map_of m (ids ! n)")
      case None
      then obtain i where "i < n" "map_of m (ids ! i) = Some (er_role e)" "er_viaOrgUnitId e = ids ! i"
        "er_inherited e \<longleftrightarrow> i \<noteq> length ids - 1" "\<forall>j<n. i < j \<longrightarrow> map_of m (ids ! j) = None"
        using Suc by auto
      then show ?thesis using None by (intro exI [of _ i]) (auto simp: less_Suc_eq)
    next
      case (Some role)
      then show ?thesis using Suc.prems by (intro exI [of _ n]) auto
    qed
  qed simp
qed

section \<open>Properties\<close>

text \<open>Paths encode the tree. For chains of ids that are not empty and hold no separator, the ids
  read back from a unit's path are the chain itself and its length the depth; a path is strictly
  inside another's subtree exactly when the other's chain is a proper prefix of its own; and moving a
  subtree rewrites every path in it to the same chain under the new parent, while a path outside the
  subtree is refused.\<close>

lemma paths_encode_tree:
  assumes "a \<noteq> []" "b \<noteq> []" "c \<noteq> []" "\<forall>i\<in>set a \<union> set b \<union> set c. ok_id i"
  shows "pathIds (unit_path b) = b \<and> pathDepth (unit_path b) = length b \<and>
    (isDescendantPath (unit_path b) (unit_path a) \<longleftrightarrow> (\<exists>s. s \<noteq> [] \<and> b = a @ s)) \<and>
    (\<forall>s. b = a @ s \<longrightarrow> rebasePath (unit_path b) (unit_path a) (unit_path c) = Inr (unit_path (c @ s))) \<and>
    ((\<nexists>s. b = a @ s) \<longrightarrow> rebasePath (unit_path b) (unit_path a) (unit_path c) = Inl (NotInSubtree (unit_path b) (unit_path a)))"
proof -
  have ids: "pathIds (unit_path b) = b" "pathIds (unit_path a) = a" using unit_path_ids assms by blast+
  have desc: "isDescendantPath (unit_path b) (unit_path a) \<longleftrightarrow> (\<exists>s. s \<noteq> [] \<and> b = a @ s)"
    using descendant_iff assms by auto
  have eq: "unit_path b = unit_path a \<longleftrightarrow> b = a" using ids by metis
  have move: "rebasePath (unit_path b) (unit_path a) (unit_path c) = Inr (unit_path (c @ s))" if "b = a @ s" for s
  proof (cases "s = []")
    case True
    then show ?thesis using that by (simp add: rebasePath_def)
  next
    case False
    then show ?thesis
      using that desc eq unit_path_append [OF assms(1), of s] unit_path_append [OF assms(3), of s]
      by (simp add: rebasePath_def)
  qed
  have "rebasePath (unit_path b) (unit_path a) (unit_path c) = Inl (NotInSubtree (unit_path b) (unit_path a))"
    if "\<nexists>s. b = a @ s"
  proof -
    have "\<not> isDescendantPath (unit_path b) (unit_path a)" "unit_path b \<noteq> unit_path a"
      using that desc eq by (blast, metis append_Nil2)
    then show ?thesis by (simp add: rebasePath_def)
  qed
  then show ?thesis using ids(1) desc move by (simp add: pathDepth_def)
qed

theorem paths_encode_tree_witness:
  "rebasePath (unit_path [js ''r'', js ''x'', js ''y'']) (unit_path [js ''r'', js ''x'']) (unit_path [js ''q'']) =
     Inr (unit_path [js ''q'', js ''y''])"
  using paths_encode_tree [of "[js ''r'', js ''x'']" "[js ''r'', js ''x'', js ''y'']" "[js ''q'']"]
  by (simp add: ok_id_def PATH_SEPARATOR_def js.simps)

text \<open>The nearest membership decides the role. The resolved role is that of the deepest unit on
  the path that has a membership (the last one given for that unit), it is marked inherited exactly
  when that unit is not the leaf, and nothing is resolved exactly when no unit of the path has one.\<close>

lemma nearest_membership_decides:
  "(resolveEffectiveRole path ms = None \<longleftrightarrow> (\<forall>i\<in>set (pathIds path). map_of (rev ms) i = None)) \<and>
   (\<forall>e. resolveEffectiveRole path ms = Some e \<longrightarrow>
      (\<exists>above below. pathIds path = above @ er_viaOrgUnitId e # below \<and>
         map_of (rev ms) (er_viaOrgUnitId e) = Some (er_role e) \<and> (er_inherited e \<longleftrightarrow> below \<noteq> []) \<and>
         (\<forall>i\<in>set below. map_of (rev ms) i = None)))"
proof -
  let ?ids = "pathIds path" and ?m = "from_entries ms"
  have eq: "resolveEffectiveRole path ms = resolve_from ?m ?ids (length ?ids)"
    by (simp add: resolveEffectiveRole_def Let_def)
  have "\<exists>above below. ?ids = above @ er_viaOrgUnitId e # below \<and> map_of (rev ms) (er_viaOrgUnitId e) = Some (er_role e) \<and>
      (er_inherited e \<longleftrightarrow> below \<noteq> []) \<and> (\<forall>i\<in>set below. map_of (rev ms) i = None)"
    if "resolveEffectiveRole path ms = Some e" for e
  proof -
    have "resolve_from ?m ?ids (length ?ids) = Some e" using that eq by simp
    then obtain i where i: "i < length ?ids" "map_of ?m (?ids ! i) = Some (er_role e)" "er_viaOrgUnitId e = ?ids ! i"
      "er_inherited e \<longleftrightarrow> i \<noteq> length ?ids - 1" "\<forall>j<length ?ids. i < j \<longrightarrow> map_of ?m (?ids ! j) = None"
      using resolve_from_spec(2) [OF order_refl] by blast
    have "\<forall>x\<in>set (drop (Suc i) ?ids). map_of (rev ms) x = None"
      using i(5) by (auto simp: in_set_conv_nth map_of_from_entries)
    moreover have "?ids = take i ?ids @ ?ids ! i # drop (Suc i) ?ids" using i(1) by (simp add: id_take_nth_drop)
    moreover have "er_inherited e \<longleftrightarrow> drop (Suc i) ?ids \<noteq> []" using i(1,4) by auto
    ultimately show ?thesis using i(2,3) by (metis map_of_from_entries)
  qed
  moreover have "resolveEffectiveRole path ms = None \<longleftrightarrow> (\<forall>i\<in>set ?ids. map_of (rev ms) i = None)"
    using resolve_from_spec(1) [of "length ?ids" ?ids ?m] eq by (auto simp: map_of_from_entries all_set_conv_all_nth)
  ultimately show ?thesis by blast
qed

theorem nearest_membership_decides_witness:
  "\<exists>e. resolveEffectiveRole (js ''r/x'') [(js ''r'', RoleAdmin), (js ''x'', RoleViewer)] = Some e \<and>
     (\<exists>above below. pathIds (js ''r/x'') = above @ er_viaOrgUnitId e # below)"
proof -
  have "resolveEffectiveRole (js ''r/x'') [(js ''r'', RoleAdmin), (js ''x'', RoleViewer)] =
      Some \<lparr>er_role = RoleViewer, er_viaOrgUnitId = js ''x'', er_inherited = False\<rparr>" by code_simp
  then show ?thesis using nearest_membership_decides [of "js ''r/x''" "[(js ''r'', RoleAdmin), (js ''x'', RoleViewer)]"] by blast
qed

end
