(* ===== verification/Canonical_Json.thy ===== *)
theory Canonical_Json
  imports Json_Text "HOL-Library.List_Lexorder" "HOL-Library.Multiset"
begin

text \<open>
  Canonical JSON (\<^verbatim>\<open>apps/api/src/canonical-json.ts\<close>), the text that declarations are hashed and
  compared by. \<open>own_order\<close> is the order in which an object lists properties it was given one by one:
  array indices first, in their order, then the other names as they came. The values are those of
  JSON, so the branch that refuses a symbol, a function or a bigint is not there. The SHA-256 digest
  of \<^verbatim>\<open>hashWithDomain\<close> is the platform's.
\<close>

section \<open>The order of names\<close>

text \<open>\<^verbatim>\<open>Array.from(s, c => c.codePointAt(0))\<close>: the code points, a lone surrogate standing for itself.\<close>

fun scalars :: "jstr \<Rightarrow> int list" where
  "scalars [] = []"
| "scalars [c] = [uint c]"
| "scalars (c # d # s) =
     (if is_high_surrogate c \<and> is_low_surrogate d
      then (65536 + (uint c - 55296) * 1024 + (uint d - 56320)) # scalars s
      else uint c # scalars (d # s))"

fun compare_scalars :: "int list \<Rightarrow> int list \<Rightarrow> int" where
  "compare_scalars (x # xs) (y # ys) = (if x - y \<noteq> 0 then x - y else compare_scalars xs ys)"
| "compare_scalars xs ys = int (length xs) - int (length ys)"

definition compareCodePoints :: "jstr \<Rightarrow> jstr \<Rightarrow> int" where
  "compareCodePoints left right = compare_scalars (scalars left) (scalars right)"

lemma Nil_less_iff: "[] < (ys :: int list) \<longleftrightarrow> ys \<noteq> []"
  by (cases ys) simp_all

lemma compare_scalars_less: "compare_scalars xs ys < 0 \<longleftrightarrow> xs < ys"
  by (induction xs ys rule: compare_scalars.induct) (auto simp: Nil_less_iff)

lemma compare_scalars_eq: "compare_scalars xs ys = 0 \<longleftrightarrow> xs = ys"
  by (induction xs ys rule: compare_scalars.induct) auto

text \<open>A code point names its code units.\<close>

lemma high_range: "is_high_surrogate c \<longleftrightarrow> 55296 \<le> uint c \<and> uint c \<le> 56319"
  by (simp add: is_high_surrogate_def word_le_def)

lemma low_range: "is_low_surrogate c \<longleftrightarrow> 56320 \<le> uint c \<and> uint c \<le> 57343"
  by (simp add: is_low_surrogate_def word_le_def)

lemma uint_bound: "uint (c :: code_unit) < 65536" "0 \<le> uint (c :: code_unit)"
  using uint_bounded [of c] by simp_all

lemma pair_int:
  fixes a b a' b' :: int
  assumes "a * 1024 + b = a' * 1024 + b'" "0 \<le> b" "b < 1024" "0 \<le> b'" "b' < 1024"
  shows "a = a' \<and> b = b'"
proof (cases a a' rule: linorder_cases)
  case less
  then have "(a + 1) * 1024 \<le> a' * 1024" by simp
  then have False using assms by (simp add: algebra_simps)
  then show ?thesis ..
next
  case equal
  then show ?thesis using assms(1) by simp
next
  case greater
  then have "(a' + 1) * 1024 \<le> a * 1024" by simp
  then have False using assms by (simp add: algebra_simps)
  then show ?thesis ..
qed

lemma pair_scalar:
  assumes "is_high_surrogate c" "is_low_surrogate d" "is_high_surrogate c'" "is_low_surrogate d'"
    "(uint c - 55296) * 1024 + (uint d - 56320) = (uint c' - 55296) * 1024 + (uint d' - 56320)"
  shows "c = c' \<and> d = d'"
proof -
  have "uint c - 55296 = uint c' - 55296 \<and> uint d - 56320 = uint d' - 56320"
    using assms(2,4) by (intro pair_int [OF assms(5)]) (auto simp: low_range)
  then show ?thesis by (simp add: word_uint_eq_iff)
qed

lemma scalars_Nil [simp]: "scalars s = [] \<longleftrightarrow> s = []" "[] = scalars s \<longleftrightarrow> s = []"
  by (cases s rule: scalars.cases; auto)+

lemma scalars_inject: "scalars s = scalars t \<Longrightarrow> s = t"
proof (induction s arbitrary: t rule: scalars.induct)
  case 1
  then show ?case by (cases t rule: scalars.cases) (auto split: if_splits)
next
  case (2 c)
  then show ?case using uint_bound [of c]
    by (cases t rule: scalars.cases) (auto simp: word_uint_eq_iff high_range low_range split: if_splits)
next
  case (3 c d s)
  show ?case
  proof (cases "is_high_surrogate c \<and> is_low_surrogate d")
    case True
    note big = high_range [of c] low_range [of d]
    show ?thesis
    proof (cases t rule: scalars.cases)
      case (3 c' d' s')
      show ?thesis
      proof (cases "is_high_surrogate c' \<and> is_low_surrogate d'")
        case pair: True
        then have "scalars s = scalars s'" "(uint c - 55296) * 1024 + (uint d - 56320) = (uint c' - 55296) * 1024 + (uint d' - 56320)"
          using "3.prems" 3 True by simp_all
        then show ?thesis using "3.IH"(1) [OF True] pair_scalar [of c d c' d'] True pair 3 by blast
      next
        case False
        then have "scalars t = uint c' # scalars (d' # s')" unfolding 3 scalars.simps by (rule if_not_P)
        then show ?thesis using "3.prems" True big uint_bound [of c'] by simp
      qed
    next
      case (2 c')
      then show ?thesis using "3.prems" True big uint_bound [of c'] by simp
    qed (use "3.prems" True in simp)
  next
    case False
    show ?thesis
    proof (cases t rule: scalars.cases)
      case (3 c' d' s')
      show ?thesis
      proof (cases "is_high_surrogate c' \<and> is_low_surrogate d'")
        case True
        then have t: "scalars t = (65536 + (uint c' - 55296) * 1024 + (uint d' - 56320)) # scalars s'" by (simp add: 3)
        have "scalars (c # d # s) = uint c # scalars (d # s)" unfolding scalars.simps using False by (rule if_not_P)
        then show ?thesis using "3.prems" t True high_range [of c'] low_range [of d'] uint_bound [of c] by simp
      next
        case no: False
        have "scalars t = uint c' # scalars (d' # s')" unfolding 3 scalars.simps using no by (rule if_not_P)
        moreover have "scalars (c # d # s) = uint c # scalars (d # s)" unfolding scalars.simps using False by (rule if_not_P)
        ultimately have "c = c'" "scalars (d # s) = scalars (d' # s')" using "3.prems" by (simp_all add: word_uint_eq_iff)
        then show ?thesis using "3.IH"(2) [OF False] 3 by blast
      qed
    next
      case (2 c')
      then show ?thesis using "3.prems" False by (cases s) (auto split: if_splits)
    qed (use "3.prems" False in auto)
  qed
qed

text \<open>\<^verbatim>\<open>compareCodePoints\<close> is a strict total order on names: it is the lexicographic order of
  their code points, and it calls two names equal only when they are the same string.\<close>

lemma compareCodePoints_order:
  "(compareCodePoints a b < 0) = (scalars a < scalars b) \<and> (compareCodePoints a b = 0) = (a = b) \<and>
   (compareCodePoints a b > 0) = (compareCodePoints b a < 0)"
proof -
  have "(compareCodePoints a b = 0) = (a = b)"
    using scalars_inject by (auto simp: compareCodePoints_def compare_scalars_eq)
  moreover have "compare_scalars xs ys = - compare_scalars ys xs" for xs ys
    by (induction xs ys rule: compare_scalars.induct) auto
  then have "compareCodePoints a b = - compareCodePoints b a" unfolding compareCodePoints_def .
  moreover have "(compareCodePoints a b < 0) = (scalars a < scalars b)"
    by (simp add: compareCodePoints_def compare_scalars_less)
  ultimately show ?thesis by linarith
qed

section \<open>Canonical values\<close>

text \<open>The array index a name is, if it is one.\<close>

definition array_index :: "jstr \<Rightarrow> nat option" where
  "array_index s =
     (let n = foldl (\<lambda>a c. 10 * a + (unat c - 48)) 0 s in
      if s \<noteq> [] \<and> (\<forall>c\<in>set s. 48 \<le> c \<and> c \<le> 57) \<and> (hd s \<noteq> 48 \<or> length s = 1) \<and> n < 2 ^ 32 - 1 then Some n else None)"

definition own_order :: "(jstr \<times> 'a) list \<Rightarrow> (jstr \<times> 'a) list" where
  "own_order kvs =
     sort_key (\<lambda>kv. the (array_index (fst kv))) (filter (\<lambda>kv. array_index (fst kv) \<noteq> None) kvs) @
     filter (\<lambda>kv. array_index (fst kv) = None) kvs"

text \<open>\<^verbatim>\<open>entries.sort(compareCodePoints)\<close>: the sort is stable and the comparison is that of \<open>scalars\<close>.\<close>

definition sort_entries :: "(jstr \<times> 'a) list \<Rightarrow> (jstr \<times> 'a) list" where
  "sort_entries kvs = sort_key (\<lambda>kv. scalars (fst kv)) kvs"

lemma sort_entries_size [termination_simp]:
  "(k, v) \<in> set (sort_entries kvs) \<Longrightarrow> size v < Suc (size_list (\<lambda>x. Suc (size (snd x))) kvs)"
  by (auto simp: sort_entries_def intro: size_snd_jsval)

fun canonicalize :: "jsval \<Rightarrow> jsval" where
  "canonicalize (JArr vs) = JArr (map canonicalize vs)"
| "canonicalize (JObj kvs) = JObj (own_order (from_entries (map (\<lambda>kv. (fst kv, canonicalize (snd kv))) (sort_entries kvs))))"
| "canonicalize v = v"

definition canonicalJson :: "jsval \<Rightarrow> jstr option" where
  "canonicalJson v = json_stringify (canonicalize v)"

section \<open>The canonical text does not depend on the order of members\<close>

text \<open>Equal but for the order in which objects list their members.\<close>

inductive reordered :: "jsval \<Rightarrow> jsval \<Rightarrow> bool" where
  same: "reordered v v"
| array: "list_all2 reordered vs ws \<Longrightarrow> reordered (JArr vs) (JArr ws)"
| object: "list_all2 (\<lambda>kv kw. fst kv = fst kw \<and> reordered (snd kv) (snd kw)) kvs kws \<Longrightarrow> mset kws = mset kws' \<Longrightarrow>
    reordered (JObj kvs) (JObj kws')"

definition canon_entries :: "(jstr \<times> jsval) list \<Rightarrow> (jstr \<times> jsval) list" where
  "canon_entries kvs = map (\<lambda>kv. (fst kv, canonicalize (snd kv))) kvs"

lemma sort_key_map:
  assumes "\<And>x. f x = f' (g x)"
  shows "map g (sort_key f xs) = sort_key f' (map g xs)"
proof (induction xs)
  case (Cons x xs)
  have "map g (insort_key f x ys) = insort_key f' (g x) (map g ys)" for x ys
    by (induction ys) (simp_all add: assms)
  then show ?case using Cons by simp
qed simp

lemma sort_entries_canon: "map (\<lambda>kv. (fst kv, canonicalize (snd kv))) (sort_entries kvs) = sort_entries (canon_entries kvs)"
  unfolding sort_entries_def canon_entries_def by (rule sort_key_map) simp

lemma canon_entries_names [simp]: "map fst (canon_entries kvs) = map fst kvs"
  by (simp add: canon_entries_def comp_def)

lemma mset_sort_entries [simp]: "mset (sort_entries kvs) = mset kvs"
  by (simp add: sort_entries_def)

lemma sort_entries_unique:
  assumes "mset xs = mset ys" "distinct (map fst xs)"
  shows "sort_entries xs = sort_entries ys"
proof -
  have "inj scalars" using scalars_inject by (rule injI)
  then have "inj_on (scalars \<circ> fst) (set xs)"
    using assms(2) by (intro comp_inj_on) (auto simp: distinct_map intro: inj_on_subset)
  then show ?thesis unfolding sort_entries_def comp_def
    by (intro sort_key_inj_key_eq) (simp_all add: assms(1))
qed

lemma canonicalize_object:
  "canonicalize (JObj kvs) = JObj (own_order (from_entries (sort_entries (canon_entries kvs))))"
  by (simp add: sort_entries_canon)

lemma canonicalize_reordered: "reordered v w \<Longrightarrow> wf_val v \<Longrightarrow> canonicalize v = canonicalize w"
proof (induction rule: reordered.induct)
  case (array vs ws)
  then have "list_all2 (\<lambda>v w. canonicalize v = canonicalize w) vs ws"
    by (auto elim!: list_all2_mono simp: list_all2_conv_all_nth)
  then have "map canonicalize vs = map canonicalize ws" by (simp add: list_all2_conv_all_nth list_eq_iff_nth_eq)
  then show ?case by simp
next
  case (object kvs kws kws')
  have "canon_entries kvs = canon_entries kws"
    using object.IH object.prems unfolding canon_entries_def
    by (auto simp: list_all2_conv_all_nth list_eq_iff_nth_eq)
  moreover have "mset (canon_entries kws) = mset (canon_entries kws')"
    using object.hyps by (simp add: canon_entries_def)
  moreover have "distinct (map fst (canon_entries kvs))" using object.prems by simp
  ultimately have "sort_entries (canon_entries kvs) = sort_entries (canon_entries kws')"
    using sort_entries_unique by metis
  then show ?case unfolding canonicalize_object by simp
qed simp

text \<open>Canonicalizing only reorders.\<close>

lemma mset_own_order: "mset (own_order kvs) = mset kvs"
  using multiset_partition [of "mset kvs" "\<lambda>kv. array_index (fst kv) = None"] by (simp add: own_order_def mset_filter)

lemma canonicalize_is_reordered: "wf_val v \<Longrightarrow> reordered v (canonicalize v)"
proof (induction v rule: canonicalize.induct)
  case (1 vs)
  then show ?case by (auto intro!: reordered.array simp: list_all2_conv_all_nth)
next
  case (2 kvs)
  have "mset (map fst (sort_entries xs)) = mset (map fst xs)" for xs :: "(jstr \<times> jsval) list" by simp
  from this [of "canon_entries kvs"] have "mset (map fst (sort_entries (canon_entries kvs))) = mset (map fst kvs)"
    unfolding canon_entries_names .
  then have "distinct (map fst (sort_entries (canon_entries kvs)))"
    using 2 by (metis mset_eq_imp_distinct_iff wf_val.simps(3))
  then have "mset (own_order (from_entries (sort_entries (canon_entries kvs)))) = mset (canon_entries kvs)"
    by (simp add: mset_own_order)
  moreover have "reordered (snd kv) (canonicalize (snd kv))" if "kv \<in> set kvs" for kv
    using 2 that by (auto simp: sort_entries_def)
  then have "list_all2 (\<lambda>kv kw. fst kv = fst kw \<and> reordered (snd kv) (snd kw)) kvs (canon_entries kvs)"
    by (auto simp: list_all2_conv_all_nth canon_entries_def)
  ultimately show ?case unfolding canonicalize_object by (auto intro: reordered.object)
qed (simp_all add: reordered.same)

text \<open>Canonical JSON is canonical: two values that differ only in the order in which their objects
  list members, at any depth, have the same canonical value and so the same canonical text; and
  canonicalizing changes nothing else, since the result differs from the value in that order alone.\<close>

lemma canonical_json_canonical:
  assumes "reordered v w" "wf_val v"
  shows "canonicalJson v = canonicalJson w \<and> reordered v (canonicalize v)"
  using canonicalize_reordered [OF assms] canonicalize_is_reordered [OF assms(2)] by (simp add: canonicalJson_def)

lemma canonical_json_canonical_witness:
  "canonicalJson (JObj [(js ''b'', JNull), (js ''a'', JArr [])]) = canonicalJson (JObj [(js ''a'', JArr []), (js ''b'', JNull)])"
  by (rule canonical_json_canonical [THEN conjunct1])
    (auto intro!: reordered.object [where kws = "[(js ''b'', JNull), (js ''a'', JArr [])]"] reordered.same)

end
