(* ===== verification/Live_Messages.thy ===== *)
theory Live_Messages
  imports Json_Parse "HOL-Library.List_Lexorder"
begin

text \<open>
  The server side of the live update protocol (\<^verbatim>\<open>apps/api/src/live/live-messages.ts\<close>): reading a
  database change notification, the record job it calls for, and the tracker that folds run events
  into progress messages. A record the API's response mappers build is a value of a type parameter
  \<open>'r\<close>; the statuses are those of \<^verbatim>\<open>db/schema/chats.ts\<close> and \<^verbatim>\<open>runs/run-status.ts\<close>.
\<close>

section \<open>Run statuses\<close>

datatype run_status =
    Queued | Resolving_Config | Retrieving_Context | Planning | Waiting_For_Approval | Running_Model
  | Running_Tool | Running_Sandbox | Updating_Artifact | Summarizing | Completed | Failed | Cancelled | Expired

fun status_text :: "run_status \<Rightarrow> jstr" where
  "status_text Queued = js ''queued''"
| "status_text Resolving_Config = js ''resolving_config''"
| "status_text Retrieving_Context = js ''retrieving_context''"
| "status_text Planning = js ''planning''"
| "status_text Waiting_For_Approval = js ''waiting_for_approval''"
| "status_text Running_Model = js ''running_model''"
| "status_text Running_Tool = js ''running_tool''"
| "status_text Running_Sandbox = js ''running_sandbox''"
| "status_text Updating_Artifact = js ''updating_artifact''"
| "status_text Summarizing = js ''summarizing''"
| "status_text Completed = js ''completed''"
| "status_text Failed = js ''failed''"
| "status_text Cancelled = js ''cancelled''"
| "status_text Expired = js ''expired''"

definition runStatus :: "run_status list" where
  "runStatus = [Queued, Resolving_Config, Retrieving_Context, Planning, Waiting_For_Approval, Running_Model,
     Running_Tool, Running_Sandbox, Updating_Artifact, Summarizing, Completed, Failed, Cancelled, Expired]"

definition TERMINAL_RUN_STATUSES :: "run_status list" where
  "TERMINAL_RUN_STATUSES = [Completed, Failed, Cancelled, Expired]"

definition isTerminalRunStatus :: "run_status \<Rightarrow> bool" where
  "isTerminalRunStatus s \<longleftrightarrow> s \<in> set TERMINAL_RUN_STATUSES"

definition isRunStatus :: "jstr \<Rightarrow> run_status option" where
  "isRunStatus s = find (\<lambda>r. status_text r = s) runStatus"

section \<open>Notifications\<close>

datatype notification =
    N_Chat jstr jstr bool          \<comment> \<open>owner, chat, deleted\<close>
  | N_Machine jstr bool            \<comment> \<open>machine, deleted\<close>
  | N_Project jstr jstr bool       \<comment> \<open>owner, project, deleted\<close>
  | N_Pin jstr
  | N_Run jstr jstr run_status     \<comment> \<open>owner, run, status\<close>
  | N_Run_Event jstr jstr jstr jstr \<comment> \<open>owner, chat, run, type\<close>

fun isRecord :: "jsval \<Rightarrow> (jstr \<times> jsval) list option" where
  "isRecord (JObj kvs) = Some kvs"
| "isRecord _ = None"

fun isBoolean :: "jsval \<Rightarrow> bool option" where
  "isBoolean (JBool b) = Some b"
| "isBoolean _ = None"

text \<open>\<^verbatim>\<open>str\<close>: a property that is a string and not empty.\<close>

definition str_field :: "(jstr \<times> jsval) list \<Rightarrow> string \<Rightarrow> jstr option" where
  "str_field record key = (case get_prop record (js key) of JStr s \<Rightarrow> if s \<noteq> [] then Some s else None | _ \<Rightarrow> None)"

definition parseKind :: "(jstr \<times> jsval) list \<Rightarrow> jstr \<Rightarrow> notification option" where
  "parseKind parsed owner =
     (let deleted = isBoolean (get_prop parsed (js ''deleted''));
          chat = str_field parsed ''chat''; run = str_field parsed ''run''; k = get_prop parsed (js ''k'') in
      if k = JStr (js ''chat'') then
        (case (chat, deleted) of (Some c, Some d) \<Rightarrow> Some (N_Chat owner c d) | _ \<Rightarrow> None)
      else if k = JStr (js ''project'') then
        (case (str_field parsed ''project'', deleted) of (Some p, Some d) \<Rightarrow> Some (N_Project owner p d) | _ \<Rightarrow> None)
      else if k = JStr (js ''pin'') then Some (N_Pin owner)
      else if k = JStr (js ''run'') then
        (case (run, Option.bind (str_field parsed ''status'') isRunStatus) of
           (Some r, Some s) \<Rightarrow> Some (N_Run owner r s) | _ \<Rightarrow> None)
      else if k = JStr (js ''run_event'') then
        (case (chat, run, str_field parsed ''type'') of
           (Some c, Some r, Some t) \<Rightarrow> Some (N_Run_Event owner c r t) | _ \<Rightarrow> None)
      else None)"

definition parseChangeNotification :: "(jsnum \<Rightarrow> jsnum) \<Rightarrow> jstr \<Rightarrow> notification option" where
  "parseChangeNotification nearest raw =
     (case json_parse nearest raw of
        None \<Rightarrow> None
      | Some v \<Rightarrow>
          (case isRecord v of
             None \<Rightarrow> None
           | Some parsed \<Rightarrow>
               if get_prop parsed (js ''k'') = JStr (js ''machine'') then
                 (case (str_field parsed ''machine'', isBoolean (get_prop parsed (js ''deleted''))) of
                    (Some m, Some d) \<Rightarrow> Some (N_Machine m d) | _ \<Rightarrow> None)
               else (case str_field parsed ''owner'' of None \<Rightarrow> None | Some owner \<Rightarrow> parseKind parsed owner)))"

section \<open>Messages and record jobs\<close>

datatype run_phase = Phase_Queued | Phase_Thinking | Phase_Tool | Phase_Writing

record run_progress_message =
  pm_run :: jstr
  pm_chat :: jstr
  pm_phase :: run_phase
  pm_step :: nat

datatype 'r live_message =
    Chat_Upserted 'r
  | Chat_Deleted jstr
  | Machine_Upserted 'r
  | Machine_Deleted jstr
  | Project_Upserted 'r
  | Project_Deleted jstr
  | Pins_Replaced "'r list"
  | Run_Updated 'r
  | Run_Progress run_progress_message
  | Resync

text \<open>What a job's \<^verbatim>\<open>load\<close> does: one read of the loader, or a message that is ready.\<close>

datatype load =
    Read_Chat jstr jstr
  | Read_Machine jstr
  | Read_Project jstr jstr
  | Read_Pins jstr
  | Read_Run jstr jstr
  | Ready_Chat_Deleted jstr
  | Ready_Machine_Deleted jstr
  | Ready_Project_Deleted jstr

record job =
  job_key :: "jstr option"
  job_load :: load

definition chatJob :: "jstr \<Rightarrow> jstr \<Rightarrow> job" where
  "chatJob owner chatId = \<lparr>job_key = Some (js ''chat:'' @ chatId), job_load = Read_Chat owner chatId\<rparr>"

definition machineJob :: "jstr \<Rightarrow> job" where
  "machineJob name = \<lparr>job_key = Some (js ''machine:'' @ name), job_load = Read_Machine name\<rparr>"

definition projectJob :: "jstr \<Rightarrow> jstr \<Rightarrow> job" where
  "projectJob owner projectId = \<lparr>job_key = Some (js ''project:'' @ projectId), job_load = Read_Project owner projectId\<rparr>"

definition runJob :: "jstr \<Rightarrow> jstr \<Rightarrow> job" where
  "runJob owner runId = \<lparr>job_key = Some (js ''run:'' @ runId), job_load = Read_Run owner runId\<rparr>"

definition ready :: "load \<Rightarrow> job" where
  "ready l = \<lparr>job_key = None, job_load = l\<rparr>"

fun recordJobFor :: "notification \<Rightarrow> job option" where
  "recordJobFor (N_Chat owner chat deleted) = Some (if deleted then ready (Ready_Chat_Deleted chat) else chatJob owner chat)"
| "recordJobFor (N_Machine machine deleted) = Some (if deleted then ready (Ready_Machine_Deleted machine) else machineJob machine)"
| "recordJobFor (N_Project owner project deleted) =
     Some (if deleted then ready (Ready_Project_Deleted project) else projectJob owner project)"
| "recordJobFor (N_Pin owner) = Some \<lparr>job_key = Some (js ''pins''), job_load = Read_Pins owner\<rparr>"
| "recordJobFor (N_Run owner run status) = Some (runJob owner run)"
| "recordJobFor (N_Run_Event owner chat run type) = None"

text \<open>How a load ends: with the record or none, with the list of pins, or with an exception.\<close>

datatype 'r outcome = Record "'r option" | Records "'r list" | Raised

text \<open>The message of a load that ended well; each load has one kind of answer.\<close>

fun load_message :: "load \<Rightarrow> 'r outcome \<Rightarrow> 'r live_message option" where
  "load_message (Read_Chat _ _) (Record r) = map_option Chat_Upserted r"
| "load_message (Read_Machine _) (Record r) = map_option Machine_Upserted r"
| "load_message (Read_Project _ _) (Record r) = map_option Project_Upserted r"
| "load_message (Read_Pins _) (Records rs) = Some (Pins_Replaced rs)"
| "load_message (Read_Run _ _) (Record r) = map_option Run_Updated r"
| "load_message (Ready_Chat_Deleted c) _ = Some (Chat_Deleted c)"
| "load_message (Ready_Machine_Deleted m) _ = Some (Machine_Deleted m)"
| "load_message (Ready_Project_Deleted p) _ = Some (Project_Deleted p)"
| "load_message _ _ = None"

fun is_ready :: "load \<Rightarrow> bool" where
  "is_ready (Ready_Chat_Deleted _) \<longleftrightarrow> True"
| "is_ready (Ready_Machine_Deleted _) \<longleftrightarrow> True"
| "is_ready (Ready_Project_Deleted _) \<longleftrightarrow> True"
| "is_ready _ \<longleftrightarrow> False"

section \<open>Run progress\<close>

definition phaseOfEvent :: "jstr \<Rightarrow> run_phase option" where
  "phaseOfEvent eventType =
     (if eventType \<in> {js ''model.requested'', js ''reasoning.delta'', js ''tool.completed''} then Some Phase_Thinking
      else if eventType = js ''model.delta'' then Some Phase_Writing
      else if eventType \<in> {js ''tool.requested'', js ''tool.started''} then Some Phase_Tool
      else None)"

definition TERMINAL_EVENTS :: "jstr list" where
  "TERMINAL_EVENTS = map (\<lambda>s. js ''run.'' @ status_text s) TERMINAL_RUN_STATUSES"

definition FINISHED_CAP :: nat where
  "FINISHED_CAP = 1024"

record run_progress =
  rp_phase :: run_phase
  rp_step :: nat

record tracker =
  tr_runs :: "jstr \<Rightarrow> run_progress option"
  tr_finished :: "jstr list"

definition new_tracker :: tracker where
  "new_tracker = \<lparr>tr_runs = Map.empty, tr_finished = []\<rparr>"

definition finish :: "jstr \<Rightarrow> tracker \<Rightarrow> tracker" where
  "finish runId t =
     (let finished = (if length (tr_finished t) \<ge> FINISHED_CAP then [] else tr_finished t)
      in \<lparr>tr_runs = (tr_runs t)(runId := None),
          tr_finished = (if runId \<in> set finished then finished else finished @ [runId])\<rparr>)"

fun tracker_apply :: "tracker \<Rightarrow> notification \<Rightarrow> tracker \<times> run_progress_message option" where
  "tracker_apply t (N_Run owner run status) = (if isTerminalRunStatus status then finish run t else t, None)"
| "tracker_apply t (N_Run_Event owner chat run type) =
     (if type \<in> set TERMINAL_EVENTS then (finish run t, None)
      else if run \<in> set (tr_finished t) then (t, None)
      else
        (let phase = phaseOfEvent type; stepped = (if type = js ''model.requested'' then 1 else 0 :: nat) in
         if phase = None \<and> stepped = 0 then (t, None)
         else
           (let previous = tr_runs t run;
                next = \<lparr>rp_phase = (case phase of Some p \<Rightarrow> p
                                   | None \<Rightarrow> (case previous of Some p \<Rightarrow> rp_phase p | None \<Rightarrow> Phase_Queued)),
                        rp_step = (case previous of Some p \<Rightarrow> rp_step p | None \<Rightarrow> 0) + stepped\<rparr>
            in if previous = Some next then (t, None)
               else (t\<lparr>tr_runs := (tr_runs t)(run \<mapsto> next)\<rparr>,
                     Some \<lparr>pm_run = run, pm_chat = chat, pm_phase = rp_phase next, pm_step = rp_step next\<rparr>))))"
| "tracker_apply t _ = (t, None)"

text \<open>The tracker over a sequence of notifications, with the messages it emits.\<close>

fun tracker_run :: "tracker \<Rightarrow> notification list \<Rightarrow> tracker \<times> run_progress_message list" where
  "tracker_run t [] = (t, [])"
| "tracker_run t (n # ns) =
     (let (t1, m) = tracker_apply t n; (t2, ms) = tracker_run t1 ns
      in (t2, (case m of None \<Rightarrow> ms | Some x \<Rightarrow> x # ms)))"

section \<open>What the tracker emits\<close>

lemma isRunStatus_text [simp]: "isRunStatus (status_text s) = Some s"
  by (cases s) (simp_all add: isRunStatus_def runStatus_def)

text \<open>The events of one run, and what its progress should be after each event that carries a phase.\<close>

definition run_events :: "jstr \<Rightarrow> notification list \<Rightarrow> jstr list" where
  "run_events run ns =
     concat (map (\<lambda>n. case n of N_Run_Event _ _ r type \<Rightarrow> if r = run then [type] else [] | _ \<Rightarrow> []) ns)"

fun ends_run :: "jstr \<Rightarrow> notification \<Rightarrow> bool" where
  "ends_run run (N_Run _ r status) \<longleftrightarrow> r = run \<and> isTerminalRunStatus status"
| "ends_run run (N_Run_Event _ _ r type) \<longleftrightarrow> r = run \<and> type \<in> set TERMINAL_EVENTS"
| "ends_run run _ \<longleftrightarrow> False"

fun progress_states :: "run_progress option \<Rightarrow> jstr list \<Rightarrow> run_progress list" where
  "progress_states p [] = []"
| "progress_states p (type # types) =
     (case phaseOfEvent type of
        None \<Rightarrow> progress_states p types
      | Some ph \<Rightarrow>
          (let q = \<lparr>rp_phase = ph,
                    rp_step = (case p of None \<Rightarrow> 0 | Some x \<Rightarrow> rp_step x) + (if type = js ''model.requested'' then 1 else 0)\<rparr>
           in q # progress_states (Some q) types))"

definition progress_of :: "jstr \<Rightarrow> run_progress_message list \<Rightarrow> run_progress list" where
  "progress_of run ms = map (\<lambda>m. \<lparr>rp_phase = pm_phase m, rp_step = pm_step m\<rparr>) (filter (\<lambda>m. pm_run m = run) ms)"

lemma progress_of_simps [simp]:
  "progress_of run [] = []"
  "progress_of run (m # ms) = (if pm_run m = run then [\<lparr>rp_phase = pm_phase m, rp_step = pm_step m\<rparr>] else []) @ progress_of run ms"
  by (simp_all add: progress_of_def)

lemma run_events_Cons:
  "run_events run (n # ns) =
     (case n of N_Run_Event _ _ r type \<Rightarrow> if r = run then [type] else [] | _ \<Rightarrow> []) @ run_events run ns"
  by (simp add: run_events_def)

lemma finish_other [simp]: "r \<noteq> run \<Longrightarrow> tr_runs (finish r t) run = tr_runs t run"
  "r \<noteq> run \<Longrightarrow> run \<in> set (tr_finished (finish r t)) \<Longrightarrow> run \<in> set (tr_finished t)"
  by (auto simp: finish_def Let_def split: if_splits)

lemma model_requested_phase: "phaseOfEvent (js ''model.requested'') = Some Phase_Thinking"
  by (simp add: phaseOfEvent_def)

lemma apply_other:
  assumes "\<not> ends_run run n" "\<And>o' c ty. n \<noteq> N_Run_Event o' c run ty"
  shows "tr_runs (fst (tracker_apply t n)) run = tr_runs t run"
    and "run \<in> set (tr_finished (fst (tracker_apply t n))) \<Longrightarrow> run \<in> set (tr_finished t)"
    and "snd (tracker_apply t n) = Some m \<Longrightarrow> progress_of run [m] = []"
  using assms by (cases n; auto simp: Let_def split: if_splits)+

lemma tracker_run_progress:
  assumes "\<forall>n\<in>set ns. \<not> ends_run run n" "run \<notin> set (tr_finished t)"
  shows "case tr_runs t run of
      None \<Rightarrow> progress_of run (snd (tracker_run t ns)) = remdups_adj (progress_states None (run_events run ns))
    | Some q \<Rightarrow> q # progress_of run (snd (tracker_run t ns)) = remdups_adj (q # progress_states (Some q) (run_events run ns))"
  using assms
proof (induction ns arbitrary: t)
  case Nil
  then show ?case by (simp add: run_events_def split: option.split)
next
  case (Cons n ns)
  show ?case
  proof (cases "\<exists>o' c ty. n = N_Run_Event o' c run ty")
    case False
    define t1 where "t1 = fst (tracker_apply t n)"
    note other = apply_other [of run n t, folded t1_def]
    have same: "tr_runs t1 run = tr_runs t run" "run \<notin> set (tr_finished t1)"
      using other False Cons.prems by auto
    have events: "run_events run (n # ns) = run_events run ns"
      using False by (auto simp: run_events_Cons split: notification.split)
    have out: "progress_of run (snd (tracker_run t (n # ns))) = progress_of run (snd (tracker_run t1 ns))"
      using other(3) False Cons.prems
      by (auto simp: Let_def t1_def split_beta progress_of_def split: option.split)
    show ?thesis unfolding out events same(1) [symmetric]
      using Cons.IH [of t1] Cons.prems same(2) by simp
  next
    case True
    then obtain o' c ty where n: "n = N_Run_Event o' c run ty" by blast
    then have live: "ty \<notin> set TERMINAL_EVENTS" "run \<notin> set (tr_finished t)" using Cons.prems by auto
    have events: "run_events run (n # ns) = ty # run_events run ns" by (simp add: run_events_Cons n)
    show ?thesis
    proof (cases "phaseOfEvent ty")
      case None
      then have "ty \<noteq> js ''model.requested''" using model_requested_phase by auto
      then have "tracker_apply t n = (t, None)" using None live by (simp add: n)
      then have out: "progress_of run (snd (tracker_run t (n # ns))) = progress_of run (snd (tracker_run t ns))"
        by (simp add: split_beta)
      have states: "progress_states p (run_events run (n # ns)) = progress_states p (run_events run ns)" for p
        using None by (simp add: events)
      show ?thesis unfolding out states using Cons.IH [of t] Cons.prems by simp
    next
      case (Some ph)
      define q where "q = \<lparr>rp_phase = ph, rp_step = (case tr_runs t run of None \<Rightarrow> 0 | Some x \<Rightarrow> rp_step x) +
        (if ty = js ''model.requested'' then 1 else 0)\<rparr>"
      have step: "tracker_apply t n = (if tr_runs t run = Some q then (t, None)
          else (t\<lparr>tr_runs := (tr_runs t)(run \<mapsto> q)\<rparr>, Some \<lparr>pm_run = run, pm_chat = c, pm_phase = rp_phase q, pm_step = rp_step q\<rparr>))"
        using live Some by (simp add: n q_def Let_def)
      have states: "progress_states (tr_runs t run) (ty # run_events run ns) = q # progress_states (Some q) (run_events run ns)"
        using Some by (simp add: q_def Let_def)
      show ?thesis
      proof (cases "tr_runs t run = Some q")
        case True
        then have "progress_states (Some q) (ty # run_events run ns) = q # progress_states (Some q) (run_events run ns)"
          using states by simp
        then show ?thesis using True Cons.IH [of t] Cons.prems step by (simp add: events Let_def split_beta)
      next
        case False
        define t1 where "t1 = t\<lparr>tr_runs := (tr_runs t)(run \<mapsto> q)\<rparr>"
        have IH: "q # progress_of run (snd (tracker_run t1 ns)) = remdups_adj (q # progress_states (Some q) (run_events run ns))"
          using Cons.IH [of t1] Cons.prems by (simp add: t1_def)
        have out: "progress_of run (snd (tracker_run t (n # ns))) = q # progress_of run (snd (tracker_run t1 ns))"
          using False step by (simp add: t1_def split_beta)
        show ?thesis
        proof (cases "tr_runs t run")
          case None
          then show ?thesis using states IH out by (simp add: events)
        next
          case (Some p)
          then have "p \<noteq> q" using False by simp
          then show ?thesis using Some states IH out by (simp add: events)
        qed
      qed
    qed
  qed
qed

text \<open>C33: For a run that has not ended, the messages the tracker emits are exactly the changes of
  its progress: the phase of the last event that carries one and the count of model requests so far,
  with one message where the two change and none where they stay, however many events arrive and
  whatever arrives for other runs in between.\<close>

theorem progress_messages_are_changes:
  assumes "\<forall>n\<in>set ns. \<not> ends_run run n"
  shows "progress_of run (snd (tracker_run new_tracker ns)) = remdups_adj (progress_states None (run_events run ns))"
  using tracker_run_progress [OF assms, of new_tracker] by (simp add: new_tracker_def)

lemma progress_messages_are_changes_witness:
  "progress_of (js ''r'') (snd (tracker_run new_tracker
     [N_Run_Event (js ''o'') (js ''c'') (js ''r'') (js ''model.requested''),
      N_Run_Event (js ''o'') (js ''c'') (js ''r'') (js ''model.delta''),
      N_Run_Event (js ''o'') (js ''c'') (js ''r'') (js ''model.delta'')])) =
   [\<lparr>rp_phase = Phase_Thinking, rp_step = 1\<rparr>, \<lparr>rp_phase = Phase_Writing, rp_step = 1\<rparr>]"
  by (subst progress_messages_are_changes)
    (simp_all add: TERMINAL_EVENTS_def TERMINAL_RUN_STATUSES_def run_events_def phaseOfEvent_def Let_def flip: js_append)

lemma tracker_bounds:
  "length (tr_finished t) \<le> FINISHED_CAP \<Longrightarrow> length (tr_finished (fst (tracker_apply t n))) \<le> FINISHED_CAP"
  by (cases n) (auto simp: Let_def finish_def FINISHED_CAP_def)

lemma finished_grows:
  assumes "run \<in> set (tr_finished t)" "length (tr_finished t) < FINISHED_CAP"
  shows "run \<in> set (tr_finished (fst (tracker_apply t n))) \<and>
    length (tr_finished (fst (tracker_apply t n))) \<le> length (tr_finished t) + (if \<exists>r. ends_run r n then 1 else 0)"
  using assms by (cases n) (auto simp: Let_def finish_def)

text \<open>A run that has ended is silent while the ended runs fit the set that remembers them.\<close>

lemma tracker_run_silent:
  assumes "run \<in> set (tr_finished t)"
    "length (tr_finished t) + length (filter (\<lambda>n. \<exists>r. ends_run r n) ns) \<le> FINISHED_CAP"
  shows "progress_of run (snd (tracker_run t ns)) = []"
  using assms
proof (induction ns arbitrary: t)
  case (Cons n ns)
  define t1 where "t1 = fst (tracker_apply t n)"
  have "run \<in> set (tr_finished t1) \<and> length (tr_finished t1) \<le> length (tr_finished t) + (if \<exists>r. ends_run r n then 1 else 0)"
  proof (cases "\<exists>r. ends_run r n")
    case True
    then have "length (tr_finished t) < FINISHED_CAP" using Cons.prems by simp
    then show ?thesis unfolding t1_def using Cons.prems(1) by (intro finished_grows)
  next
    case False
    then have "tr_finished t1 = tr_finished t" unfolding t1_def by (cases n) (auto simp: Let_def)
    then show ?thesis using Cons.prems(1) by simp
  qed
  then have "progress_of run (snd (tracker_run t1 ns)) = []" using Cons.prems by (intro Cons.IH) (auto split: if_splits)
  moreover have "snd (tracker_apply t n) = Some m \<Longrightarrow> pm_run m \<noteq> run" for m
    using Cons.prems(1) by (cases n) (auto simp: Let_def split: if_splits)
  ultimately show ?case by (auto simp: t1_def split_beta Let_def split: option.split)
qed simp

lemma tracker_run_append:
  "tracker_run t (xs @ ys) = (let (t1, ms) = tracker_run t xs; (t2, ms') = tracker_run t1 ys in (t2, ms @ ms'))"
  by (induction xs arbitrary: t) (simp_all add: Let_def split_beta split: option.split)

lemma tracker_run_bounds:
  "length (tr_finished t) \<le> FINISHED_CAP \<Longrightarrow> length (tr_finished (fst (tracker_run t ns))) \<le> FINISHED_CAP"
  by (induction ns arbitrary: t) (simp_all add: Let_def split_beta tracker_bounds)

lemma tracker_run_growth:
  "length (tr_finished (fst (tracker_run t ns))) \<le> length (tr_finished t) + length (filter (\<lambda>n. \<exists>r. ends_run r n) ns)"
proof (induction ns arbitrary: t)
  case (Cons n ns)
  have "length (tr_finished (fst (tracker_apply t n))) \<le> length (tr_finished t) + (if \<exists>r. ends_run r n then 1 else 0)"
    by (cases n) (auto simp: Let_def finish_def)
  then show ?case using Cons.IH [of "fst (tracker_apply t n)"]
    by (cases "\<exists>r. ends_run r n") (simp_all add: split_beta Let_def)
qed simp

lemma ends_run_finishes: "ends_run run n \<Longrightarrow> run \<in> set (tr_finished (fst (tracker_apply t n)))"
  by (cases n) (auto simp: finish_def Let_def)

text \<open>C34: Once a run has ended, a late event of it is swallowed: among the first 1024 notifications
  that end a run, no progress message of a run follows the notification that ended it. The set of
  ended runs never grows past 1024.\<close>

theorem ended_run_is_silent:
  assumes "ends_run run n" "length (filter (\<lambda>n. \<exists>r. ends_run r n) (xs @ n # ys)) \<le> FINISHED_CAP"
  shows "progress_of run (snd (tracker_run (fst (tracker_run new_tracker (xs @ [n]))) ys)) = [] \<and>
    length (tr_finished (fst (tracker_run new_tracker zs))) \<le> FINISHED_CAP"
proof
  let ?t = "fst (tracker_run new_tracker (xs @ [n]))"
  have "run \<in> set (tr_finished ?t)"
    using ends_run_finishes [OF assms(1)] by (simp add: tracker_run_append Let_def split_beta)
  moreover have "length (tr_finished ?t) \<le> length (filter (\<lambda>n. \<exists>r. ends_run r n) (xs @ [n]))"
    using tracker_run_growth [of new_tracker "xs @ [n]"] by (simp add: new_tracker_def)
  ultimately show "progress_of run (snd (tracker_run ?t ys)) = []"
    using assms(2) by (intro tracker_run_silent) (auto split: if_splits)
  show "length (tr_finished (fst (tracker_run new_tracker zs))) \<le> FINISHED_CAP"
    by (rule tracker_run_bounds) (simp add: new_tracker_def)
qed

lemma ended_run_is_silent_witness:
  "progress_of (js ''r'') (snd (tracker_run (fst (tracker_run new_tracker ([] @ [N_Run (js ''o'') (js ''r'') Completed])))
     [N_Run_Event (js ''o'') (js ''c'') (js ''r'') (js ''model.delta'')])) = []"
  by (rule ended_run_is_silent [THEN conjunct1])
    (simp_all add: isTerminalRunStatus_def TERMINAL_RUN_STATUSES_def FINISHED_CAP_def TERMINAL_EVENTS_def flip: js_append)

text \<open>Past the cap the set is emptied and a late run speaks again, as often as its progress changes.\<close>

lemma straggler_speaks_twice:
  "length (tr_finished t) = FINISHED_CAP \<Longrightarrow> tr_runs t run = None \<Longrightarrow> run \<noteq> other \<Longrightarrow>
   progress_of run (snd (tracker_run t [N_Run o1 other Completed,
     N_Run_Event o2 c run (js ''model.delta''), N_Run_Event o2 c run (js ''tool.started'')])) =
   [\<lparr>rp_phase = Phase_Writing, rp_step = 0\<rparr>, \<lparr>rp_phase = Phase_Tool, rp_step = 0\<rparr>]"
  by (simp add: finish_def Let_def isTerminalRunStatus_def TERMINAL_RUN_STATUSES_def TERMINAL_EVENTS_def phaseOfEvent_def
      flip: js_append)

section \<open>Which record a notification asks for\<close>

text \<open>The owner a load reads as: none for the instance-wide record and for a message that is ready.\<close>

fun reads_as :: "load \<Rightarrow> jstr option" where
  "reads_as (Read_Chat owner _) = Some owner"
| "reads_as (Read_Project owner _) = Some owner"
| "reads_as (Read_Pins owner) = Some owner"
| "reads_as (Read_Run owner _) = Some owner"
| "reads_as _ = None"

fun notification_owner :: "notification \<Rightarrow> jstr option" where
  "notification_owner (N_Machine _ _) = None"
| "notification_owner (N_Chat owner _ _) = Some owner"
| "notification_owner (N_Project owner _ _) = Some owner"
| "notification_owner (N_Pin owner) = Some owner"
| "notification_owner (N_Run owner _ _) = Some owner"
| "notification_owner (N_Run_Event owner _ _ _) = Some owner"

lemma job_reads_as_owner: "recordJobFor n = Some j \<Longrightarrow> \<not> is_ready (job_load j) \<Longrightarrow> reads_as (job_load j) = notification_owner n"
  by (cases n) (auto simp: ready_def chatJob_def machineJob_def projectJob_def runJob_def split: if_splits)

text \<open>Among the jobs of one owner, the key names the read.\<close>

lemma job_key_load:
  assumes "recordJobFor n = Some j" "recordJobFor n' = Some j'" "notification_owner n = notification_owner n'"
    "job_key j = Some k" "job_key j' = Some k"
  shows "job_load j = job_load j'"
  using assms
  by (cases n; cases n') (auto simp: ready_def chatJob_def machineJob_def projectJob_def runJob_def js.simps split: if_splits)

text \<open>A notification is dropped unless it names what it is about: no message is accepted without
  an owner, except the instance-wide one, and no name in an accepted notification is empty.\<close>

lemma parsed_notification_complete:
  assumes "parseChangeNotification nearest raw = Some n"
  shows "(case n of N_Machine m d \<Rightarrow> m \<noteq> [] | N_Chat w c d \<Rightarrow> w \<noteq> [] \<and> c \<noteq> [] | N_Project w p d \<Rightarrow> w \<noteq> [] \<and> p \<noteq> []
    | N_Pin w \<Rightarrow> w \<noteq> [] | N_Run w r s \<Rightarrow> w \<noteq> [] \<and> r \<noteq> []
    | N_Run_Event w c r t \<Rightarrow> w \<noteq> [] \<and> c \<noteq> [] \<and> r \<noteq> [] \<and> t \<noteq> [])"
proof -
  have field: "str_field kvs k = Some s \<Longrightarrow> s \<noteq> []" for kvs k s
    by (auto simp: str_field_def split: jsval.splits if_splits)
  show ?thesis using assms field
    by (auto simp: parseChangeNotification_def parseKind_def Let_def split: option.splits if_splits)
qed

end
