(* ===== verification/Change_Hub.thy ===== *)
theory Change_Hub
  imports Live_Messages
begin

text \<open>
  The change hub (\<^verbatim>\<open>apps/api/src/live/change-hub.service.ts\<close>): one listener fanned out to
  subscribers, with one send queue per audience. The \<^verbatim>\<open>Set\<close>s of subscribers and the queues are
  objects that closures and running drains keep hold of, so they live in stores and are named by
  their number; the maps of the class hold those numbers. A drain is asynchronous: it stops at each
  \<^verbatim>\<open>await job.load(...)\<close> and goes on when the load settles, and everything else may run in
  between. The loader's answers are inputs of the model, and so is \<open>wire\<close>: the serialized message, or
  \<open>None\<close> when the generated wire schema refuses it. \<open>hub_log\<close> records what the hub did, in order.
\<close>

section \<open>State\<close>

datatype audience = Owner jstr | Instance

record send_queue =
  q_jobs :: "job list"
  q_waiting :: "jstr list"

text \<open>A drain that waits for a load: its audience, its queue and the job.\<close>

record drain_task =
  dt_audience :: audience
  dt_queue :: nat
  dt_job :: job

datatype ('s, 'f) change_hub_event =
    Accepted audience load
  | Started audience load
  | Delivered audience 's 'f

record ('s, 'f) change_hub =
  hub_sets :: "nat \<Rightarrow> 's list"
  hub_next_set :: nat
  hub_subscribers :: "(jstr \<times> nat) list"
  hub_instance :: "'s list"
  hub_tracker :: tracker
  hub_queues :: "audience \<Rightarrow> nat option"
  hub_queue :: "nat \<Rightarrow> send_queue"
  hub_next_queue :: nat
  hub_drains :: "drain_task list"
  hub_listenCount :: nat
  hub_log :: "('s, 'f) change_hub_event list"

definition new_hub :: "('s, 'f) change_hub" where
  "new_hub = \<lparr>hub_sets = (\<lambda>_. []), hub_next_set = 0, hub_subscribers = [], hub_instance = [],
     hub_tracker = new_tracker, hub_queues = Map.empty, hub_queue = (\<lambda>_. \<lparr>q_jobs = [], q_waiting = []\<rparr>),
     hub_next_queue = 0, hub_drains = [], hub_listenCount = 0, hub_log = []\<rparr>"

definition add_to_set :: "'a \<Rightarrow> 'a list \<Rightarrow> 'a list" where
  "add_to_set x xs = (if x \<in> set xs then xs else xs @ [x])"

section \<open>Sending\<close>

definition audience_subscribers :: "('s, 'f) change_hub \<Rightarrow> audience \<Rightarrow> 's list" where
  "audience_subscribers h a =
     (case a of
        Instance \<Rightarrow> hub_instance h
      | Owner w \<Rightarrow> (case map_of (hub_subscribers h) w of None \<Rightarrow> [] | Some i \<Rightarrow> hub_sets h i))"

definition deliver_all :: "audience \<Rightarrow> 'f \<Rightarrow> ('s, 'f) change_hub \<Rightarrow> ('s, 'f) change_hub" where
  "deliver_all a f h = h\<lparr>hub_log := hub_log h @ map (\<lambda>s. Delivered a s f) (audience_subscribers h a)\<rparr>"

text \<open>A message the schema refuses is replaced by one \<^verbatim>\<open>resync\<close>; a refused \<^verbatim>\<open>resync\<close> is dropped.\<close>

definition hub_send :: "('r live_message \<Rightarrow> 'f option) \<Rightarrow> audience \<Rightarrow> 'r live_message \<Rightarrow> ('s, 'f) change_hub \<Rightarrow> ('s, 'f) change_hub" where
  "hub_send wire a m h =
     (if audience_subscribers h a = [] then h
      else (case wire m of
              Some f \<Rightarrow> deliver_all a f h
            | None \<Rightarrow>
                if m \<noteq> Resync then (case wire Resync of Some f \<Rightarrow> deliver_all a f h | None \<Rightarrow> h) else h))"

section \<open>The send queue\<close>

text \<open>The head of \<^verbatim>\<open>drain\<close>'s loop: take the next job and start its load, or leave.\<close>

definition drain_next :: "audience \<Rightarrow> nat \<Rightarrow> ('s, 'f) change_hub \<Rightarrow> ('s, 'f) change_hub" where
  "drain_next a q h =
     (case q_jobs (hub_queue h q) of
        [] \<Rightarrow> h\<lparr>hub_queues := (hub_queues h)(a := None)\<rparr>
      | j # rest \<Rightarrow>
          (let waiting = q_waiting (hub_queue h q);
               waiting' = (case job_key j of None \<Rightarrow> waiting | Some k \<Rightarrow> filter (\<lambda>x. x \<noteq> k) waiting)
           in h\<lparr>hub_queue := (hub_queue h)(q := \<lparr>q_jobs = rest, q_waiting = waiting'\<rparr>),
                hub_drains := hub_drains h @ [\<lparr>dt_audience = a, dt_queue = q, dt_job = j\<rparr>],
                hub_log := hub_log h @ [Started a (job_load j)]\<rparr>))"

text \<open>The end of one turn of the loop: the load of the \<open>i\<close>-th waiting drain has settled.\<close>

definition settle :: "('r live_message \<Rightarrow> 'f option) \<Rightarrow> nat \<Rightarrow> 'r outcome \<Rightarrow> ('s, 'f) change_hub \<Rightarrow> ('s, 'f) change_hub" where
  "settle wire i res h =
     (if i < length (hub_drains h)
      then
        (let d = hub_drains h ! i; a = dt_audience d;
             h1 = h\<lparr>hub_drains := take i (hub_drains h) @ drop (Suc i) (hub_drains h)\<rparr>;
             h2 = (if res = Raised \<and> \<not> is_ready (job_load (dt_job d)) then hub_send wire a Resync h1
                   else (case load_message (job_load (dt_job d)) res of None \<Rightarrow> h1 | Some m \<Rightarrow> hub_send wire a m h1))
         in drain_next a (dt_queue d) h2)
      else h)"

definition push_job :: "job \<Rightarrow> send_queue \<Rightarrow> send_queue" where
  "push_job j q = \<lparr>q_jobs = q_jobs q @ [j],
     q_waiting = (case job_key j of None \<Rightarrow> q_waiting q | Some k \<Rightarrow> add_to_set k (q_waiting q))\<rparr>"

definition enqueue :: "audience \<Rightarrow> job \<Rightarrow> ('s, 'f) change_hub \<Rightarrow> ('s, 'f) change_hub" where
  "enqueue a j h0 =
     (let h = h0\<lparr>hub_log := hub_log h0 @ [Accepted a (job_load j)]\<rparr> in
      case hub_queues h a of
        Some q \<Rightarrow>
          (if (case job_key j of None \<Rightarrow> False | Some k \<Rightarrow> k \<in> set (q_waiting (hub_queue h q))) then h
           else h\<lparr>hub_queue := (hub_queue h)(q := push_job j (hub_queue h q))\<rparr>)
      | None \<Rightarrow>
          (let q = hub_next_queue h in
           drain_next a q
             (h\<lparr>hub_queue := (hub_queue h)(q := push_job j \<lparr>q_jobs = [], q_waiting = []\<rparr>),
                hub_next_queue := q + 1, hub_queues := (hub_queues h)(a \<mapsto> q)\<rparr>)))"

section \<open>Subscriptions and notifications\<close>

text \<open>\<^verbatim>\<open>subscribe\<close> returns the closure that ends the subscription: it holds the owner, the set and the
  subscriber.\<close>

definition subscribe :: "jstr \<Rightarrow> 's \<Rightarrow> ('s, 'f) change_hub \<Rightarrow> (jstr \<times> nat \<times> 's) \<times> ('s, 'f) change_hub" where
  "subscribe w s h =
     (case map_of (hub_subscribers h) w of
        Some i \<Rightarrow> ((w, i, s), h\<lparr>hub_sets := (hub_sets h)(i := add_to_set s (hub_sets h i))\<rparr>)
      | None \<Rightarrow>
          (let i = hub_next_set h in
           ((w, i, s), h\<lparr>hub_sets := (hub_sets h)(i := [s]), hub_next_set := i + 1,
                          hub_subscribers := map_set (hub_subscribers h) w i\<rparr>)))"

fun unsubscribe :: "jstr \<times> nat \<times> 's \<Rightarrow> ('s, 'f) change_hub \<Rightarrow> ('s, 'f) change_hub" where
  "unsubscribe (w, i, s) h =
     (let left = filter (\<lambda>x. x \<noteq> s) (hub_sets h i); h1 = h\<lparr>hub_sets := (hub_sets h)(i := left)\<rparr>
      in if left = [] then h1\<lparr>hub_subscribers := map_delete (hub_subscribers h1) w\<rparr> else h1)"

definition subscribeInstance :: "'s \<Rightarrow> ('s, 'f) change_hub \<Rightarrow> ('s, 'f) change_hub" where
  "subscribeInstance s h = h\<lparr>hub_instance := add_to_set s (hub_instance h)\<rparr>"

definition unsubscribeInstance :: "'s \<Rightarrow> ('s, 'f) change_hub \<Rightarrow> ('s, 'f) change_hub" where
  "unsubscribeInstance s h = h\<lparr>hub_instance := filter (\<lambda>x. x \<noteq> s) (hub_instance h)\<rparr>"

definition dispatchInstance :: "notification \<Rightarrow> ('s, 'f) change_hub \<Rightarrow> ('s, 'f) change_hub" where
  "dispatchInstance n h =
     (if hub_instance h = [] then h else (case recordJobFor n of None \<Rightarrow> h | Some j \<Rightarrow> enqueue Instance j h))"

definition dispatch :: "('r live_message \<Rightarrow> 'f option) \<Rightarrow> notification \<Rightarrow> ('s, 'f) change_hub \<Rightarrow> ('s, 'f) change_hub" where
  "dispatch wire n h =
     (case notification_owner n of
        None \<Rightarrow> dispatchInstance n h
      | Some w \<Rightarrow>
          (let (t, progress) = tracker_apply (hub_tracker h) n;
               h1 = h\<lparr>hub_tracker := t\<rparr>;
               h2 = (case progress of None \<Rightarrow> h1 | Some m \<Rightarrow> hub_send wire (Owner w) (Run_Progress m) h1)
           in if map_of (hub_subscribers h2) w = None then h2
              else (case recordJobFor n of None \<Rightarrow> h2 | Some j \<Rightarrow> enqueue (Owner w) j h2)))"

text \<open>\<^verbatim>\<open>dispatch\<close> on the payload itself; a malformed one is dropped.\<close>

definition dispatch_raw ::
    "(jsnum \<Rightarrow> jsnum) \<Rightarrow> ('r live_message \<Rightarrow> 'f option) \<Rightarrow> jstr \<Rightarrow> ('s, 'f) change_hub \<Rightarrow> ('s, 'f) change_hub" where
  "dispatch_raw nearest wire raw h =
     (case parseChangeNotification nearest raw of None \<Rightarrow> h | Some n \<Rightarrow> dispatch wire n h)"

definition onListen :: "('r live_message \<Rightarrow> 'f option) \<Rightarrow> ('s, 'f) change_hub \<Rightarrow> ('s, 'f) change_hub" where
  "onListen wire h0 =
     (let h = h0\<lparr>hub_listenCount := hub_listenCount h0 + 1\<rparr> in
      if hub_listenCount h = 1 then h
      else foldl (\<lambda>g w. hub_send wire (Owner w) Resync g) h (map fst (hub_subscribers h)))"

definition onModuleDestroy :: "('s, 'f) change_hub \<Rightarrow> ('s, 'f) change_hub" where
  "onModuleDestroy h = h\<lparr>hub_subscribers := [], hub_instance := [], hub_queues := Map.empty\<rparr>"

text \<open>What may happen to a hub before it is destroyed.\<close>

datatype ('s, 'r) hub_action =
    Subscribe jstr 's
  | Unsubscribe "jstr \<times> nat \<times> 's"
  | Subscribe_Instance 's
  | Unsubscribe_Instance 's
  | Notify notification
  | Listen
  | Settle nat "'r outcome"

fun hub_step :: "('r live_message \<Rightarrow> 'f option) \<Rightarrow> ('s, 'r) hub_action \<Rightarrow> ('s, 'f) change_hub \<Rightarrow> ('s, 'f) change_hub" where
  "hub_step wire (Subscribe w s) h = snd (subscribe w s h)"
| "hub_step wire (Unsubscribe handle) h = unsubscribe handle h"
| "hub_step wire (Subscribe_Instance s) h = subscribeInstance s h"
| "hub_step wire (Unsubscribe_Instance s) h = unsubscribeInstance s h"
| "hub_step wire (Notify n) h = dispatch wire n h"
| "hub_step wire Listen h = onListen wire h"
| "hub_step wire (Settle i res) h = settle wire i res h"

definition hub_run :: "('r live_message \<Rightarrow> 'f option) \<Rightarrow> ('s, 'r) hub_action list \<Rightarrow> ('s, 'f) change_hub" where
  "hub_run wire steps = foldl (\<lambda>h e. hub_step wire e h) new_hub steps"

section \<open>The queue invariant\<close>

text \<open>A job that belongs to an audience: the job of a notification of that owner, or an instance-wide one.\<close>

definition job_of :: "audience \<Rightarrow> job \<Rightarrow> bool" where
  "job_of a j \<longleftrightarrow> (\<exists>n. recordJobFor n = Some j \<and> notification_owner n = (case a of Owner w \<Rightarrow> Some w | Instance \<Rightarrow> None))"

definition job_keys :: "job list \<Rightarrow> jstr list" where
  "job_keys jobs = List.map_filter job_key jobs"

text \<open>\<^verbatim>\<open>waiting\<close> holds the keys of the queued jobs, each once.\<close>

definition queue_ok :: "audience \<Rightarrow> send_queue \<Rightarrow> bool" where
  "queue_ok a q \<longleftrightarrow> distinct (job_keys (q_jobs q)) \<and> set (q_waiting q) = set (job_keys (q_jobs q)) \<and> (\<forall>j\<in>set (q_jobs q). job_of a j)"

text \<open>The reads that were asked for and have not started since.\<close>

fun unserved_step :: "('s, 'f) change_hub_event \<Rightarrow> (audience \<times> load) list \<Rightarrow> (audience \<times> load) list" where
  "unserved_step (Accepted a l) us = add_to_set (a, l) us"
| "unserved_step (Started a l) us = filter (\<lambda>u. u \<noteq> (a, l)) us"
| "unserved_step (Delivered a s f) us = us"

definition unserved :: "('s, 'f) change_hub_event list \<Rightarrow> (audience \<times> load) list" where
  "unserved es = foldl (\<lambda>us e. unserved_step e us) [] es"

text \<open>The queue of each audience is drained by one task, except the one named by \<open>idle\<close>.\<close>

definition drains_ok :: "nat option \<Rightarrow> ('s, 'f) change_hub \<Rightarrow> bool" where
  "drains_ok idle h \<longleftrightarrow>
     distinct (map dt_queue (hub_drains h)) \<and> (\<forall>d\<in>set (hub_drains h). idle \<noteq> Some (dt_queue d)) \<and>
     (\<forall>d\<in>set (hub_drains h). hub_queues h (dt_audience d) = Some (dt_queue d) \<and> job_of (dt_audience d) (dt_job d)) \<and>
     (\<forall>a q. hub_queues h a = Some q \<longrightarrow> idle = Some q \<or> (\<exists>d\<in>set (hub_drains h). dt_queue d = q))"

definition queues_ok :: "('s, 'f) change_hub \<Rightarrow> bool" where
  "queues_ok h \<longleftrightarrow>
     (\<forall>a q. hub_queues h a = Some q \<longrightarrow> q < hub_next_queue h \<and> queue_ok a (hub_queue h q)) \<and>
     (\<forall>a b q. hub_queues h a = Some q \<longrightarrow> hub_queues h b = Some q \<longrightarrow> a = b)"

definition served_ok :: "('s, 'f) change_hub \<Rightarrow> bool" where
  "served_ok h \<longleftrightarrow>
     (\<forall>(a, l)\<in>set (unserved (hub_log h)). \<exists>q. hub_queues h a = Some q \<and> l \<in> job_load ` set (q_jobs (hub_queue h q)))"

definition started_ok :: "('s, 'f) change_hub \<Rightarrow> bool" where
  "started_ok h \<longleftrightarrow> (\<forall>a l. Started a l \<in> set (hub_log h) \<longrightarrow> (\<exists>j. job_of a j \<and> job_load j = l))"

definition hub_ok :: "nat option \<Rightarrow> ('s, 'f) change_hub \<Rightarrow> bool" where
  "hub_ok idle h \<longleftrightarrow> drains_ok idle h \<and> queues_ok h \<and> served_ok h \<and> started_ok h"

lemmas hub_ok_defs = hub_ok_def drains_ok_def queues_ok_def served_ok_def started_ok_def

lemma set_add_to_set [simp]: "set (add_to_set x xs) = insert x (set xs)"
  by (auto simp: add_to_set_def)

lemma unserved_snoc: "unserved (es @ [e]) = unserved_step e (unserved es)"
  by (simp add: unserved_def)

lemma unserved_delivered [simp]: "unserved (es @ map (\<lambda>s. Delivered a s f) ss) = unserved es"
  by (induction ss rule: rev_induct) (simp_all add: unserved_snoc flip: append_assoc)

text \<open>The frame a message is sent as, if any.\<close>

definition sent_frame :: "('r live_message \<Rightarrow> 'f option) \<Rightarrow> 'r live_message \<Rightarrow> 'f option" where
  "sent_frame wire m = (case wire m of Some f \<Rightarrow> Some f | None \<Rightarrow> if m \<noteq> Resync then wire Resync else None)"

lemma hub_send_eq:
  "hub_send wire a m h = (case sent_frame wire m of None \<Rightarrow> h | Some f \<Rightarrow> deliver_all a f h)"
  by (simp add: hub_send_def sent_frame_def deliver_all_def split: option.split)

lemma deliver_all_simps [simp]:
  "hub_drains (deliver_all a f h) = hub_drains h" "hub_queues (deliver_all a f h) = hub_queues h"
  "hub_queue (deliver_all a f h) = hub_queue h" "hub_next_queue (deliver_all a f h) = hub_next_queue h"
  "hub_subscribers (deliver_all a f h) = hub_subscribers h" "hub_sets (deliver_all a f h) = hub_sets h"
  "hub_instance (deliver_all a f h) = hub_instance h" "hub_next_set (deliver_all a f h) = hub_next_set h"
  "hub_tracker (deliver_all a f h) = hub_tracker h" "hub_listenCount (deliver_all a f h) = hub_listenCount h"
  "unserved (hub_log (deliver_all a f h)) = unserved (hub_log h)"
  "Started b l \<in> set (hub_log (deliver_all a f h)) \<longleftrightarrow> Started b l \<in> set (hub_log h)"
  by (auto simp: deliver_all_def)

lemma hub_send_simps [simp]:
  "hub_drains (hub_send wire a m h) = hub_drains h" "hub_queues (hub_send wire a m h) = hub_queues h"
  "hub_queue (hub_send wire a m h) = hub_queue h" "hub_next_queue (hub_send wire a m h) = hub_next_queue h"
  "hub_subscribers (hub_send wire a m h) = hub_subscribers h" "hub_sets (hub_send wire a m h) = hub_sets h"
  "hub_instance (hub_send wire a m h) = hub_instance h" "hub_next_set (hub_send wire a m h) = hub_next_set h"
  "hub_tracker (hub_send wire a m h) = hub_tracker h" "hub_listenCount (hub_send wire a m h) = hub_listenCount h"
  "unserved (hub_log (hub_send wire a m h)) = unserved (hub_log h)"
  "Started b l \<in> set (hub_log (hub_send wire a m h)) \<longleftrightarrow> Started b l \<in> set (hub_log h)"
  by (simp_all add: hub_send_eq split: option.split)

lemma hub_ok_send [simp]: "hub_ok idle (hub_send wire a m h) \<longleftrightarrow> hub_ok idle h"
  by (simp add: hub_ok_defs)

text \<open>What the invariant reads of a hub.\<close>

lemma hub_ok_cong:
  assumes "hub_drains h' = hub_drains h" "hub_queues h' = hub_queues h" "hub_queue h' = hub_queue h"
    "hub_next_queue h' = hub_next_queue h" "hub_log h' = hub_log h"
  shows "hub_ok idle h' \<longleftrightarrow> hub_ok idle h"
  by (simp add: hub_ok_defs assms)

lemma job_of_key: "job_of a j \<Longrightarrow> job_of a j' \<Longrightarrow> job_key j = Some k \<Longrightarrow> job_key j' = Some k \<Longrightarrow> job_load j = job_load j'"
  unfolding job_of_def using job_key_load by (cases a) metis+

lemma job_keys_simps [simp]:
  "job_keys [] = []" "job_keys (j # rest) = (case job_key j of None \<Rightarrow> [] | Some k \<Rightarrow> [k]) @ job_keys rest"
  "job_keys (xs @ ys) = job_keys xs @ job_keys ys"
  by (simp_all add: job_keys_def map_filter_def split: option.split)

lemma job_keys_mem: "k \<in> set (job_keys jobs) \<longleftrightarrow> (\<exists>j\<in>set jobs. job_key j = Some k)"
  by (induction jobs) (auto split: option.split)

lemma drain_next_drains:
  assumes ok: "drains_ok (Some q) h" and q: "hub_queues h a = Some q" and inj: "\<And>b. hub_queues h b = Some q \<Longrightarrow> b = a"
    and jobs: "\<And>j. j \<in> set (q_jobs (hub_queue h q)) \<Longrightarrow> job_of a j"
  shows "drains_ok None (drain_next a q h)"
proof (cases "q_jobs (hub_queue h q)")
  case Nil
  have keep: "hub_queues h (dt_audience d) = Some (dt_queue d)" "dt_queue d \<noteq> q" if "d \<in> set (hub_drains h)" for d
    using ok that unfolding drains_ok_def by blast+
  then have "dt_audience d \<noteq> a" if "d \<in> set (hub_drains h)" for d using q that by fastforce
  then show ?thesis using ok inj keep Nil unfolding drains_ok_def by (simp add: drain_next_def) (metis option.inject)
next
  case (Cons j rest)
  have "job_of a j" using jobs Cons by simp
  then show ?thesis using ok q Cons unfolding drains_ok_def by (simp add: drain_next_def Let_def) blast
qed

lemma drain_next_served:
  assumes ok: "served_ok h" and q: "hub_queues h a = Some q" and inj: "\<And>b. hub_queues h b = Some q \<Longrightarrow> b = a"
  shows "served_ok (drain_next a q h)"
proof (cases "q_jobs (hub_queue h q)")
  case Nil
  then show ?thesis using ok q unfolding served_ok_def by (fastforce simp: drain_next_def)
next
  case (Cons j rest)
  show ?thesis unfolding served_ok_def
  proof (clarify)
    fix b l assume "(b, l) \<in> set (unserved (hub_log (drain_next a q h)))"
    then have u: "(b, l) \<in> set (unserved (hub_log h))" "(b, l) \<noteq> (a, job_load j)"
      using Cons by (auto simp: drain_next_def Let_def unserved_snoc)
    then obtain p where p: "hub_queues h b = Some p" "l \<in> job_load ` set (q_jobs (hub_queue h p))"
      using ok by (auto simp: served_ok_def)
    have "p = q \<Longrightarrow> b = a" using p(1) inj by simp
    then show "\<exists>p. hub_queues (drain_next a q h) b = Some p \<and> l \<in> job_load ` set (q_jobs (hub_queue (drain_next a q h) p))"
      using p u(2) Cons by (intro exI [of _ p]) (auto simp: drain_next_def Let_def)
  qed
qed

lemma drain_next_queues:
  assumes "queues_ok h" "hub_queues h a = Some q"
  shows "queues_ok (drain_next a q h)"
proof (cases "q_jobs (hub_queue h q)")
  case Nil
  then show ?thesis using assms unfolding queues_ok_def by (simp add: drain_next_def)
next
  case (Cons j rest)
  let ?q = "\<lparr>q_jobs = rest, q_waiting = (case job_key j of None \<Rightarrow> q_waiting (hub_queue h q)
    | Some k \<Rightarrow> filter (\<lambda>x. x \<noteq> k) (q_waiting (hub_queue h q)))\<rparr>"
  have "queue_ok a (hub_queue h q)" using assms by (auto simp: queues_ok_def)
  then have "queue_ok a ?q" using Cons by (cases "job_key j") (auto simp: queue_ok_def)
  moreover have "b = a" if "hub_queues h b = Some q" for b using assms that unfolding queues_ok_def by blast
  moreover have same: "hub_queues (drain_next a q h) = hub_queues h" "hub_next_queue (drain_next a q h) = hub_next_queue h"
    "hub_queue (drain_next a q h) = (hub_queue h)(q := ?q)" using Cons by (simp_all add: drain_next_def Let_def)
  ultimately have "queue_ok b (hub_queue (drain_next a q h) p)" if "hub_queues h b = Some p" for b p
    using that assms(1) unfolding queues_ok_def by (cases "p = q") simp_all
  then show ?thesis using assms(1) same unfolding queues_ok_def by simp
qed

lemma drain_next_started:
  assumes "started_ok h" "\<And>j. j \<in> set (q_jobs (hub_queue h q)) \<Longrightarrow> job_of a j"
  shows "started_ok (drain_next a q h)"
proof (cases "q_jobs (hub_queue h q)")
  case Nil
  then show ?thesis using assms(1) by (simp add: started_ok_def drain_next_def)
next
  case (Cons j rest)
  then have "job_of a j" using assms(2) by simp
  then show ?thesis using assms(1) Cons unfolding started_ok_def by (auto simp: drain_next_def Let_def)
qed

lemma hub_ok_drain_next:
  assumes ok: "hub_ok (Some q) h" and q: "hub_queues h a = Some q"
  shows "hub_ok None (drain_next a q h)"
proof -
  have inj: "b = a" if "hub_queues h b = Some q" for b using ok q that unfolding hub_ok_def queues_ok_def by blast
  have jobs: "job_of a j" if "j \<in> set (q_jobs (hub_queue h q))" for j
    using ok q that unfolding hub_ok_def queues_ok_def queue_ok_def by blast
  show ?thesis using ok unfolding hub_ok_def
    by (intro conjI drain_next_drains drain_next_queues drain_next_served drain_next_started q inj jobs; simp)
qed

lemma hub_ok_settle:
  assumes ok: "hub_ok None h" and i: "i < length (hub_drains h)"
  shows "hub_ok None (settle wire i res h)"
proof -
  define d where "d = hub_drains h ! i"
  define ds where "ds = take i (hub_drains h) @ drop (Suc i) (hub_drains h)"
  define h1 where "h1 = h\<lparr>hub_drains := ds\<rparr>"
  have drains: "hub_drains h = take i (hub_drains h) @ d # drop (Suc i) (hub_drains h)"
    using i by (simp add: d_def id_take_nth_drop)
  have d: "hub_queues h (dt_audience d) = Some (dt_queue d)"
    using ok i by (auto simp: hub_ok_defs d_def)
  have "distinct (map dt_queue (take i (hub_drains h) @ d # drop (Suc i) (hub_drains h)))"
    using ok drains by (simp add: hub_ok_defs)
  then have sub: "dt_queue d \<notin> dt_queue ` set ds" "distinct (map dt_queue ds)" by (auto simp: ds_def)
  have set: "set (hub_drains h) = insert d (set ds)" using arg_cong [OF drains, of set] by (simp add: ds_def)
  have "drains_ok (Some (dt_queue d)) h1"
    using ok sub set unfolding hub_ok_def drains_ok_def h1_def by auto
  moreover have "queues_ok h1 \<and> served_ok h1 \<and> started_ok h1"
    using ok by (simp add: hub_ok_def queues_ok_def served_ok_def started_ok_def h1_def)
  ultimately have "hub_ok (Some (dt_queue d)) h1" by (simp add: hub_ok_def)
  then have "hub_ok None (drain_next (dt_audience d) (dt_queue d) (hub_send wire (dt_audience d) m h1))"
    "hub_ok None (drain_next (dt_audience d) (dt_queue d) h1)" for m
    using d by (auto intro!: hub_ok_drain_next simp: h1_def)
  then show ?thesis using i by (simp add: settle_def Let_def split: option.split flip: ds_def d_def h1_def)
qed

lemma queue_ok_push:
  assumes "queue_ok a q" "job_of a j" "\<forall>k. job_key j = Some k \<longrightarrow> k \<notin> set (q_waiting q)"
  shows "queue_ok a (push_job j q)"
  using assms by (cases "job_key j") (auto simp: queue_ok_def push_job_def)

lemma queue_ok_empty [simp]: "queue_ok a \<lparr>q_jobs = [], q_waiting = []\<rparr>"
  by (simp add: queue_ok_def)

lemma coalesced_load:
  assumes "queue_ok a q" "job_of a j" "job_key j = Some k" "k \<in> set (q_waiting q)"
  shows "job_load j \<in> job_load ` set (q_jobs q)"
proof -
  obtain j' where "j' \<in> set (q_jobs q)" "job_key j' = Some k"
    using assms by (auto simp: queue_ok_def job_keys_mem)
  then show ?thesis using assms job_of_key [of a j j' k] by (force simp: queue_ok_def)
qed

lemma served_ok_accept:
  assumes "served_ok h" "hub_queues h' = hub_queues h" "hub_log h' = hub_log h @ [Accepted a l]"
    "\<And>p. job_load ` set (q_jobs (hub_queue h p)) \<subseteq> job_load ` set (q_jobs (hub_queue h' p))"
    "hub_queues h a = Some q" "l \<in> job_load ` set (q_jobs (hub_queue h' q))"
  shows "served_ok h'"
proof -
  have "\<exists>p. hub_queues h' b = Some p \<and> m \<in> job_load ` set (q_jobs (hub_queue h' p))"
    if u: "(b, m) \<in> set (unserved (hub_log h'))" for b m
  proof (cases "(b, m) = (a, l)")
    case True
    then show ?thesis using assms by auto
  next
    case False
    then have "(b, m) \<in> set (unserved (hub_log h))" using u assms(3) by (auto simp: unserved_snoc)
    then obtain p where "hub_queues h b = Some p" "m \<in> job_load ` set (q_jobs (hub_queue h p))"
      using assms(1) by (auto simp: served_ok_def)
    then show ?thesis using assms(2,4) by auto
  qed
  then show ?thesis unfolding served_ok_def by blast
qed

lemma hub_ok_enqueue:
  assumes ok: "hub_ok None h" and j: "job_of a j"
  shows "hub_ok None (enqueue a j h)"
proof (cases "hub_queues h a")
  case None
  define q where "q = hub_next_queue h"
  define h1 where "h1 = h\<lparr>hub_log := hub_log h @ [Accepted a (job_load j)],
      hub_queue := (hub_queue h)(q := push_job j \<lparr>q_jobs = [], q_waiting = []\<rparr>),
      hub_next_queue := q + 1, hub_queues := (hub_queues h)(a \<mapsto> q)\<rparr>"
  have below: "p < q \<and> queue_ok b (hub_queue h p)" if "hub_queues h b = Some p" for b p
    using ok that unfolding q_def hub_ok_def queues_ok_def by blast
  have pushed: "queue_ok a (push_job j \<lparr>q_jobs = [], q_waiting = []\<rparr>)" using j by (intro queue_ok_push) simp_all
  have live: "hub_queues h (dt_audience d) = Some (dt_queue d)" if "d \<in> set (hub_drains h)" for d
    using ok that unfolding hub_ok_def drains_ok_def by blast
  have "dt_queue d \<noteq> q \<and> dt_audience d \<noteq> a" if "d \<in> set (hub_drains h)" for d
    using live [OF that] below None by fastforce
  then have "drains_ok (Some q) h1"
    using ok live unfolding hub_ok_def drains_ok_def h1_def by simp blast
  moreover have "queues_ok h1"
    using ok below pushed unfolding hub_ok_def queues_ok_def h1_def by (auto simp: less_Suc_eq dest!: below split: if_splits)
  moreover have "started_ok h1" using ok unfolding hub_ok_def started_ok_def h1_def by simp
  moreover have "served_ok h1"
  proof -
    have "\<exists>p. hub_queues h1 b = Some p \<and> l \<in> job_load ` set (q_jobs (hub_queue h1 p))"
      if u: "(b, l) \<in> set (unserved (hub_log h1))" for b l
    proof (cases "(b, l) = (a, job_load j)")
      case True
      then show ?thesis by (simp add: h1_def push_job_def)
    next
      case False
      then have "(b, l) \<in> set (unserved (hub_log h))" using u by (auto simp: h1_def unserved_snoc)
      then obtain p where p: "hub_queues h b = Some p" "l \<in> job_load ` set (q_jobs (hub_queue h p))"
        using ok by (auto simp: hub_ok_def served_ok_def)
      then have "p \<noteq> q" "b \<noteq> a" using below None by auto
      then show ?thesis using p by (auto simp: h1_def)
    qed
    then show ?thesis unfolding served_ok_def by blast
  qed
  ultimately have "hub_ok (Some q) h1" by (simp add: hub_ok_def)
  then have "hub_ok None (drain_next a q h1)" by (rule hub_ok_drain_next) (simp add: h1_def)
  then show ?thesis using None by (simp add: enqueue_def Let_def h1_def q_def)
next
  case (Some q)
  define known where "known \<longleftrightarrow> (case job_key j of None \<Rightarrow> False | Some k \<Rightarrow> k \<in> set (q_waiting (hub_queue h q)))"
  define h1 where "h1 = h\<lparr>hub_log := hub_log h @ [Accepted a (job_load j)],
    hub_queue := (if known then hub_queue h else (hub_queue h)(q := push_job j (hub_queue h q)))\<rparr>"
  have en: "enqueue a j h = h1" using Some by (cases "job_key j") (simp_all add: enqueue_def Let_def h1_def known_def)
  have qok: "queue_ok a (hub_queue h q)" using ok Some unfolding hub_ok_def queues_ok_def by blast
  have inj: "b = a" if "hub_queues h b = Some q" for b using ok Some that unfolding hub_ok_def queues_ok_def by blast
  have load: "job_load j \<in> job_load ` set (q_jobs (hub_queue h1 q))"
    using coalesced_load [OF qok j] by (cases "job_key j") (auto simp: h1_def known_def push_job_def)
  have "queue_ok a (push_job j (hub_queue h q))" if "\<not> known"
    using that qok j by (intro queue_ok_push) (auto simp: known_def)
  then have "queue_ok b (hub_queue h1 p)" if "hub_queues h b = Some p" for b p
    using that ok inj unfolding hub_ok_def queues_ok_def h1_def by (cases "p = q") simp_all
  then have "queues_ok h1" using ok unfolding hub_ok_def queues_ok_def by (simp add: h1_def)
  moreover have "drains_ok None h1" using ok unfolding hub_ok_def drains_ok_def by (simp add: h1_def)
  moreover have "started_ok h1" using ok unfolding hub_ok_def started_ok_def by (simp add: h1_def)
  moreover have "served_ok h1"
  proof (rule served_ok_accept)
    show "hub_queues h a = Some q" by (rule Some)
    show "job_load j \<in> job_load ` set (q_jobs (hub_queue h1 q))" by (rule load)
    show "served_ok h" using ok by (simp add: hub_ok_def)
    show "job_load ` set (q_jobs (hub_queue h p)) \<subseteq> job_load ` set (q_jobs (hub_queue h1 p))" for p
      by (auto simp: h1_def push_job_def)
  qed (simp_all add: h1_def)
  ultimately show ?thesis by (simp add: hub_ok_def en)
qed

lemma hub_ok_other_fields [simp]:
  "hub_ok idle (h\<lparr>hub_tracker := t\<rparr>) \<longleftrightarrow> hub_ok idle h"
  "hub_ok idle (h\<lparr>hub_listenCount := c\<rparr>) \<longleftrightarrow> hub_ok idle h"
  by (rule hub_ok_cong; simp)+

lemma hub_ok_dispatch: "hub_ok None h \<Longrightarrow> hub_ok None (dispatch wire n h)"
proof -
  assume ok: "hub_ok None h"
  show ?thesis
  proof (cases "notification_owner n")
    case None
    then have "job_of Instance j" if "recordJobFor n = Some j" for j using that by (auto simp: job_of_def)
    then show ?thesis using ok None by (auto simp: dispatch_def dispatchInstance_def hub_ok_enqueue split: option.split)
  next
    case (Some w)
    then have "job_of (Owner w) j" if "recordJobFor n = Some j" for j using that by (auto simp: job_of_def)
    then show ?thesis using ok Some
      by (auto simp: dispatch_def Let_def hub_ok_enqueue split_beta split: option.split)
  qed
qed

lemma hub_ok_resync_all: "hub_ok None (foldl (\<lambda>g w. hub_send wire (Owner w) Resync g) g ws) \<longleftrightarrow> hub_ok None g"
  by (induction ws arbitrary: g) simp_all

lemma hub_ok_onListen: "hub_ok None h \<Longrightarrow> hub_ok None (onListen wire h)"
  by (simp add: onListen_def Let_def hub_ok_resync_all)

lemma hub_ok_subscriptions [simp]:
  "hub_ok idle (snd (subscribe w s h)) \<longleftrightarrow> hub_ok idle h"
  "hub_ok idle (unsubscribe handle h) \<longleftrightarrow> hub_ok idle h"
  "hub_ok idle (subscribeInstance x h) \<longleftrightarrow> hub_ok idle h"
  "hub_ok idle (unsubscribeInstance x h) \<longleftrightarrow> hub_ok idle h"
proof -
  show "hub_ok idle (snd (subscribe w s h)) \<longleftrightarrow> hub_ok idle h"
    by (rule hub_ok_cong) (simp_all add: subscribe_def Let_def split: option.split)
  show "hub_ok idle (unsubscribe handle h) \<longleftrightarrow> hub_ok idle h"
    by (cases handle) (simp, rule hub_ok_cong; simp add: Let_def)
  show "hub_ok idle (subscribeInstance x h) \<longleftrightarrow> hub_ok idle h"
    "hub_ok idle (unsubscribeInstance x h) \<longleftrightarrow> hub_ok idle h"
    by (rule hub_ok_cong; simp add: subscribeInstance_def unsubscribeInstance_def)+
qed

lemma hub_ok_step: "hub_ok None h \<Longrightarrow> hub_ok None (hub_step wire e h)"
proof (cases e)
  case (Settle i res)
  assume "hub_ok None h"
  then show ?thesis using Settle
    by (cases "i < length (hub_drains h)") (simp add: hub_ok_settle, simp add: settle_def)
qed (simp_all add: hub_ok_dispatch hub_ok_onListen)

lemma hub_run_snoc: "hub_run wire (es @ [e]) = hub_step wire e (hub_run wire es)"
  by (simp add: hub_run_def)

lemma hub_ok_run: "hub_ok None (hub_run wire es)"
proof (induction es rule: rev_induct)
  case Nil
  then show ?case by (simp add: hub_run_def new_hub_def hub_ok_defs unserved_def)
next
  case (snoc e es)
  then show ?case by (simp add: hub_run_snoc hub_ok_step)
qed

section \<open>Every change is read, once it is asked for\<close>

text \<open>C15: The send queues never lose a change. Whatever order notifications arrive, subscribers come
  and go and loads settle in, each read that was asked for and has not started since is queued for
  its audience, so a notification merged into a waiting read is served by a read that starts after
  it; and when no load is waiting, every change asked for has been read.\<close>

theorem no_change_is_lost:
  "set (unserved (hub_log (hub_run wire es)))
     \<subseteq> {(a, l). \<exists>q. hub_queues (hub_run wire es) a = Some q \<and> l \<in> job_load ` set (q_jobs (hub_queue (hub_run wire es) q))} \<and>
   (hub_drains (hub_run wire es) \<noteq> [] \<or> unserved (hub_log (hub_run wire es)) = [])"
proof -
  let ?h = "hub_run wire es"
  have ok: "hub_ok None ?h" by (rule hub_ok_run)
  then have served: "set (unserved (hub_log ?h)) \<subseteq>
      {(a, l). \<exists>q. hub_queues ?h a = Some q \<and> l \<in> job_load ` set (q_jobs (hub_queue ?h q))}"
    unfolding hub_ok_def served_ok_def by blast
  have "hub_queues ?h a = None" if "hub_drains ?h = []" for a
    using ok that unfolding hub_ok_def drains_ok_def by (cases "hub_queues ?h a") auto
  then have "hub_drains ?h = [] \<Longrightarrow> set (unserved (hub_log ?h)) = {}" using served by auto
  then show ?thesis using served by blast
qed

lemma no_change_is_lost_witness:
  "unserved (hub_log (hub_run (\<lambda>m. Some ())
     [Subscribe (js ''o'') (7 :: nat), Notify (N_Pin (js ''o'')), Settle 0 (Records [()])])) = []"
proof -
  let ?h = "hub_run (\<lambda>m. Some ()) [Subscribe (js ''o'') (7 :: nat), Notify (N_Pin (js ''o'')), Settle 0 (Records [()])]"
  have "hub_drains ?h = []"
    by (simp add: hub_run_def new_hub_def subscribe_def dispatch_def enqueue_def drain_next_def settle_def Let_def
        push_job_def add_to_set_def)
  then show ?thesis using no_change_is_lost [of "\<lambda>m. Some ()"
      "[Subscribe (js ''o'') (7 :: nat), Notify (N_Pin (js ''o'')), Settle 0 (Records [()])]"] by blast
qed

text \<open>Reads are merged, one drain per audience: a queue in the map is drained by exactly one
  task, its waiting reads have distinct keys, and \<^verbatim>\<open>waiting\<close> is exactly the set of those keys.\<close>

lemma queues_coalesce:
  "{(a, q). hub_queues (hub_run wire es) a = Some q} \<subseteq>
     {(a, q). distinct (job_keys (q_jobs (hub_queue (hub_run wire es) q))) \<and>
        set (q_waiting (hub_queue (hub_run wire es) q)) = set (job_keys (q_jobs (hub_queue (hub_run wire es) q))) \<and>
        (\<exists>d. filter (\<lambda>d. dt_queue d = q) (hub_drains (hub_run wire es)) = [d] \<and> dt_audience d = a)}"
proof -
  let ?h = "hub_run wire es"
  have ok: "hub_ok None ?h" by (rule hub_ok_run)
  have "\<exists>d. filter (\<lambda>d. dt_queue d = q) (hub_drains ?h) = [d] \<and> dt_audience d = a" if q: "hub_queues ?h a = Some q" for a q
  proof -
    obtain d where d: "d \<in> set (hub_drains ?h)" "dt_queue d = q" using ok q unfolding hub_ok_def drains_ok_def by blast
    have "distinct (map dt_queue ds) \<Longrightarrow> d \<in> set ds \<Longrightarrow> filter (\<lambda>x. dt_queue x = dt_queue d) ds = [d]" for ds
      by (induction ds) (auto simp: filter_empty_conv image_iff)
    then have "filter (\<lambda>d. dt_queue d = q) (hub_drains ?h) = [d]"
      using ok d unfolding hub_ok_def drains_ok_def by blast
    moreover have "hub_queues ?h (dt_audience d) = Some q" using ok d unfolding hub_ok_def drains_ok_def by blast
    then have "dt_audience d = a" using ok q unfolding hub_ok_def queues_ok_def by blast
    ultimately show ?thesis by blast
  qed
  then show ?thesis using ok unfolding hub_ok_def queues_ok_def queue_ok_def by blast
qed




section \<open>Draining ends\<close>

definition pending :: "('s, 'f) change_hub \<Rightarrow> nat" where
  "pending h = sum_list (map (\<lambda>d. Suc (length (q_jobs (hub_queue h (dt_queue d))))) (hub_drains h))"

lemma pending_settle:
  fixes h :: "('s, 'f) change_hub"
  assumes ok: "hub_ok None h" and i: "i < length (hub_drains h)"
  shows "Suc (pending (settle wire i res h)) = pending h"
proof -
  define d where "d = hub_drains h ! i"
  define q where "q = dt_queue d"
  define ds where "ds = take i (hub_drains h) @ drop (Suc i) (hub_drains h)"
  have drains: "hub_drains h = take i (hub_drains h) @ d # drop (Suc i) (hub_drains h)"
    using i by (simp add: d_def id_take_nth_drop)
  have "distinct (map dt_queue (take i (hub_drains h) @ d # drop (Suc i) (hub_drains h)))"
    using ok drains by (simp add: hub_ok_defs)
  then have apart: "\<And>e. e \<in> set ds \<Longrightarrow> dt_queue e \<noteq> q" by (auto simp: ds_def q_def image_iff)
  define f where "f = (\<lambda>g :: ('s, 'f) change_hub. \<lambda>d :: drain_task. Suc (length (q_jobs (hub_queue g (dt_queue d)))))"
  have "sum_list (map (f h) (hub_drains h)) = sum_list (map (f h) (take i (hub_drains h) @ d # drop (Suc i) (hub_drains h)))"
    using drains by simp
  then have before: "pending h = f h d + sum_list (map (f h) ds)" by (simp add: pending_def ds_def f_def)
  obtain g where g: "settle wire i res h = drain_next (dt_audience d) q g" "hub_drains g = ds" "hub_queue g = hub_queue h"
    using i by (auto simp: settle_def Let_def ds_def d_def q_def split: option.split)
  show ?thesis
  proof (cases "q_jobs (hub_queue h q)")
    case Nil
    then have "pending (settle wire i res h) = sum_list (map (f h) ds)"
      by (simp add: g drain_next_def pending_def f_def)
    then show ?thesis using before Nil by (simp add: f_def q_def)
  next
    case (Cons j rest)
    have same: "map (f (drain_next (dt_audience d) q g)) ds = map (f h) ds"
      using apart by (intro map_cong refl) (simp add: f_def drain_next_def g Cons Let_def)
    have new: "hub_drains (drain_next (dt_audience d) q g) = ds @ [\<lparr>dt_audience = dt_audience d, dt_queue = q, dt_job = j\<rparr>]"
      "q_jobs (hub_queue (drain_next (dt_audience d) q g) q) = rest" using Cons g by (simp_all add: drain_next_def Let_def)
    have sum: "pending x = sum_list (map (f x) (hub_drains x))" for x by (simp add: pending_def f_def)
    have "pending (settle wire i res h) = sum_list (map (f h) ds) + Suc (length rest)"
      unfolding sum g(1) new(1) map_append same using new(2) by (simp add: f_def)
    then show ?thesis using before Cons by (simp add: f_def q_def)
  qed
qed

lemma settle_all:
  "pending (hub_run wire es) \<le> length outs \<Longrightarrow> hub_drains (hub_run wire (es @ map (Settle 0) outs)) = []"
proof (induction outs arbitrary: es)
  case Nil
  then show ?case by (simp add: pending_def sum_list_eq_0_iff)
next
  case (Cons r outs)
  show ?case
  proof (cases "hub_drains (hub_run wire es)")
    case Nil
    then have "hub_drains (hub_run wire (es @ map (Settle 0) rs)) = []" for rs
      by (induction rs rule: rev_induct) (simp, simp add: hub_run_snoc settle_def flip: append_assoc)
    then show ?thesis by blast
  next
    case (Cons d ds)
    then have "Suc (pending (hub_run wire (es @ [Settle 0 r]))) = pending (hub_run wire es)"
      using pending_settle [OF hub_ok_run, of 0 wire es wire r] by (simp add: hub_run_snoc)
    then show ?thesis using Cons.IH [of "es @ [Settle 0 r]"] Cons.prems by simp
  qed
qed

text \<open>C16: Draining ends. As long as loads settle, whatever they answer, the drains of every audience
  stop after as many loads as were waiting or queued, and then every change asked for has been read.\<close>

theorem draining_ends:
  assumes "pending (hub_run wire es) \<le> length outs"
  shows "hub_drains (hub_run wire (es @ map (Settle 0) outs)) = [] \<and>
    unserved (hub_log (hub_run wire (es @ map (Settle 0) outs))) = []"
proof
  let ?h = "hub_run wire (es @ map (Settle 0) outs)"
  show drained: "hub_drains ?h = []" using assms by (rule settle_all)
  have ok: "hub_ok None ?h" by (rule hub_ok_run)
  then have "hub_queues ?h a = None" for a
    using drained unfolding hub_ok_def drains_ok_def by (cases "hub_queues ?h a") auto
  then show "unserved (hub_log ?h) = []" using ok unfolding hub_ok_def served_ok_def by (cases "unserved (hub_log ?h)") auto
qed

lemma draining_ends_witness:
  "hub_drains (hub_run (\<lambda>m. Some ()) ([Subscribe (js ''o'') (1 :: nat), Notify (N_Pin (js ''o'')), Notify (N_Pin (js ''o''))] @
     map (Settle 0) [Records [()], Raised])) = []"
  by (rule draining_ends [THEN conjunct1])
    (simp add: hub_run_def new_hub_def subscribe_def dispatch_def enqueue_def drain_next_def pending_def Let_def push_job_def add_to_set_def)

section \<open>What a subscriber receives\<close>

text \<open>The message a settled load leads to: the record, nothing, or \<^verbatim>\<open>resync\<close> when the read failed.\<close>

definition settled_message :: "load \<Rightarrow> 'r outcome \<Rightarrow> 'r live_message option" where
  "settled_message l res = (if res = Raised \<and> \<not> is_ready l then Some Resync else load_message l res)"

lemma audience_subscribers_cong:
  assumes "hub_subscribers h' = hub_subscribers h" "hub_sets h' = hub_sets h" "hub_instance h' = hub_instance h"
  shows "audience_subscribers h' a = audience_subscribers h a"
  unfolding audience_subscribers_def assms ..

lemma hub_log_drain_next: "\<exists>es. hub_log (drain_next a q h) = hub_log h @ es \<and> (\<forall>e\<in>set es. \<exists>b l. e = Started b l)"
proof (cases "q_jobs (hub_queue h q)")
  case Nil
  then show ?thesis by (simp add: drain_next_def)
next
  case (Cons j rest)
  then show ?thesis by (intro exI [of _ "[Started a (job_load j)]"]) (simp add: drain_next_def Let_def)
qed

text \<open>C31: A settled load reaches every subscriber its audience has at that moment, once each and in
  order: the record's message when the schema accepts it, \<^verbatim>\<open>resync\<close> instead when the schema refuses
  it or the read failed, so that no client is left with a change it does not know of.\<close>

theorem settled_load_reaches_subscribers:
  assumes "i < length (hub_drains h)" "wire Resync = Some resync"
    "settled_message (job_load (dt_job (hub_drains h ! i))) res = Some m"
  shows "\<exists>es. hub_log (settle wire i res h) = hub_log h @
      map (\<lambda>s. Delivered (dt_audience (hub_drains h ! i)) s (case wire m of Some f \<Rightarrow> f | None \<Rightarrow> resync))
        (audience_subscribers h (dt_audience (hub_drains h ! i))) @ es \<and>
    list_all (\<lambda>e. case e of Started _ _ \<Rightarrow> True | _ \<Rightarrow> False) es"
proof -
  let ?a = "dt_audience (hub_drains h ! i)" and ?q = "dt_queue (hub_drains h ! i)"
  define h1 where "h1 = h\<lparr>hub_drains := take i (hub_drains h) @ drop (Suc i) (hub_drains h)\<rparr>"
  have same: "audience_subscribers h1 a = audience_subscribers h a" for a by (rule audience_subscribers_cong) (simp_all add: h1_def)
  have "settle wire i res h = drain_next ?a ?q (hub_send wire ?a m h1)"
    using assms(1,3) by (auto simp: settle_def settled_message_def Let_def h1_def split: if_splits)
  moreover have "sent_frame wire m = Some (case wire m of Some f \<Rightarrow> f | None \<Rightarrow> resync)"
    using assms(2) by (cases "wire m"; cases "m = Resync") (simp_all add: sent_frame_def)
  then have "hub_log (hub_send wire ?a m h1) = hub_log h @
      map (\<lambda>s. Delivered ?a s (case wire m of Some f \<Rightarrow> f | None \<Rightarrow> resync)) (audience_subscribers h ?a)"
    by (simp add: hub_send_eq deliver_all_def same) (simp add: h1_def)
  ultimately show ?thesis
    using hub_log_drain_next [of ?a ?q "hub_send wire ?a m h1"] by (fastforce simp: list_all_iff)
qed

lemma settled_load_reaches_subscribers_witness:
  "\<exists>es. hub_log (settle (\<lambda>m. Some (m = Resync)) 0 (Raised :: unit outcome)
       (hub_run (\<lambda>m :: unit live_message. Some (m = Resync)) [Subscribe (js ''o'') (7 :: nat), Notify (N_Pin (js ''o''))])) =
     [Accepted (Owner (js ''o'')) (Read_Pins (js ''o'')), Started (Owner (js ''o'')) (Read_Pins (js ''o'')),
      Delivered (Owner (js ''o'')) 7 True] @ es"
proof -
  let ?h = "hub_run (\<lambda>m :: unit live_message. Some (m = Resync)) [Subscribe (js ''o'') (7 :: nat), Notify (N_Pin (js ''o''))]"
  note defs = hub_run_def new_hub_def subscribe_def dispatch_def enqueue_def drain_next_def Let_def push_job_def add_to_set_def
  have h: "hub_drains ?h = [\<lparr>dt_audience = Owner (js ''o''), dt_queue = 0,
      dt_job = \<lparr>job_key = Some (js ''pins''), job_load = Read_Pins (js ''o'')\<rparr>\<rparr>]"
    "audience_subscribers ?h (Owner (js ''o'')) = [7]"
    "hub_log ?h = [Accepted (Owner (js ''o'')) (Read_Pins (js ''o'')), Started (Owner (js ''o'')) (Read_Pins (js ''o''))]"
    by (simp_all add: defs audience_subscribers_def)
  from settled_load_reaches_subscribers [of 0 ?h "\<lambda>m. Some (m = Resync)" True "Raised :: unit outcome" Resync]
  show ?thesis by (auto simp: h settled_message_def)
qed

section \<open>Subscriptions\<close>

text \<open>A hub with the subscriptions of owners that are held: each was returned by \<^verbatim>\<open>subscribe\<close> for a
  subscriber of its own, and each is ended once.\<close>

inductive held_subs :: "('r live_message \<Rightarrow> 'f option) \<Rightarrow> ('s, 'f) change_hub \<Rightarrow> (jstr \<times> nat \<times> 's) list \<Rightarrow> bool"
  for wire where
  start: "held_subs wire new_hub []"
| subscribes: "held_subs wire h hs \<Longrightarrow> s \<notin> (snd \<circ> snd) ` set hs \<Longrightarrow>
    held_subs wire (snd (subscribe w s h)) (hs @ [fst (subscribe w s h)])"
| unsubscribes: "held_subs wire h hs \<Longrightarrow> x \<in> set hs \<Longrightarrow> held_subs wire (unsubscribe x h) (filter (\<lambda>y. y \<noteq> x) hs)"
| others: "held_subs wire h hs \<Longrightarrow> (case e of Subscribe _ _ \<Rightarrow> False | Unsubscribe _ \<Rightarrow> False | _ \<Rightarrow> True) \<Longrightarrow>
    held_subs wire (hub_step wire e h) hs"

definition of_owner :: "jstr \<Rightarrow> (jstr \<times> nat \<times> 's) list \<Rightarrow> 's list" where
  "of_owner w hs = map (snd \<circ> snd) (filter (\<lambda>x. fst x = w) hs)"

definition subs_ok :: "('s, 'f) change_hub \<Rightarrow> (jstr \<times> nat \<times> 's) list \<Rightarrow> bool" where
  "subs_ok h hs \<longleftrightarrow>
     (\<forall>w. map_of (hub_subscribers h) w = None \<longrightarrow> of_owner w hs = []) \<and>
     (\<forall>w i. map_of (hub_subscribers h) w = Some i \<longrightarrow>
        i < hub_next_set h \<and> hub_sets h i = of_owner w hs \<and> of_owner w hs \<noteq> [] \<and> (\<forall>x\<in>set hs. fst x = w \<longrightarrow> fst (snd x) = i)) \<and>
     (\<forall>w v i. map_of (hub_subscribers h) w = Some i \<longrightarrow> map_of (hub_subscribers h) v = Some i \<longrightarrow> w = v) \<and>
     distinct (map (snd \<circ> snd) hs)"

lemma subs_ok_cong:
  assumes "hub_subscribers h' = hub_subscribers h" "hub_sets h' = hub_sets h" "hub_next_set h' = hub_next_set h"
  shows "subs_ok h' hs \<longleftrightarrow> subs_ok h hs"
  unfolding subs_ok_def assms ..

lemma drain_next_subs [simp]:
  "hub_subscribers (drain_next a q h) = hub_subscribers h" "hub_sets (drain_next a q h) = hub_sets h"
  "hub_next_set (drain_next a q h) = hub_next_set h"
  by (simp_all add: drain_next_def Let_def split: list.split)

lemma enqueue_subs [simp]:
  "hub_subscribers (enqueue a j h) = hub_subscribers h" "hub_sets (enqueue a j h) = hub_sets h"
  "hub_next_set (enqueue a j h) = hub_next_set h"
  by (simp_all add: enqueue_def Let_def split: option.split)

lemma resync_all_subs [simp]:
  "hub_subscribers (foldl (\<lambda>g w. hub_send wire (Owner w) Resync g) g ws) = hub_subscribers g"
  "hub_sets (foldl (\<lambda>g w. hub_send wire (Owner w) Resync g) g ws) = hub_sets g"
  "hub_next_set (foldl (\<lambda>g w. hub_send wire (Owner w) Resync g) g ws) = hub_next_set g"
  by (induction ws arbitrary: g) simp_all

lemma other_steps_subs:
  assumes "case e of Subscribe _ _ \<Rightarrow> False | Unsubscribe _ \<Rightarrow> False | _ \<Rightarrow> True"
  shows "hub_subscribers (hub_step wire e h) = hub_subscribers h \<and> hub_sets (hub_step wire e h) = hub_sets h \<and>
    hub_next_set (hub_step wire e h) = hub_next_set h"
  using assms
  by (cases e) (simp_all add: subscribeInstance_def unsubscribeInstance_def dispatch_def dispatchInstance_def
      onListen_def settle_def Let_def split_beta split: option.split)

lemma of_owner_simps [simp]:
  "of_owner w [] = []" "of_owner w (hs @ gs) = of_owner w hs @ of_owner w gs"
  "of_owner w (x # hs) = (if fst x = w then [snd (snd x)] else []) @ of_owner w hs"
  by (simp_all add: of_owner_def)

lemma of_owner_remove:
  "distinct (map (snd \<circ> snd) hs) \<Longrightarrow> (v, i, s) \<in> set hs \<Longrightarrow>
   of_owner w (filter (\<lambda>y. y \<noteq> (v, i, s)) hs) = (if w = v then filter (\<lambda>x. x \<noteq> s) (of_owner w hs) else of_owner w hs)"
proof (induction hs)
  case (Cons y hs)
  show ?case
  proof (cases "y = (v, i, s)")
    case True
    have "s \<notin> (snd \<circ> snd) ` set hs" using True Cons.prems by auto
    then have "(v, i, s) \<notin> set hs" "s \<notin> set (of_owner w hs)" by (force simp: of_owner_def)+
    then have "filter (\<lambda>y. y \<noteq> (v, i, s)) hs = hs" "filter (\<lambda>x. x \<noteq> s) (of_owner w hs) = of_owner w hs"
      by (metis (mono_tags, lifting) filter_True)+
    then show ?thesis using True by (cases "w = v") auto
  next
    case False
    then have mem: "(v, i, s) \<in> set hs" using Cons.prems by simp
    then have "s \<in> (snd \<circ> snd) ` set hs" by force
    then have "snd (snd y) \<noteq> s" using Cons.prems by auto
    then show ?thesis using Cons.IH Cons.prems mem False by simp
  qed
qed simp

lemma subs_ok_subscribe:
  assumes ok: "subs_ok h hs" and fresh: "s \<notin> (snd \<circ> snd) ` set hs"
  shows "subs_ok (snd (subscribe w s h)) (hs @ [fst (subscribe w s h)])"
proof (cases "map_of (hub_subscribers h) w")
  case None
  have old: "i < hub_next_set h" if "map_of (hub_subscribers h) v = Some i" for v i
    using ok that unfolding subs_ok_def by blast
  have none: "of_owner w hs = []" using ok None unfolding subs_ok_def by blast
  then have no: "fst x \<noteq> w" if "x \<in> set hs" for x using that by (auto simp: of_owner_def filter_empty_conv)
  define i where "i = hub_next_set h"
  have sub: "subscribe w s h = ((w, i, s), h\<lparr>hub_sets := (hub_sets h)(i := [s]), hub_next_set := i + 1,
      hub_subscribers := map_set (hub_subscribers h) w i\<rparr>)"
    using None by (simp add: subscribe_def Let_def i_def)
  have "map_of (hub_subscribers h) v = Some k \<Longrightarrow> k \<noteq> i" for v k using old i_def by fastforce
  then show ?thesis
    using ok fresh none no unfolding sub subs_ok_def by (auto simp: less_Suc_eq i_def [symmetric] dest: old)
next
  case (Some i)
  have w: "hub_sets h i = of_owner w hs" "\<forall>x\<in>set hs. fst x = w \<longrightarrow> fst (snd x) = i"
    and inj: "\<And>v. map_of (hub_subscribers h) v = Some i \<Longrightarrow> v = w"
    using ok Some unfolding subs_ok_def by blast+
  have "s \<notin> set (hub_sets h i)" using fresh by (auto simp: w(1) of_owner_def)
  then have sub: "subscribe w s h = ((w, i, s), h\<lparr>hub_sets := (hub_sets h)(i := of_owner w hs @ [s])\<rparr>)"
    using Some by (simp add: subscribe_def add_to_set_def w(1))
  have "map_of (hub_subscribers h) v = Some k \<Longrightarrow> v \<noteq> w \<Longrightarrow> k \<noteq> i" for v k using inj by blast
  then show ?thesis using ok fresh Some w unfolding sub subs_ok_def by (auto dest: inj)
qed

lemma subs_ok_unsubscribe:
  assumes ok: "subs_ok h hs" and mem: "x \<in> set hs"
  shows "subs_ok (unsubscribe x h) (filter (\<lambda>y. y \<noteq> x) hs)"
proof -
  obtain v i s where x: "x = (v, i, s)" by (cases x)
  have "of_owner v hs \<noteq> []" using mem by (force simp: x of_owner_def filter_empty_conv)
  then obtain k where k: "map_of (hub_subscribers h) v = Some k"
    using ok unfolding subs_ok_def by (metis option.exhaust)
  then have i: "map_of (hub_subscribers h) v = Some i" using ok mem unfolding subs_ok_def x by fastforce
  have dist: "distinct (map (snd \<circ> snd) hs)" using ok unfolding subs_ok_def by blast
  have v: "hub_sets h i = of_owner v hs" using ok i unfolding subs_ok_def by blast
  have left: "of_owner w (filter (\<lambda>y. y \<noteq> x) hs) = (if w = v then filter (\<lambda>y. y \<noteq> s) (hub_sets h i) else of_owner w hs)" for w
    using of_owner_remove [OF dist mem [unfolded x]] by (simp add: x v)
  have other: "w \<noteq> v \<Longrightarrow> map_of (hub_subscribers h) w = Some k \<Longrightarrow> k \<noteq> i" for w k
    using ok i unfolding subs_ok_def by blast
  have dist': "distinct (map (snd \<circ> snd) (filter (\<lambda>y. y \<noteq> x) hs))" using dist by (rule distinct_map_filter)
  show ?thesis
  proof (cases "filter (\<lambda>y. y \<noteq> s) (hub_sets h i) = []")
    case True
    then have un: "unsubscribe x h = h\<lparr>hub_sets := (hub_sets h)(i := []), hub_subscribers := map_delete (hub_subscribers h) v\<rparr>"
      by (simp add: x Let_def)
    show ?thesis using ok other dist' True unfolding un subs_ok_def left by (auto dest: other) fastforce
  next
    case False
    then have un: "unsubscribe x h = h\<lparr>hub_sets := (hub_sets h)(i := filter (\<lambda>y. y \<noteq> s) (hub_sets h i))\<rparr>"
      by (simp add: x Let_def)
    show ?thesis using ok other dist' False i unfolding un subs_ok_def left by (auto dest: other)
  qed
qed

lemma held_subs_ok: "held_subs wire h hs \<Longrightarrow> subs_ok h hs"
proof (induction rule: held_subs.induct)
  case start
  then show ?case by (simp add: subs_ok_def new_hub_def)
next
  case (others h hs e)
  then show ?case using other_steps_subs [OF others.hyps(2)] subs_ok_cong [of "hub_step wire e h" h hs] by blast
qed (rule subs_ok_subscribe subs_ok_unsubscribe; assumption)+

text \<open>What \<^verbatim>\<open>subscribe\<close> and its returned function promise: at every moment the subscribers of an
  owner are exactly those that subscribed for it and have not ended their subscription, in the order
  they came, and the owner has an entry in the map exactly when it has one. It needs each returned
  function to be called once, as the gateway does.\<close>

lemma subscriptions_are_those_held:
  assumes "held_subs wire h hs"
  shows "audience_subscribers h (Owner w) = of_owner w hs \<and>
    (map_of (hub_subscribers h) w = None) = (of_owner w hs = [])"
proof -
  have ok: "subs_ok h hs" using assms by (rule held_subs_ok)
  show ?thesis
  proof (cases "map_of (hub_subscribers h) w")
    case None
    then have "of_owner w hs = []" using ok unfolding subs_ok_def by blast
    then show ?thesis using None by (simp add: audience_subscribers_def)
  next
    case (Some i)
    then have "hub_sets h i = of_owner w hs" "of_owner w hs \<noteq> []" using ok unfolding subs_ok_def by blast+
    then show ?thesis using Some by (simp add: audience_subscribers_def)
  qed
qed

lemma subscriptions_are_those_held_witness:
  "audience_subscribers (unsubscribe (js ''o'', 0, 1)
     (snd (subscribe (js ''o'') 2 (snd (subscribe (js ''o'') 1 (new_hub :: (nat, unit) change_hub)))))) (Owner (js ''o'')) = [2]"
proof -
  define h1 where "h1 = snd (subscribe (js ''o'') 1 (new_hub :: (nat, unit) change_hub))"
  define h2 where "h2 = snd (subscribe (js ''o'') 2 h1)"
  have fst: "fst (subscribe (js ''o'') 1 (new_hub :: (nat, unit) change_hub)) = (js ''o'', 0, 1)" "fst (subscribe (js ''o'') 2 h1) = (js ''o'', 0, 2)"
    by (simp_all add: h1_def subscribe_def new_hub_def Let_def)
  have "held_subs (\<lambda>_ :: unit live_message. None) h1 ([] @ [fst (subscribe (js ''o'') 1 (new_hub :: (nat, unit) change_hub))])"
    unfolding h1_def by (rule held_subs.subscribes [OF held_subs.start]) simp
  then have "held_subs (\<lambda>_ :: unit live_message. None) h2 ([(js ''o'', 0, 1)] @ [fst (subscribe (js ''o'') 2 h1)])"
    unfolding h2_def fst(1) by (intro held_subs.subscribes) simp_all
  then have "held_subs (\<lambda>_ :: unit live_message. None) (unsubscribe (js ''o'', 0, 1) h2)
      (filter (\<lambda>y. y \<noteq> (js ''o'', 0, 1)) [(js ''o'', 0, 1), (js ''o'', 0, 2)])"
    by (intro held_subs.unsubscribes) (simp_all add: fst(2))
  from subscriptions_are_those_held [OF this, of "js ''o''"] show ?thesis
    by (simp add: h1_def h2_def)
qed

end
