(* ===== verification/Live_Gateway.thy ===== *)
theory Live_Gateway
  imports Js_Prelude
begin

text \<open>
  The live gateway (\<^verbatim>\<open>apps/api/src/live/live-gateway.service.ts\<close>): the decision on an upgrade
  request, the sockets a user holds, delivery to a socket and the heartbeat round. The session token
  of a request and the answer of \<^verbatim>\<open>AuthService.validateToken\<close> are inputs; so is the state of a
  \<^verbatim>\<open>WebSocket\<close>. Deciding is asynchronous, so between the decision on one request and the attachment
  of its socket other requests may be decided: the two are separate steps.
\<close>

section \<open>The decision\<close>

definition LIVE_PATH :: jstr where
  "LIVE_PATH = js ''/api/v1/live''"

definition MAX_SOCKETS_PER_USER :: nat where
  "MAX_SOCKETS_PER_USER = 16"

datatype upgrade_status = Unauthorized_401 | Forbidden_403 | Too_Many_Requests_429

datatype upgrade_decision = Ignore | Reject_Upgrade upgrade_status | Accept_Upgrade jstr jstr

record upgrade_request =
  up_url :: "jstr option"
  up_origin :: "jstr option"
  up_token :: "jstr option"

text \<open>The answer of \<^verbatim>\<open>validateToken\<close>: a session with a user id, none, or a failed lookup.\<close>

datatype session_answer = Session jstr | No_Session | Lookup_Failed

definition decideUpgrade ::
    "jstr list \<Rightarrow> (jstr \<Rightarrow> session_answer) \<Rightarrow> (jstr \<Rightarrow> nat) \<Rightarrow> upgrade_request \<Rightarrow> upgrade_decision" where
  "decideUpgrade allowedOrigins validateToken openSockets r =
     (let url = (case up_url r of None \<Rightarrow> [] | Some u \<Rightarrow> u); path = takeWhile (\<lambda>c. c \<noteq> 63) url in
      if path \<noteq> LIVE_PATH then Ignore
      else if (case up_origin r of None \<Rightarrow> False | Some orig \<Rightarrow> orig \<notin> set allowedOrigins) then Reject_Upgrade Forbidden_403
      else
        (let token = (case up_token r of None \<Rightarrow> [] | Some t \<Rightarrow> t);
             session = (if token = [] then No_Session else validateToken token) in
         case session of
           Session userId \<Rightarrow>
             (if userId = [] then Reject_Upgrade Unauthorized_401
              else if openSockets userId \<ge> MAX_SOCKETS_PER_USER then Reject_Upgrade Too_Many_Requests_429
              else Accept_Upgrade userId token)
         | _ \<Rightarrow> Reject_Upgrade Unauthorized_401))"

section \<open>Sockets\<close>

record live_socket =
  ls_id :: nat
  ls_userId :: jstr
  ls_token :: jstr
  ls_alive :: bool

text \<open>The open sockets, and the upgrades that were accepted and are not attached yet.\<close>

record gateway =
  gw_sockets :: "live_socket list"
  gw_accepted :: "(jstr \<times> jstr) list"
  gw_next :: nat

definition countFor :: "jstr \<Rightarrow> gateway \<Rightarrow> nat" where
  "countFor userId g = length (filter (\<lambda>s. ls_userId s = userId) (gw_sockets g))"

definition decide_step :: "jstr list \<Rightarrow> (jstr \<Rightarrow> session_answer) \<Rightarrow> upgrade_request \<Rightarrow> gateway \<Rightarrow> gateway" where
  "decide_step allowed validate r g =
     (case decideUpgrade allowed validate (\<lambda>u. countFor u g) r of
        Accept_Upgrade u t \<Rightarrow> g\<lparr>gw_accepted := gw_accepted g @ [(u, t)]\<rparr>
      | _ \<Rightarrow> g)"

definition attach :: "jstr \<Rightarrow> jstr \<Rightarrow> gateway \<Rightarrow> gateway" where
  "attach userId token g =
     g\<lparr>gw_sockets := gw_sockets g @ [\<lparr>ls_id = gw_next g, ls_userId = userId, ls_token = token, ls_alive = True\<rparr>],
       gw_next := gw_next g + 1\<rparr>"

text \<open>The continuation of an accepted upgrade; a request whose client went away is dropped.\<close>

definition finish_upgrade :: "nat \<Rightarrow> bool \<Rightarrow> gateway \<Rightarrow> gateway" where
  "finish_upgrade i destroyed g =
     (if i < length (gw_accepted g)
      then (let (u, t) = gw_accepted g ! i; g1 = g\<lparr>gw_accepted := take i (gw_accepted g) @ drop (Suc i) (gw_accepted g)\<rparr>
            in if destroyed then g1 else attach u t g1)
      else g)"

definition close_socket :: "nat \<Rightarrow> gateway \<Rightarrow> gateway" where
  "close_socket i g = g\<lparr>gw_sockets := filter (\<lambda>s. ls_id s \<noteq> i) (gw_sockets g)\<rparr>"

definition pong :: "nat \<Rightarrow> gateway \<Rightarrow> gateway" where
  "pong i g = g\<lparr>gw_sockets := map (\<lambda>s. if ls_id s = i then s\<lparr>ls_alive := True\<rparr> else s) (gw_sockets g)\<rparr>"

section \<open>Delivery and heartbeats\<close>

definition MAX_BUFFERED_BYTES :: nat where
  "MAX_BUFFERED_BYTES = 1024 * 1024"

datatype socket_action = Do_Nothing | Send_Frame | Close_Too_Slow | Terminate | Ping | Ping_And_Close_Ended

definition deliver :: "bool \<Rightarrow> nat \<Rightarrow> socket_action" where
  "deliver isOpen bufferedAmount =
     (if \<not> isOpen then Do_Nothing else if bufferedAmount > MAX_BUFFERED_BYTES then Close_Too_Slow else Send_Frame)"

text \<open>One socket's part of \<^verbatim>\<open>checkHeartbeats\<close>: a lookup that fails does not end the session.\<close>

definition session_ended :: "session_answer \<Rightarrow> jstr \<Rightarrow> bool" where
  "session_ended answer userId =
     (case answer of Session u \<Rightarrow> u \<noteq> userId | No_Session \<Rightarrow> True | Lookup_Failed \<Rightarrow> False)"

definition socket_heartbeat :: "(jstr \<Rightarrow> session_answer) \<Rightarrow> live_socket \<Rightarrow> live_socket \<times> socket_action" where
  "socket_heartbeat validate s =
     (if \<not> ls_alive s then (s, Terminate)
      else (s\<lparr>ls_alive := False\<rparr>,
            if session_ended (validate (ls_token s)) (ls_userId s) then Ping_And_Close_Ended else Ping))"

section \<open>Steps\<close>

datatype gateway_step =
    Upgrade_Decided upgrade_request
  | Upgrade_Finished nat bool
  | Socket_Closed nat
  | Socket_Pong nat

fun gateway_apply :: "jstr list \<Rightarrow> (jstr \<Rightarrow> session_answer) \<Rightarrow> gateway_step \<Rightarrow> gateway \<Rightarrow> gateway" where
  "gateway_apply allowed validate (Upgrade_Decided r) g = decide_step allowed validate r g"
| "gateway_apply allowed validate (Upgrade_Finished i destroyed) g = finish_upgrade i destroyed g"
| "gateway_apply allowed validate (Socket_Closed i) g = close_socket i g"
| "gateway_apply allowed validate (Socket_Pong i) g = pong i g"

definition new_gateway :: gateway where
  "new_gateway = \<lparr>gw_sockets = [], gw_accepted = [], gw_next = 0\<rparr>"

definition gateway_run :: "jstr list \<Rightarrow> (jstr \<Rightarrow> session_answer) \<Rightarrow> gateway_step list \<Rightarrow> gateway" where
  "gateway_run allowed validate steps = foldl (\<lambda>g e. gateway_apply allowed validate e g) new_gateway steps"

section \<open>Who is let in\<close>

text \<open>An upgrade is accepted only on the live path, from a client with no origin or an allowed
  one, with a token the session lookup answers with a user, and below that user's socket cap; the
  socket is bound to that user. A page of another site never reaches the session lookup, and a
  lookup that fails refuses.\<close>

lemma upgrade_accepted_only_with_session:
  "(decideUpgrade allowed validate count r = Accept_Upgrade u t) =
     (\<exists>url. up_url r = Some url \<and> takeWhile (\<lambda>c. c \<noteq> 63) url = LIVE_PATH \<and>
        (up_origin r = None \<or> up_origin r \<in> Some ` set allowed) \<and>
        up_token r = Some t \<and> t \<noteq> [] \<and> validate t = Session u \<and> u \<noteq> [] \<and> count u < MAX_SOCKETS_PER_USER)"
proof -
  have "LIVE_PATH \<noteq> []" by (simp add: LIVE_PATH_def js.simps)
  then show ?thesis
    by (cases "up_url r"; cases "up_origin r"; cases "up_token r"; cases "validate t")
      (auto simp: decideUpgrade_def Let_def split: session_answer.splits if_splits)
qed

lemma foreign_origin_refused_unseen:
  "up_origin r = Some orig \<Longrightarrow> orig \<notin> set allowed \<Longrightarrow>
   decideUpgrade allowed validate count r = decideUpgrade allowed validate' count' r"
  by (simp add: decideUpgrade_def Let_def)

section \<open>The socket cap\<close>

definition accepted_for :: "jstr \<Rightarrow> gateway \<Rightarrow> nat" where
  "accepted_for u g = length (filter (\<lambda>x. fst x = u) (gw_accepted g))"

text \<open>One upgrade at a time: each decision is finished before the next is taken.\<close>

fun one_at_a_time :: "bool \<Rightarrow> gateway_step list \<Rightarrow> bool" where
  "one_at_a_time free [] \<longleftrightarrow> True"
| "one_at_a_time free (Upgrade_Decided r # es) \<longleftrightarrow> free \<and> one_at_a_time False es"
| "one_at_a_time free (Upgrade_Finished i d # es) \<longleftrightarrow> i = 0 \<and> one_at_a_time True es"
| "one_at_a_time free (e # es) \<longleftrightarrow> one_at_a_time free es"

definition capped :: "gateway \<Rightarrow> bool" where
  "capped g \<longleftrightarrow> (\<forall>u. countFor u g + accepted_for u g \<le> MAX_SOCKETS_PER_USER) \<and> length (gw_accepted g) \<le> 1"

lemma countFor_attach: "countFor u (attach v t g) = countFor u g + (if v = u then 1 else 0)"
  by (simp add: countFor_def attach_def)

lemma countFor_close: "countFor u (close_socket i g) \<le> countFor u g"
proof -
  have "length (filter (\<lambda>s. ls_userId s = u) (filter (\<lambda>s. ls_id s \<noteq> i) xs)) \<le> length (filter (\<lambda>s. ls_userId s = u) xs)"
    for xs :: "live_socket list"
    by (induction xs) auto
  then show ?thesis by (simp add: countFor_def close_socket_def del: filter_filter)
qed

lemma countFor_pong [simp]: "countFor u (pong i g) = countFor u g"
proof -
  have "length (filter (\<lambda>s. ls_userId s = u) (map (\<lambda>s. if ls_id s = i then s\<lparr>ls_alive := True\<rparr> else s) xs)) =
      length (filter (\<lambda>s. ls_userId s = u) xs)" for xs
    by (induction xs) auto
  then show ?thesis by (simp add: countFor_def pong_def)
qed

lemma accepted_simps [simp]:
  "gw_accepted (attach v t g) = gw_accepted g" "gw_accepted (close_socket i g) = gw_accepted g" "gw_accepted (pong i g) = gw_accepted g"
  by (simp_all add: attach_def close_socket_def pong_def)

lemma accepted_below_cap:
  "decideUpgrade allowed validate count r = Accept_Upgrade u t \<Longrightarrow> count u < MAX_SOCKETS_PER_USER"
  by (auto simp: decideUpgrade_def Let_def split: session_answer.splits if_splits option.splits)

lemma capped_step:
  assumes "capped g" "case e of Upgrade_Decided _ \<Rightarrow> gw_accepted g = [] | Upgrade_Finished i _ \<Rightarrow> i = 0 | _ \<Rightarrow> True"
  shows "capped (gateway_apply allowed validate e g)"
proof (cases e)
  case (Upgrade_Decided r)
  show ?thesis
  proof (cases "decideUpgrade allowed validate (\<lambda>u. countFor u g) r")
    case (Accept_Upgrade u t)
    then have "countFor u g < MAX_SOCKETS_PER_USER" by (rule accepted_below_cap)
    moreover have "countFor v g \<le> MAX_SOCKETS_PER_USER" for v
      using assms(1) unfolding capped_def by (meson add_leD1)
    moreover have "countFor v (g\<lparr>gw_accepted := xs\<rparr>) = countFor v g" for v xs by (simp add: countFor_def)
    ultimately show ?thesis using Upgrade_Decided Accept_Upgrade assms(2)
      by (simp add: decide_step_def capped_def accepted_for_def Suc_le_eq)
  qed (use assms Upgrade_Decided in \<open>simp_all add: decide_step_def\<close>)
next
  case (Upgrade_Finished i d)
  show ?thesis
  proof (cases "gw_accepted g")
    case Nil
    then show ?thesis using assms Upgrade_Finished by (simp add: finish_upgrade_def)
  next
    case (Cons x xs)
    then have one: "gw_accepted g = [x]" using assms(1) by (simp add: capped_def)
    have same: "countFor v (g\<lparr>gw_accepted := []\<rparr>) = countFor v g" for v by (simp add: countFor_def)
    have "countFor v g + (if fst x = v then 1 else 0) \<le> MAX_SOCKETS_PER_USER" for v
      using assms(1) unfolding capped_def accepted_for_def one by (auto dest!: spec [of _ v] split: if_splits)
    then show ?thesis using assms(2) Upgrade_Finished one
      by (auto simp: finish_upgrade_def Let_def split_beta capped_def accepted_for_def countFor_attach same split: if_splits
          dest: add_leD1)
  qed
next
  case (Socket_Closed i)
  then show ?thesis using assms(1) countFor_close [of _ i g] unfolding capped_def
    by (simp add: accepted_for_def) (meson add_le_mono1 le_trans)
qed (use assms in \<open>simp add: capped_def accepted_for_def\<close>)

lemma capped_close: "capped g \<Longrightarrow> capped (close_socket i g)"
  and capped_pong: "capped g \<Longrightarrow> capped (pong i g)"
  using capped_step [of g "Socket_Closed i" "[]" "\<lambda>_. No_Session"] capped_step [of g "Socket_Pong i" "[]" "\<lambda>_. No_Session"]
  by simp_all

lemma capped_run:
  "one_at_a_time free es \<Longrightarrow> (free \<longrightarrow> gw_accepted g = []) \<Longrightarrow> capped g \<Longrightarrow>
   capped (foldl (\<lambda>g e. gateway_apply allowed validate e g) g es)"
proof (induction free es arbitrary: g rule: one_at_a_time.induct)
  case (2 free r es)
  then show ?case using capped_step [of g "Upgrade_Decided r" allowed validate] by simp
next
  case (3 free i d es)
  have "gw_accepted (finish_upgrade 0 d g) = []"
    using "3.prems"(3) by (cases "gw_accepted g") (auto simp: capped_def finish_upgrade_def Let_def split_beta)
  then show ?case using 3 capped_step [of g "Upgrade_Finished 0 d" allowed validate] by simp
qed (simp_all add: capped_close capped_pong)

text \<open>When upgrades are handled one at a time - the decision on a request, which counts the open
  sockets, is followed by its attachment before the next decision - no user ever has more than
  16 sockets.\<close>

lemma socket_cap_one_at_a_time:
  assumes "one_at_a_time True es"
  shows "countFor u (gateway_run allowed validate es) \<le> MAX_SOCKETS_PER_USER"
proof -
  have "capped (gateway_run allowed validate es)"
    unfolding gateway_run_def by (rule capped_run [OF assms]) (simp_all add: new_gateway_def capped_def countFor_def accepted_for_def)
  then show ?thesis unfolding capped_def by (meson add_leD1)
qed

lemma socket_cap_one_at_a_time_witness:
  "countFor (js ''u'') (gateway_run [] (\<lambda>_. Session (js ''u''))
     [Upgrade_Decided \<lparr>up_url = Some LIVE_PATH, up_origin = None, up_token = Some (js ''t'')\<rparr>, Upgrade_Finished 0 False]) \<le> 16"
  using socket_cap_one_at_a_time [of "[Upgrade_Decided \<lparr>up_url = Some LIVE_PATH, up_origin = None, up_token = Some (js ''t'')\<rparr>,
    Upgrade_Finished 0 False]" "js ''u''" "[]" "\<lambda>_. Session (js ''u'')"] by (simp add: MAX_SOCKETS_PER_USER_def)

text \<open>Decided together, any number of requests of one user are accepted: each decision counts only
  the sockets already attached.\<close>

lemma decided_together_ignore_cap:
  assumes "decideUpgrade allowed validate (\<lambda>_. 0) r = Accept_Upgrade u t"
  shows "countFor u (gateway_run allowed validate (replicate n (Upgrade_Decided r) @ replicate n (Upgrade_Finished 0 False))) = n"
proof -
  let ?step = "\<lambda>g e. gateway_apply allowed validate e g"
  have "foldl ?step g (replicate n (Upgrade_Decided r)) = g\<lparr>gw_accepted := gw_accepted g @ replicate n (u, t)\<rparr>"
    if "gw_sockets g = []" for g
    using that
  proof (induction n arbitrary: g)
    case (Suc n)
    have "(\<lambda>v. countFor v g) = (\<lambda>_. 0)" using Suc.prems by (simp add: countFor_def)
    then have "gateway_apply allowed validate (Upgrade_Decided r) g = g\<lparr>gw_accepted := gw_accepted g @ [(u, t)]\<rparr>"
      using assms by (simp add: decide_step_def)
    then show ?case using Suc by simp
  qed simp
  moreover have "countFor u (foldl ?step g (replicate n (Upgrade_Finished 0 False))) = countFor u g + n"
    if "gw_accepted g = replicate n (u, t)" for g
    using that
  proof (induction n arbitrary: g)
    case (Suc n)
    let ?g = "g\<lparr>gw_accepted := replicate n (u, t)\<rparr>"
    have "gateway_apply allowed validate (Upgrade_Finished 0 False) g = attach u t ?g"
      using Suc.prems by (simp add: finish_upgrade_def Let_def)
    moreover have "countFor u ?g = countFor u g" by (simp add: countFor_def)
    ultimately show ?case using Suc.IH [of "attach u t ?g"] by (simp add: countFor_attach)
  qed simp
  ultimately show ?thesis by (simp add: gateway_run_def new_gateway_def countFor_def)
qed

end
