(* ===== verification/Stream_Guards.thy ===== *)
theory Stream_Guards
  imports Js_Prelude
begin

text \<open>
  What stands between a provider's stream and a run: the gate that holds a step's tool calls behind
  the reasoning streamed before them (\<^verbatim>\<open>createToolCallGate\<close> of
  \<^verbatim>\<open>apps/api/src/models/tool-call-gate.ts\<close>), the idle window of a provider request
  (\<^verbatim>\<open>stream-idle-watchdog.ts\<close>), the buffer that coalesces text deltas
  (\<^verbatim>\<open>apps/api/src/runs/delta-buffer.ts\<close>) and the generation window of a request
  (\<^verbatim>\<open>request-usage.ts\<close>). Time is in milliseconds and comes with each event.
\<close>

section \<open>The tool call gate\<close>

text \<open>A task is a value; running one appends it, with its call, to \<open>g_ran\<close>. A task does not call the gate.\<close>

record 't gate =
  g_attached :: bool
  g_closed :: bool
  g_reachedIds :: "jstr list"
  g_pending :: "(jstr \<times> 't list) list"
  g_ran :: "(jstr \<times> 't) list"


definition pending_of :: "'t gate \<Rightarrow> jstr \<Rightarrow> 't list" where
  "pending_of g c = (case map_of (g_pending g) c of None \<Rightarrow> [] | Some ts \<Rightarrow> ts)"

definition gate_settle :: "jstr \<Rightarrow> 't gate \<Rightarrow> 't gate" where
  "gate_settle c g = g\<lparr>g_pending := map_delete (g_pending g) c, g_ran := g_ran g @ map (Pair c) (pending_of g c)\<rparr>"














lemma settle_all_simps [simp]:
  "g_pending (fold gate_settle cs g) = filter (\<lambda>x. fst x \<notin> set cs) (g_pending g)"
  "g_attached (fold gate_settle cs g) = g_attached g" "g_closed (fold gate_settle cs g) = g_closed g"
  "g_reachedIds (fold gate_settle cs g) = g_reachedIds g"
  by (induction cs arbitrary: g) (auto simp: gate_settle_def map_delete_def intro!: filter_cong)







section \<open>The delta buffer\<close>

definition DEFAULT_DELTA_FLUSH_CHARS :: nat where
  "DEFAULT_DELTA_FLUSH_CHARS = 400"

definition DEFAULT_DELTA_FLUSH_MS :: int where
  "DEFAULT_DELTA_FLUSH_MS = 150"

record delta_buffer =
  db_buffer :: jstr
  db_firstPushMs :: "int option"

definition createDeltaBuffer :: delta_buffer where
  "createDeltaBuffer = \<lparr>db_buffer = [], db_firstPushMs = None\<rparr>"

definition push_delta :: "nat \<Rightarrow> int \<Rightarrow> jstr \<Rightarrow> int option \<Rightarrow> delta_buffer \<Rightarrow> delta_buffer \<times> jstr option" where
  "push_delta flushAtChars flushAfterMs t nowMs b =
     (let buffer = db_buffer b @ t;
          first = (case db_firstPushMs b of None \<Rightarrow> nowMs | Some f \<Rightarrow> Some f);
          aged = (case (nowMs, first) of (Some now, Some f) \<Rightarrow> now - f \<ge> flushAfterMs | _ \<Rightarrow> False)
      in if length buffer < flushAtChars \<and> \<not> aged then (\<lparr>db_buffer = buffer, db_firstPushMs = first\<rparr>, None)
         else (createDeltaBuffer, Some buffer))"

definition flush_delta :: "delta_buffer \<Rightarrow> delta_buffer \<times> jstr option" where
  "flush_delta b = (if db_buffer b = [] then (b, None) else (createDeltaBuffer, Some (db_buffer b)))"

text \<open>A stream of deltas with their times, and the chunks it is persisted as.\<close>

fun push_deltas :: "nat \<Rightarrow> int \<Rightarrow> (jstr \<times> int option) list \<Rightarrow> delta_buffer \<Rightarrow> delta_buffer \<times> jstr list" where
  "push_deltas n ms [] b = (b, [])"
| "push_deltas n ms ((t, now) # ts) b =
     (let (b1, out) = push_delta n ms t now b; (b2, outs) = push_deltas n ms ts b1
      in (b2, (case out of None \<Rightarrow> outs | Some x \<Rightarrow> x # outs)))"

definition persisted :: "nat \<Rightarrow> int \<Rightarrow> (jstr \<times> int option) list \<Rightarrow> jstr list" where
  "persisted n ms ts =
     (let (b, outs) = push_deltas n ms ts createDeltaBuffer
      in outs @ (case snd (flush_delta b) of None \<Rightarrow> [] | Some x \<Rightarrow> [x]))"

lemma push_deltas_text: "concat (snd (push_deltas n ms ts b)) @ db_buffer (fst (push_deltas n ms ts b)) = db_buffer b @ concat (map fst ts)"
proof (induction n ms ts b rule: push_deltas.induct)
  case (2 n ms t now ts b)
  then show ?case by (auto simp: push_delta_def Let_def split_beta createDeltaBuffer_def split: option.splits)
qed simp

lemma push_deltas_snoc:
  "fst (push_deltas n ms (ts @ [(t, now)]) b) = fst (push_delta n ms t now (fst (push_deltas n ms ts b)))"
  by (induction ts arbitrary: b) (auto simp: Let_def split_beta)

text \<open>Coalescing loses nothing and holds little back: the persisted chunks are the streamed text
  in order, whatever the thresholds, and after a push at a known time what is still buffered is
  below the size threshold and, unless it is empty, below the age threshold.\<close>

lemma deltas_are_coalesced:
  "concat (persisted n ms ts) = concat (map fst ts) \<and>
   (let b = fst (push_deltas n ms (ts @ [(t, Some now)]) createDeltaBuffer) in
    b = createDeltaBuffer \<or> length (db_buffer b) < n \<and> (\<exists>first. db_firstPushMs b = Some first \<and> now - first < ms))"
proof
  show "concat (persisted n ms ts) = concat (map fst ts)"
    using push_deltas_text [of n ms ts createDeltaBuffer]
    by (auto simp: persisted_def Let_def split_beta flush_delta_def createDeltaBuffer_def split: option.splits if_splits)
  show "let b = fst (push_deltas n ms (ts @ [(t, Some now)]) createDeltaBuffer) in
    b = createDeltaBuffer \<or> length (db_buffer b) < n \<and> (\<exists>first. db_firstPushMs b = Some first \<and> now - first < ms)"
    unfolding push_deltas_snoc Let_def push_delta_def by (auto split: option.splits)
qed

section \<open>The idle window\<close>


text \<open>What expiry does: reject the pending request, or report an error on the stream.\<close>

datatype on_expiry = Reject_Request | Error_Stream

record watchdog =
  wd_timer :: "int option"
  wd_settled :: bool
  wd_fail :: on_expiry
  wd_idle_aborted :: bool

definition settle_watchdog :: "watchdog \<Rightarrow> watchdog" where
  "settle_watchdog w = w\<lparr>wd_settled := True, wd_timer := None\<rparr>"


datatype watch_phase = Requesting | Streaming | Ended

datatype 'p watch_output =
    Part 'p
  | Request_Rejected_Idle
  | Request_Rejected
  | Error_Part_Idle
  | Error_Part
  | Stream_Closed

text \<open>One watched request; \<open>ws_last\<close> is when the provider was last heard of, or was asked.\<close>

record 'p watched =
  ws_dog :: watchdog
  ws_phase :: watch_phase
  ws_out :: "'p watch_output list"
  ws_last :: int



definition end_watch :: "'p watch_output list \<Rightarrow> 'p watched \<Rightarrow> 'p watched" where
  "end_watch outs w = w\<lparr>ws_dog := settle_watchdog (ws_dog w), ws_phase := Ended, ws_out := ws_out w @ outs\<rparr>"







lemma end_watch_simps [simp]:
  "ws_phase (end_watch outs w) = Ended" "ws_out (end_watch outs w) = ws_out w @ outs"
  "wd_settled (ws_dog (end_watch outs w))" "wd_timer (ws_dog (end_watch outs w)) = None"
  by (simp_all add: end_watch_def settle_watchdog_def)





section \<open>The generation window\<close>

record token_counts =
  tc_inputTotal :: "int option"
  tc_noCache :: "int option"
  tc_cacheRead :: "int option"
  tc_cacheWrite :: "int option"
  tc_outputTotal :: "int option"
  tc_text :: "int option"
  tc_reasoning :: "int option"

record model_usage =
  mu_inputTokens :: "int option"
  mu_noCacheTokens :: "int option"
  mu_cacheReadTokens :: "int option"
  mu_cacheWriteTokens :: "int option"
  mu_outputTokens :: "int option"
  mu_textTokens :: "int option"
  mu_reasoningTokens :: "int option"
  mu_totalTokens :: "int option"
  mu_cachedInputTokens :: "int option"

definition toLanguageModelUsage :: "token_counts \<Rightarrow> model_usage" where
  "toLanguageModelUsage u =
     \<lparr>mu_inputTokens = tc_inputTotal u, mu_noCacheTokens = tc_noCache u, mu_cacheReadTokens = tc_cacheRead u,
      mu_cacheWriteTokens = tc_cacheWrite u, mu_outputTokens = tc_outputTotal u, mu_textTokens = tc_text u,
      mu_reasoningTokens = tc_reasoning u,
      mu_totalTokens =
        (if tc_inputTotal u = None \<and> tc_outputTotal u = None then None
         else Some ((case tc_inputTotal u of None \<Rightarrow> 0 | Some n \<Rightarrow> n) + (case tc_outputTotal u of None \<Rightarrow> 0 | Some n \<Rightarrow> n))),
      mu_cachedInputTokens = tc_cacheRead u\<rparr>"

datatype stream_part = Tool_Input_Delta jstr | Text_Delta jstr | Reasoning_Delta jstr | Finish token_counts | Other_Part

fun opensGenerationWindow :: "stream_part \<Rightarrow> bool" where
  "opensGenerationWindow (Tool_Input_Delta d) \<longleftrightarrow> length d > 0"
| "opensGenerationWindow (Text_Delta d) \<longleftrightarrow> length d > 0"
| "opensGenerationWindow (Reasoning_Delta d) \<longleftrightarrow> length d > 0"
| "opensGenerationWindow _ \<longleftrightarrow> False"

text \<open>The reports of \<^verbatim>\<open>measureGenerationWindow\<close> over the parts with the times they pass at.\<close>

fun measure_window :: "int \<Rightarrow> int option \<Rightarrow> (int \<times> stream_part) list \<Rightarrow> (model_usage \<times> int) list" where
  "measure_window requestStartedAt first [] = []"
| "measure_window requestStartedAt first ((now, part) # parts) =
     (let first' = (if opensGenerationWindow part then (case first of None \<Rightarrow> Some now | Some f \<Rightarrow> Some f) else first) in
      (case part of
         Finish u \<Rightarrow> [(toLanguageModelUsage u, now - (case first' of None \<Rightarrow> requestStartedAt | Some f \<Rightarrow> f))]
       | _ \<Rightarrow> []) @ measure_window requestStartedAt first' parts)"

definition measureGenerationWindow :: "int \<Rightarrow> (int \<times> stream_part) list \<Rightarrow> (model_usage \<times> int) list" where
  "measureGenerationWindow requestStartedAt parts = measure_window requestStartedAt None parts"

text \<open>With a clock that does not go back, no window is negative or longer than the request.\<close>

lemma generation_windows:
  "sorted (map fst parts) \<Longrightarrow> (\<forall>t\<in>fst ` set parts. start \<le> t \<and> (\<forall>f. first = Some f \<longrightarrow> start \<le> f \<and> f \<le> t)) \<Longrightarrow>
   (u, w) \<in> set (measure_window start first parts) \<Longrightarrow> 0 \<le> w \<and> (\<exists>t\<in>fst ` set parts. w \<le> t - start)"
proof (induction start first parts rule: measure_window.induct)
  case (2 start first now part parts)
  define first' where "first' = (if opensGenerationWindow part then (case first of None \<Rightarrow> Some now | Some f \<Rightarrow> Some f) else first)"
  show ?case
  proof (cases "(u, w) \<in> set (measure_window start first' parts)")
    case True
    have "\<forall>t\<in>fst ` set parts. start \<le> t \<and> (\<forall>f. first' = Some f \<longrightarrow> start \<le> f \<and> f \<le> t)"
      using "2.prems" by (auto simp: first'_def split: if_splits option.splits)
    then show ?thesis using "2.IH" [OF first'_def] "2.prems" True by auto
  next
    case False
    then obtain v where "part = Finish v" "w = now - (case first' of None \<Rightarrow> start | Some f \<Rightarrow> f)"
      using "2.prems"(3) by (auto simp: Let_def first'_def [symmetric] split: stream_part.splits)
    then show ?thesis using "2.prems"(2) by (auto simp: first'_def split: option.splits)
  qed
qed simp

end
