(* ===== verification/Run_Payload.thy ===== *)
theory Run_Payload
  imports Live_Messages Result_Truncation
begin

text \<open>
  The readers of a stored run event's payload (\<^verbatim>\<open>apps/api/src/runs/run-event-payload.ts\<close>,
  \<^verbatim>\<open>tool-activity-origin.ts\<close>) and the guards they call: the artifact locator
  (\<^verbatim>\<open>tools/artifacts/locator.ts\<close>), the refused hop (\<^verbatim>\<open>isHopRejection\<close>, \<^verbatim>\<open>isRejectedHopUrl\<close>), the tool
  classifications and the kinds of derived locator. A payload is any value, since it is read back from
  untrusted storage: a malformed field contributes nothing. \<^verbatim>\<open>new URL\<close> is the argument \<open>url\<close>.
\<close>

type_synonym obj = "(jstr \<times> jsval) list"

record run_event =
  ev_type :: jstr
  ev_payload :: jsval

section \<open>Fields\<close>

fun eventPayloadField :: "jsval \<Rightarrow> string \<Rightarrow> jsval" where
  "eventPayloadField (JObj kvs) key = get_prop kvs (js key)"
| "eventPayloadField _ key = JUndef"

fun isString :: "jsval \<Rightarrow> jstr option" where
  "isString (JStr s) = Some s"
| "isString _ = None"

fun isNumber :: "jsval \<Rightarrow> jsnum option" where
  "isNumber (JNum n) = Some n"
| "isNumber _ = None"

definition eventPayloadString :: "jsval \<Rightarrow> string \<Rightarrow> jstr option" where
  "eventPayloadString p key = isString (eventPayloadField p key)"

definition eventPayloadNumber :: "jsval \<Rightarrow> string \<Rightarrow> jsnum option" where
  "eventPayloadNumber p key = isNumber (eventPayloadField p key)"

definition eventProviderMetadata :: "jsval \<Rightarrow> obj option" where
  "eventProviderMetadata p = isRecord (eventPayloadField p ''providerMetadata'')"

text \<open>Properties that a spread adds only when they are defined.\<close>

definition opt_prop :: "string \<Rightarrow> ('a \<Rightarrow> jsval) \<Rightarrow> 'a option \<Rightarrow> obj" where
  "opt_prop key f v = (case v of None \<Rightarrow> [] | Some x \<Rightarrow> [(js key, f x)])"

lemma opt_prop_simps [simp]: "opt_prop key f None = []" "opt_prop key f (Some x) = [(js key, f x)]"
  by (simp_all add: opt_prop_def)

section \<open>Where a call comes from\<close>

definition SYSTEM_ORIGINS :: "string list" where
  "SYSTEM_ORIGINS = [''skill-activation'', ''instructions'', ''prompt-import'']"

definition isSystemOriginPayload :: "jsval \<Rightarrow> bool" where
  "isSystemOriginPayload p \<longleftrightarrow>
     (case isRecord p of None \<Rightarrow> False
      | Some r \<Rightarrow> \<exists>origin\<in>set SYSTEM_ORIGINS. get_prop r (js ''origin'') = JStr (js origin))"

section \<open>Guards on stored values\<close>

definition isHopRejection :: "jstr \<Rightarrow> jsval \<Rightarrow> bool" where
  "isHopRejection toolName errorType \<longleftrightarrow>
     toolName = js ''read'' \<and> errorType = JStr (js ''permission_denied'')"

definition TOOL_OUTCOME_MAX_LENGTH :: nat where
  "TOOL_OUTCOME_MAX_LENGTH = 128"

definition TOOL_OUTCOME_PATTERN :: "jstr \<Rightarrow> bool" where
  "TOOL_OUTCOME_PATTERN s \<longleftrightarrow>
     s \<noteq> [] \<and> is_alnum (hd s) \<and> (\<forall>c\<in>set (tl s). is_alnum c \<or> c \<in> set (js ''_.:-''))"

definition isBoundedToken :: "jsval \<Rightarrow> nat \<Rightarrow> (jstr \<Rightarrow> bool) \<Rightarrow> jstr option" where
  "isBoundedToken v maxLength pattern =
     (case v of JStr s \<Rightarrow> if 0 < length s \<and> length s \<le> maxLength \<and> pattern s then Some s else None | _ \<Rightarrow> None)"

definition normalizeToolObservationOutcome :: "jsval \<Rightarrow> jstr \<Rightarrow> jstr" where
  "normalizeToolObservationOutcome v fallback =
     (case isBoundedToken v TOOL_OUTCOME_MAX_LENGTH TOOL_OUTCOME_PATTERN of Some s \<Rightarrow> s | None \<Rightarrow> fallback)"

record js_url =
  url_protocol :: jstr
  url_username :: jstr
  url_password :: jstr
  url_search :: jstr
  url_hash :: jstr
  url_href :: jstr

definition REJECTED_URL_BOUND :: nat where
  "REJECTED_URL_BOUND = 2048"

definition is_control :: "code_unit \<Rightarrow> bool" where
  "is_control c \<longleftrightarrow> c < 0x20 \<or> (0x7f \<le> c \<and> c \<le> 0x9f)"

definition isRejectedHopUrl :: "(jstr \<Rightarrow> js_url option) \<Rightarrow> jsval \<Rightarrow> bool" where
  "isRejectedHopUrl url v \<longleftrightarrow>
     (case v of
        JStr s \<Rightarrow>
          s \<noteq> [] \<and> length s \<le> REJECTED_URL_BOUND \<and> s = filter (\<lambda>c. \<not> is_control c) s \<and>
          (case url s of
             None \<Rightarrow> False
           | Some u \<Rightarrow> (url_protocol u = js ''http:'' \<or> url_protocol u = js ''https:'') \<and> url_username u = [] \<and>
               url_password u = [] \<and> url_search u = [] \<and> url_hash u = [] \<and> url_href u = s)
      | _ \<Rightarrow> False)"

definition TOOL_CLASSIFICATIONS :: "string list" where
  "TOOL_CLASSIFICATIONS =
     [''read_only'', ''write_low_risk'', ''write_high_risk'', ''execute_code'', ''external_send'',
      ''financial_or_sensitive'', ''admin'', ''unverified'']"

definition isToolClassification :: "jsval \<Rightarrow> bool" where
  "isToolClassification v \<longleftrightarrow> v \<in> (\<lambda>known. JStr (js known)) ` set TOOL_CLASSIFICATIONS"

definition KIND_NAMES :: "string list" where
  "KIND_NAMES =
     [''hop'', ''alternate'', ''suffix'', ''llms-txt'', ''adapter'', ''address'', ''canonical'',
      ''main_clone'', ''worktree_directory'', ''grep-file'']"

definition isDerivedLocatorKind :: "jsval \<Rightarrow> bool" where
  "isDerivedLocatorKind v \<longleftrightarrow> v \<in> (\<lambda>known. JStr (js known)) ` set KIND_NAMES"

section \<open>Artifact locators\<close>

definition scheme_char :: "code_unit \<Rightarrow> bool" where
  "scheme_char c \<longleftrightarrow> is_alnum c \<or> c \<in> set (js ''+.-'')"

definition ascii_lower :: "code_unit \<Rightarrow> code_unit" where
  "ascii_lower c = (if 65 \<le> c \<and> c \<le> 90 then c + 32 else c)"

text \<open>\<^verbatim>\<open>^([A-Za-z][A-Za-z0-9+.-]*):\/\/\<close>; a scheme has no colon, so it ends at the first other character.\<close>

definition parsePathScheme :: "jstr \<Rightarrow> (jstr \<times> jstr) option" where
  "parsePathScheme input =
     (let scheme = takeWhile scheme_char input; rest = dropWhile scheme_char input in
      if scheme \<noteq> [] \<and> is_alnum (hd scheme) \<and> \<not> is_digit (hd scheme) \<and> starts_with rest (js ''://'')
      then Some (map ascii_lower scheme, drop 3 rest) else None)"

definition TOOL_ID_PATTERN :: "jstr \<Rightarrow> bool" where
  "TOOL_ID_PATTERN s \<longleftrightarrow> s \<noteq> [] \<and> length s \<le> 64 \<and> (\<forall>c\<in>set s. is_alnum c \<or> c = 95 \<or> c = 45)"

definition ARTIFACT_SEQ_MAX :: nat where
  "ARTIFACT_SEQ_MAX = 2147483647"

record artifact_locator =
  al_toolName :: jstr
  al_seq :: nat
  al_part :: "jstr option"

text \<open>The rest of the text after a tool name of \<open>n\<close> characters: a dash, a counter, and a stream name
  or the end. The digits are read greedily; a stream name cannot start with one of them.\<close>

definition locator_after :: "jstr \<Rightarrow> nat \<Rightarrow> (jstr \<times> jstr \<times> jstr option) option" where
  "locator_after s n =
     (let name = take n s; r = drop n s; ds = takeWhile is_digit (tl r); t = dropWhile is_digit (tl r) in
      if TOOL_ID_PATTERN name \<and> length name = n \<and> r \<noteq> [] \<and> hd r = 45 \<and> ds \<noteq> [] \<and> hd ds \<noteq> 48 then
        (if t = [] then Some (name, ds, None)
         else if hd t = 47 \<and> TOOL_ID_PATTERN (tl t) then Some (name, ds, Some (tl t)) else None)
      else None)"

text \<open>The name is matched greedily: the longest one after which the rest matches.\<close>

definition LOCATOR :: "jstr \<Rightarrow> (jstr \<times> jstr \<times> jstr option) option" where
  "LOCATOR s =
     (case find (\<lambda>n. locator_after s n \<noteq> None) (rev [1..<65]) of None \<Rightarrow> None | Some n \<Rightarrow> locator_after s n)"

definition formatArtifactLocator :: "jstr \<Rightarrow> nat \<Rightarrow> jstr option \<Rightarrow> jstr" where
  "formatArtifactLocator toolName n stream =
     (let locator = js ''artifact'' @ js ''://'' @ toolName @ [45] @ nat_to_js n in
      case stream of None \<Rightarrow> locator | Some p \<Rightarrow> if p = [] then locator else locator @ [47] @ p)"

definition parseArtifactLocatorText :: "jstr \<Rightarrow> artifact_locator option" where
  "parseArtifactLocatorText t =
     (case parsePathScheme t of
        None \<Rightarrow> None
      | Some (scheme, rest) \<Rightarrow>
          if scheme \<noteq> js ''artifact'' then None
          else (case LOCATOR rest of
                  None \<Rightarrow> None
                | Some (name, ds, stream) \<Rightarrow>
                    if digits_val ds > ARTIFACT_SEQ_MAX then None
                    else Some \<lparr>al_toolName = name, al_seq = digits_val ds, al_part = stream\<rparr>))"

definition isArtifactLocator :: "jsval \<Rightarrow> bool" where
  "isArtifactLocator v \<longleftrightarrow>
     (case v of
        JStr s \<Rightarrow>
          (case parseArtifactLocatorText s of
             None \<Rightarrow> False
           | Some p \<Rightarrow> formatArtifactLocator (al_toolName p) (al_seq p) (al_part p) = s)
      | _ \<Rightarrow> False)"

section \<open>Permission decisions\<close>

definition PERMISSION_REASONS :: "string list" where
  "PERMISSION_REASONS =
     [''explicit_reject'', ''no_allow'', ''invalid_field'', ''input_limit'', ''matched_allow'',
      ''permission_mode_bypass'', ''permission_mode_read_only'']"

definition isPermissionReason :: "jsval \<Rightarrow> bool" where
  "isPermissionReason v \<longleftrightarrow> v \<in> (\<lambda>r. JStr (js r)) ` set PERMISSION_REASONS"

definition isPermissionRejectionReason :: "jsval \<Rightarrow> bool" where
  "isPermissionRejectionReason v \<longleftrightarrow>
     isPermissionReason v \<and> v \<noteq> JStr (js ''matched_allow'') \<and> v \<noteq> JStr (js ''permission_mode_bypass'')"

definition MAX_DERIVED_DECISIONS :: nat where
  "MAX_DERIVED_DECISIONS = 26"

definition MAX_ADDRESS_DECISIONS :: nat where
  "MAX_ADDRESS_DECISIONS = 16"

definition permissionClauseFromPayload :: "jsval \<Rightarrow> jsval" where
  "permissionClauseFromPayload v =
     (case isRecord v of
        None \<Rightarrow> JNull
      | Some r \<Rightarrow>
          (let groupId = get_prop r (js ''groupId''); list = get_prop r (js ''list'');
               clauseIndex = get_prop r (js ''clauseIndex'') in
           if isString groupId = None then JNull
           else if list \<noteq> JStr (js ''allow'') \<and> list \<noteq> JStr (js ''reject'') then JNull
           else if clauseIndex \<noteq> JNull \<and> isNumber clauseIndex = None then JNull
           else JObj [(js ''groupId'', groupId), (js ''list'', list), (js ''clauseIndex'', clauseIndex)]))"

definition permissionDecisionFrom :: "jsval \<Rightarrow> obj option" where
  "permissionDecisionFrom v =
     (case isRecord v of
        None \<Rightarrow> None
      | Some r \<Rightarrow>
          (let policyId = get_prop r (js ''policyId''); decision = get_prop r (js ''decision'');
               reason = get_prop r (js ''reason'');
               reference = permissionClauseFromPayload (get_prop r (js ''reference''));
               built = [(js ''policyId'', policyId), (js ''decision'', decision), (js ''reason'', reason),
                        (js ''reference'', reference)] in
           if isString policyId = None then None
           else if decision = JStr (js ''allow'') then
             (if reason = JStr (js ''matched_allow'') \<or> reason = JStr (js ''permission_mode_bypass'')
              then Some built else None)
           else if decision \<noteq> JStr (js ''reject'') \<or> \<not> isPermissionRejectionReason reason then None
           else Some built))"

definition permissionFromPayload :: "jsval \<Rightarrow> obj option" where
  "permissionFromPayload p = permissionDecisionFrom (eventPayloadField p ''permission'')"

definition derivedDecisionRecordFrom :: "jsval \<Rightarrow> obj option" where
  "derivedDecisionRecordFrom v =
     (case isRecord v of
        None \<Rightarrow> None
      | Some r \<Rightarrow>
          (let kind = get_prop r (js ''kind'') in
           if \<not> isDerivedLocatorKind kind then None
           else (case permissionDecisionFrom v of
                   None \<Rightarrow> None
                 | Some decision \<Rightarrow>
                     (case isNumber (get_prop r (js ''count'')) of
                        Some n \<Rightarrow>
                          if num_is_integer n \<and> \<not> num_negative n
                          then Some (decision @ [(js ''kind'', kind), (js ''count'', JNum n)])
                          else Some (decision @ [(js ''kind'', kind)])
                      | None \<Rightarrow> Some (decision @ [(js ''kind'', kind)])))))"

fun take_decisions :: "jsval list \<Rightarrow> nat \<Rightarrow> nat \<Rightarrow> obj list" where
  "take_decisions [] addressCount derivedCount = []"
| "take_decisions (entry # es) addressCount derivedCount =
     (case derivedDecisionRecordFrom entry of
        None \<Rightarrow> take_decisions es addressCount derivedCount
      | Some decision \<Rightarrow>
          if get_prop decision (js ''kind'') = JStr (js ''address'') then
            (if addressCount \<ge> MAX_ADDRESS_DECISIONS then take_decisions es addressCount derivedCount
             else decision # take_decisions es (Suc addressCount) derivedCount)
          else
            (if derivedCount \<ge> MAX_DERIVED_DECISIONS then take_decisions es addressCount derivedCount
             else decision # take_decisions es addressCount (Suc derivedCount)))"

definition derivedDecisionsFromPayload :: "jsval \<Rightarrow> obj list option" where
  "derivedDecisionsFromPayload p =
     (case eventPayloadField p ''derivedDecisions'' of
        JArr es \<Rightarrow> (case take_decisions es 0 0 of [] \<Rightarrow> None | ds \<Rightarrow> Some ds)
      | _ \<Rightarrow> None)"

section \<open>Results and refusals\<close>

definition toolResultFromPayload :: "(jstr \<Rightarrow> js_url option) \<Rightarrow> jsval \<Rightarrow> jstr \<Rightarrow> obj option" where
  "toolResultFromPayload url v toolName =
     (case isRecord v of
        None \<Rightarrow> None
      | Some r \<Rightarrow>
          (let status = get_prop r (js ''status''); type = get_prop r (js ''type'');
               message = get_prop r (js ''message''); rejectedUrl = get_prop r (js ''rejectedUrl'');
               artifact = get_prop r (js ''artifact'') in
           if status = JStr (js ''success'') then Some (map_set r (js ''status'') status)
           else if status \<noteq> JStr (js ''error'') \<or> isString type = None \<or> isString message = None then None
           else Some
             ([(js ''status'', status), (js ''type'', type), (js ''message'', message)] @
              (if isHopRejection toolName type \<and> isRejectedHopUrl url rejectedUrl
               then [(js ''rejectedUrl'', rejectedUrl)] else []) @
              (if isString artifact \<noteq> None then [(js ''artifact'', artifact)] else []))))"

definition sdkRefusalFromPayload :: "jsval \<Rightarrow> obj option" where
  "sdkRefusalFromPayload p =
     (case isRecord (eventPayloadField p ''sdkRefusal'') of
        None \<Rightarrow> None
      | Some r \<Rightarrow>
          (let errorText = get_prop r (js ''errorText'') in
           if isString errorText = None \<or> \<not> has_own r (js ''input'') then None
           else Some [(js ''errorText'', errorText), (js ''input'', get_prop r (js ''input''))]))"

section \<open>A locator is read back as it was written\<close>

lemma locator_after_split:
  assumes "locator_after s n = Some (name, ds, stream)"
  shows "s = name @ 45 # ds @ (case stream of None \<Rightarrow> [] | Some p \<Rightarrow> 47 # p)" "length name = n"
    "TOOL_ID_PATTERN name" "ds \<noteq> []" "hd ds \<noteq> 48" "\<forall>c\<in>set ds. is_digit c"
    "case stream of None \<Rightarrow> True | Some p \<Rightarrow> TOOL_ID_PATTERN p"
proof -
  let ?r = "drop n s" and ?t = "dropWhile is_digit (tl (drop n s))"
  let ?ok = "TOOL_ID_PATTERN (take n s) \<and> length (take n s) = n \<and> ?r \<noteq> [] \<and> hd ?r = 45 \<and>
    takeWhile is_digit (tl ?r) \<noteq> [] \<and> hd (takeWhile is_digit (tl ?r)) \<noteq> 48"
  have e: "locator_after s n = (if ?ok then
      (if ?t = [] then Some (take n s, takeWhile is_digit (tl ?r), None)
       else if hd ?t = 47 \<and> TOOL_ID_PATTERN (tl ?t) then Some (take n s, takeWhile is_digit (tl ?r), Some (tl ?t)) else None)
      else None)"
    unfolding locator_after_def Let_def by (rule refl)
  have ok: ?ok using assms e by (metis option.distinct(1))
  have h8: "name = take n s \<and> ds = takeWhile is_digit (tl ?r) \<and>
      (stream = None \<and> ?t = [] \<or> stream = Some (tl ?t) \<and> ?t \<noteq> [] \<and> hd ?t = 47 \<and> TOOL_ID_PATTERN (tl ?t))"
    using assms unfolding e if_P [OF ok] by (cases "?t = []") (simp_all split: if_splits)
  have r: "?r = 45 # tl ?r" using ok by (metis list.collapse)
  have h: "TOOL_ID_PATTERN name" "name = take n s" "length name = n" "?r = 45 # tl ?r"
    "ds = takeWhile is_digit (tl ?r)" "ds \<noteq> []" "hd ds \<noteq> 48"
    using ok h8 r by simp_all
  have h9: "stream = None \<and> ?t = [] \<or> stream = Some (tl ?t) \<and> ?t = 47 # tl ?t \<and> TOOL_ID_PATTERN (tl ?t)"
    using h8 by (metis list.collapse)
  have "s = take n s @ ?r" by simp
  also have "\<dots> = name @ 45 # ds @ ?t" using h(2,4,5) by (metis takeWhile_dropWhile_id)
  finally show "s = name @ 45 # ds @ (case stream of None \<Rightarrow> [] | Some p \<Rightarrow> 47 # p)"
    using h9 by (elim disjE conjE) (simp_all only: append_Nil2 option.case)
  show "length name = n" "TOOL_ID_PATTERN name" "ds \<noteq> []" "hd ds \<noteq> 48" by (fact h)+
  show "\<forall>c\<in>set ds. is_digit c" using h(5) by (metis set_takeWhileD)
  show "case stream of None \<Rightarrow> True | Some p \<Rightarrow> TOOL_ID_PATTERN p" using h9 by auto
qed

lemma token_chars: "TOOL_ID_PATTERN s \<Longrightarrow> 47 \<notin> set s" "\<forall>c\<in>set ds. is_digit c \<Longrightarrow> 47 \<notin> set ds"
  by (auto simp: TOOL_ID_PATTERN_def is_alnum_def is_digit_def)

text \<open>The name ends at the last dash before the first slash, so at most one length matches.\<close>

lemma locator_after_length:
  assumes "locator_after s n = Some m"
  shows "n + Suc (length (takeWhile is_digit (rev (takeWhile (\<lambda>c. c \<noteq> 47) s)))) = length (takeWhile (\<lambda>c. c \<noteq> 47) s)"
proof -
  obtain name ds stream where m: "m = (name, ds, stream)" by (cases m)
  note h = locator_after_split [OF assms [unfolded m]]
  have "takeWhile (\<lambda>c. c \<noteq> 47) s = name @ 45 # ds"
    using token_chars(1) [OF h(3)] token_chars(2) [OF h(6)] h(1)
    by (auto simp: takeWhile_append takeWhile_eq_all_conv split: option.splits)
  moreover have "takeWhile is_digit (rev ds @ 45 # rev name) = rev ds"
    using h(6) by (subst takeWhile_append2) (auto simp: is_digit_def)
  ultimately show ?thesis using h(2) by simp
qed

lemma find_only: "(\<And>k. P k \<longleftrightarrow> k = n) \<Longrightarrow> n \<in> set xs \<Longrightarrow> find P xs = Some n"
  by (induction xs) auto

lemma LOCATOR_is:
  assumes "locator_after s n = Some m" "n < 65"
  shows "LOCATOR s = Some m"
proof -
  obtain name ds stream where m: "m = (name, ds, stream)" by (cases m)
  have pos: "0 < n" using locator_after_split(2,3) [OF assms(1) [unfolded m]]
    by (auto simp: TOOL_ID_PATTERN_def)
  have uniq: "locator_after s k \<noteq> None \<longleftrightarrow> k = n" for k
  proof
    assume "locator_after s k \<noteq> None"
    then obtain m' where "locator_after s k = Some m'" by blast
    from locator_after_length [OF this] locator_after_length [OF assms(1)] show "k = n" by linarith
  qed (simp add: assms(1))
  have "find (\<lambda>k. locator_after s k \<noteq> None) (rev [1..<65]) = Some n"
    using uniq pos assms(2) by (intro find_only) (simp_all del: upt_rec_numeral upt_conv_Cons_Cons)
  then show ?thesis using assms(1) by (simp add: LOCATOR_def)
qed

lemma locator_after_built:
  assumes "TOOL_ID_PATTERN name" "ds \<noteq> []" "hd ds \<noteq> 48" "\<forall>c\<in>set ds. is_digit c"
    "case stream of None \<Rightarrow> True | Some p \<Rightarrow> TOOL_ID_PATTERN p"
  shows "locator_after (name @ 45 # ds @ (case stream of None \<Rightarrow> [] | Some p \<Rightarrow> 47 # p)) (length name) = Some (name, ds, stream)"
proof -
  have "\<not> is_digit 47" by (simp add: is_digit_def)
  moreover have "takeWhile is_digit ds = ds" "dropWhile is_digit ds = []"
    using assms(4) by (auto simp: takeWhile_eq_all_conv)
  ultimately show ?thesis using assms
    by (auto simp: locator_after_def Let_def takeWhile_append2 dropWhile_append2 split: option.splits)
qed

lemma parsePathScheme_artifact: "parsePathScheme (js ''artifact'' @ js ''://'' @ rest) = Some (js ''artifact'', rest)"
  by (simp add: parsePathScheme_def Let_def js.simps scheme_char_def is_alnum_def is_digit_def ascii_lower_def
      starts_with_def)

definition valid_locator :: "jstr \<Rightarrow> nat \<Rightarrow> jstr option \<Rightarrow> bool" where
  "valid_locator name n stream \<longleftrightarrow>
     TOOL_ID_PATTERN name \<and> 0 < n \<and> n \<le> ARTIFACT_SEQ_MAX \<and>
     (case stream of None \<Rightarrow> True | Some p \<Rightarrow> TOOL_ID_PATTERN p)"

lemma parse_format_locator:
  assumes "valid_locator name n stream"
  shows "parseArtifactLocatorText (formatArtifactLocator name n stream) =
    Some \<lparr>al_toolName = name, al_seq = n, al_part = stream\<rparr>"
proof -
  have v: "TOOL_ID_PATTERN name" "0 < n" "n \<le> ARTIFACT_SEQ_MAX"
    "case stream of None \<Rightarrow> True | Some p \<Rightarrow> TOOL_ID_PATTERN p"
    using assms by (auto simp: valid_locator_def)
  let ?rest = "name @ 45 # nat_to_js n @ (case stream of None \<Rightarrow> [] | Some p \<Rightarrow> 47 # p)"
  have "formatArtifactLocator name n stream = js ''artifact'' @ js ''://'' @ ?rest"
    using v(4) by (auto simp: formatArtifactLocator_def Let_def TOOL_ID_PATTERN_def split: option.splits)
  moreover have "LOCATOR ?rest = Some (name, nat_to_js n, stream)"
  proof (rule LOCATOR_is)
    show "locator_after ?rest (length name) = Some (name, nat_to_js n, stream)"
      by (rule locator_after_built) (use v hd_nat_to_js nat_to_js_digits in auto)
    show "length name < 65" using v(1) by (simp add: TOOL_ID_PATTERN_def)
  qed
  ultimately show ?thesis using v(3) by (simp add: parseArtifactLocatorText_def parsePathScheme_artifact)
qed

lemma LOCATOR_valid:
  assumes "LOCATOR s = Some (name, ds, stream)" "digits_val ds \<le> ARTIFACT_SEQ_MAX"
  shows "valid_locator name (digits_val ds) stream"
proof -
  obtain n where "locator_after s n = Some (name, ds, stream)"
    using assms(1) by (auto simp: LOCATOR_def split: option.splits)
  note h = locator_after_split [OF this]
  have "0 < digits_val ds"
  proof -
    obtain d r where d: "ds = d # r" using h(4) by (cases ds) auto
    have "unat d - 48 \<noteq> 0" using h(5,6) d by (auto simp: is_digit_def word_le_nat_alt word_unat_eq_iff)
    moreover have "n \<le> foldl (\<lambda>n c. 10 * n + (unat c - 48)) n xs" for n :: nat and xs :: jstr
      by (induction xs rule: rev_induct) auto
    ultimately show ?thesis unfolding digits_val_def d
      by (metis (no_types, lifting) add.left_neutral foldl_Cons gr0I le_zero_eq mult_0_right)
  qed
  then show ?thesis using h assms(2) by (simp add: valid_locator_def)
qed

text \<open>The artifact locators a stored value is accepted as are exactly those the formatter writes for a tool name, a
  counter in the range of a Postgres integer and an optional stream name, and each is read back as the
  same three.\<close>

lemma artifact_locators_are_formatted:
  "isArtifactLocator v \<longleftrightarrow>
     (\<exists>name n stream. valid_locator name n stream \<and> v = JStr (formatArtifactLocator name n stream) \<and>
        parseArtifactLocatorText (formatArtifactLocator name n stream) =
          Some \<lparr>al_toolName = name, al_seq = n, al_part = stream\<rparr>)" (is "?l \<longleftrightarrow> ?r")
proof
  assume ?l
  then obtain s p where s: "v = JStr s" "parseArtifactLocatorText s = Some p"
      "formatArtifactLocator (al_toolName p) (al_seq p) (al_part p) = s"
    by (auto simp: isArtifactLocator_def split: jsval.splits option.splits)
  from s(2) have "valid_locator (al_toolName p) (al_seq p) (al_part p)"
    by (auto simp: parseArtifactLocatorText_def split: option.splits if_splits intro!: LOCATOR_valid)
  then show ?r using s parse_format_locator by metis
next
  assume ?r
  then show ?l by (auto simp: isArtifactLocator_def)
qed

section \<open>What is read again is what was read\<close>

lemma clause_again: "permissionClauseFromPayload (permissionClauseFromPayload v) = permissionClauseFromPayload v"
  by (auto simp: permissionClauseFromPayload_def Let_def get_prop_def split: option.splits)

text \<open>What a decision read from storage consists of.\<close>

definition reason_fits :: "jsval \<Rightarrow> jsval \<Rightarrow> bool" where
  "reason_fits decision reason \<longleftrightarrow>
     decision = JStr (js ''allow'') \<and> (reason = JStr (js ''matched_allow'') \<or> reason = JStr (js ''permission_mode_bypass'')) \<or>
     decision = JStr (js ''reject'') \<and> isPermissionRejectionReason reason"

definition built_decision :: "jsval \<Rightarrow> jsval \<Rightarrow> jsval \<Rightarrow> jsval \<Rightarrow> obj" where
  "built_decision policyId decision reason reference =
     [(js ''policyId'', policyId), (js ''decision'', decision), (js ''reason'', reason), (js ''reference'', reference)]"

lemma get_built [simp]:
  "get_prop (built_decision a b c d) (js ''policyId'') = a" "get_prop (built_decision a b c d) (js ''decision'') = b"
  "get_prop (built_decision a b c d) (js ''reason'') = c" "get_prop (built_decision a b c d) (js ''reference'') = d"
  by (simp_all add: built_decision_def get_prop_def)

lemma permission_decision_of:
  "permissionDecisionFrom (JObj r) =
     (if isString (get_prop r (js ''policyId'')) \<noteq> None \<and> reason_fits (get_prop r (js ''decision'')) (get_prop r (js ''reason''))
      then Some (built_decision (get_prop r (js ''policyId'')) (get_prop r (js ''decision'')) (get_prop r (js ''reason''))
             (permissionClauseFromPayload (get_prop r (js ''reference''))))
      else None)"
proof (cases "get_prop r (js ''decision'') = JStr (js ''allow'')")
  case True
  then show ?thesis
    by (cases "isString (get_prop r (js ''policyId''))")
      (simp_all add: permissionDecisionFrom_def Let_def reason_fits_def built_decision_def)
next
  case False
  then show ?thesis
    by (cases "isString (get_prop r (js ''policyId''))")
      (simp_all add: permissionDecisionFrom_def Let_def reason_fits_def built_decision_def)
qed

lemma permission_decision_cases:
  assumes "permissionDecisionFrom v = Some d"
  obtains policyId decision reason reference where
    "isString policyId \<noteq> None" "reason_fits decision reason"
    "d = built_decision policyId decision reason (permissionClauseFromPayload reference)"
proof (cases v)
  case (JObj r)
  let ?g = "\<lambda>k. get_prop r (js k)"
  have "isString (?g ''policyId'') \<noteq> None \<and> reason_fits (?g ''decision'') (?g ''reason'') \<and>
      d = built_decision (?g ''policyId'') (?g ''decision'') (?g ''reason'') (permissionClauseFromPayload (?g ''reference''))"
    using assms unfolding JObj permission_decision_of by (simp split: if_splits)
  then show ?thesis by (elim conjE) (rule that)
qed (use assms in \<open>simp_all add: permissionDecisionFrom_def\<close>)

lemma permission_decision_again:
  assumes "permissionDecisionFrom v = Some d"
  shows "permissionDecisionFrom (JObj d) = Some d"
  using assms by (rule permission_decision_cases) (simp add: permission_decision_of clause_again)

text \<open>A decision read back allows only for a reason that allows.\<close>

lemma stored_allow_reason:
  assumes "permissionDecisionFrom v = Some d"
  shows "get_prop d (js ''decision'') = JStr (js ''allow'') \<longleftrightarrow> \<not> isPermissionRejectionReason (get_prop d (js ''reason''))"
  using assms by (rule permission_decision_cases) (auto simp: reason_fits_def isPermissionRejectionReason_def)

text \<open>A failure read from a payload keeps its error type, its message, and the two optional fields that may be kept.\<close>

definition built_failure :: "jsval \<Rightarrow> jsval \<Rightarrow> jsval option \<Rightarrow> jsval option \<Rightarrow> obj" where
  "built_failure type message rejectedUrl artifact =
     [(js ''status'', JStr (js ''error'')), (js ''type'', type), (js ''message'', message)] @
     opt_prop ''rejectedUrl'' id rejectedUrl @ opt_prop ''artifact'' id artifact"

lemma get_failure [simp]:
  "get_prop (built_failure t m u a) (js ''status'') = JStr (js ''error'')"
  "get_prop (built_failure t m u a) (js ''type'') = t"
  "get_prop (built_failure t m u a) (js ''message'') = m"
  "get_prop (built_failure t m u a) (js ''rejectedUrl'') = (case u of None \<Rightarrow> JUndef | Some x \<Rightarrow> x)"
  "get_prop (built_failure t m u a) (js ''artifact'') = (case a of None \<Rightarrow> JUndef | Some x \<Rightarrow> x)"
  by (cases u; cases a; simp add: built_failure_def get_prop_def)+

lemma tool_failure_of:
  assumes "get_prop r (js ''status'') \<noteq> JStr (js ''success'')"
  shows "toolResultFromPayload url (JObj r) toolName =
    (if get_prop r (js ''status'') = JStr (js ''error'') \<and> isString (get_prop r (js ''type'')) \<noteq> None \<and>
        isString (get_prop r (js ''message'')) \<noteq> None
     then Some (built_failure (get_prop r (js ''type'')) (get_prop r (js ''message''))
       (if isHopRejection toolName (get_prop r (js ''type'')) \<and> isRejectedHopUrl url (get_prop r (js ''rejectedUrl''))
        then Some (get_prop r (js ''rejectedUrl'')) else None)
       (if isString (get_prop r (js ''artifact'')) \<noteq> None then Some (get_prop r (js ''artifact'')) else None))
     else None)"
  using assms by (simp add: toolResultFromPayload_def Let_def built_failure_def)

lemma tool_error_again:
  assumes "toolResultFromPayload url (JObj kvs) toolName = Some r" "get_prop kvs (js ''status'') \<noteq> JStr (js ''success'')"
  shows "toolResultFromPayload url (JObj r) toolName = Some r"
proof -
  have no: "\<not> isRejectedHopUrl url JUndef" by (simp add: isRejectedHopUrl_def)
  obtain t m u a where r: "r = built_failure t m u a" "isString t \<noteq> None" "isString m \<noteq> None"
      "case u of None \<Rightarrow> True | Some x \<Rightarrow> isHopRejection toolName t \<and> isRejectedHopUrl url x"
      "case a of None \<Rightarrow> True | Some x \<Rightarrow> isString x \<noteq> None"
    using assms(1) unfolding tool_failure_of [OF assms(2)]
    by (fastforce split: if_splits)
  have st: "get_prop r (js ''status'') \<noteq> JStr (js ''success'')" by (simp add: r(1))
  show ?thesis unfolding tool_failure_of [OF st] using r no by (cases u; cases a) simp_all
qed

lemma tool_result_again:
  assumes "toolResultFromPayload url v toolName = Some r"
  shows "toolResultFromPayload url (JObj r) toolName = Some r"
proof -
  obtain kvs where v: "v = JObj kvs" using assms by (cases v) (auto simp: toolResultFromPayload_def)
  show ?thesis
  proof (cases "get_prop kvs (js ''status'') = JStr (js ''success'')")
    case True
    then have r: "r = map_set kvs (js ''status'') (JStr (js ''success''))"
      using assms v by (simp add: toolResultFromPayload_def Let_def)
    have "map_set (map_set kvs k x) k x = map_set kvs k x" for k and x :: jsval
      by (induction kvs) auto
    then show ?thesis by (simp add: r toolResultFromPayload_def Let_def get_prop_def)
  next
    case False
    then show ?thesis using assms v by (simp add: tool_error_again)
  qed
qed

text \<open>Decisions kept of one kind group.\<close>

definition is_address :: "obj \<Rightarrow> bool" where
  "is_address d \<longleftrightarrow> get_prop d (js ''kind'') = JStr (js ''address'')"

definition decoded_decisions :: "jsval list \<Rightarrow> obj list" where
  "decoded_decisions es = List.map_filter derivedDecisionRecordFrom es"

lemma decoded_Cons:
  "decoded_decisions (e # es) = (case derivedDecisionRecordFrom e of None \<Rightarrow> [] | Some d \<Rightarrow> [d]) @ decoded_decisions es"
  by (simp add: decoded_decisions_def map_filter_simps split: option.splits)

lemma take_decisions_groups:
  "filter is_address (take_decisions es a b) = take (MAX_ADDRESS_DECISIONS - a) (filter is_address (decoded_decisions es))"
  "filter (\<lambda>d. \<not> is_address d) (take_decisions es a b) =
     take (MAX_DERIVED_DECISIONS - b) (filter (\<lambda>d. \<not> is_address d) (decoded_decisions es))"
proof (induction es a b rule: take_decisions.induct)
  case (1 a b)
  show "filter is_address (take_decisions [] a b) = take (MAX_ADDRESS_DECISIONS - a) (filter is_address (decoded_decisions []))"
    "filter (\<lambda>d. \<not> is_address d) (take_decisions [] a b) =
     take (MAX_DERIVED_DECISIONS - b) (filter (\<lambda>d. \<not> is_address d) (decoded_decisions []))"
    by (simp_all add: decoded_decisions_def map_filter_simps)
next
  case (2 e es a b)
  show "filter is_address (take_decisions (e # es) a b) =
      take (MAX_ADDRESS_DECISIONS - a) (filter is_address (decoded_decisions (e # es)))"
    using 2 by (cases "MAX_ADDRESS_DECISIONS - a")
      (auto simp: decoded_Cons is_address_def [symmetric] diff_Suc split: option.splits)
  show "filter (\<lambda>d. \<not> is_address d) (take_decisions (e # es) a b) =
      take (MAX_DERIVED_DECISIONS - b) (filter (\<lambda>d. \<not> is_address d) (decoded_decisions (e # es)))"
    using 2 by (cases "MAX_DERIVED_DECISIONS - b")
      (auto simp: decoded_Cons is_address_def [symmetric] diff_Suc split: option.splits)
qed

text \<open>Of the derived-locator decisions a completion recorded, those that can be read are kept, in stored order:
  the first 16 about addresses and the first 26 others, neither crowding out the other.\<close>

lemma derived_decisions_bounded:
  "derivedDecisionsFromPayload p = Some ds \<Longrightarrow>
   (\<exists>es. eventPayloadField p ''derivedDecisions'' = JArr es \<and>
      filter is_address ds = take 16 (filter is_address (decoded_decisions es)) \<and>
      filter (\<lambda>d. \<not> is_address d) ds = take 26 (filter (\<lambda>d. \<not> is_address d) (decoded_decisions es)))"
  using take_decisions_groups [of _ 0 0]
  by (auto simp: derivedDecisionsFromPayload_def MAX_ADDRESS_DECISIONS_def MAX_DERIVED_DECISIONS_def
      split: jsval.splits list.splits)

end
