(* ===== verification/Transcript.thy ===== *)
theory Transcript
  imports Run_Payload
begin

text \<open>
  The assistant transcript (\<^verbatim>\<open>apps/api/src/runs/assistant-transcript.ts\<close>, \<^verbatim>\<open>transcript-text-parts.ts\<close>): the
  collector that turns a run's stream of text, reasoning and tool events into the parts of the stored
  message, and the reconstructor that rebuilds them from the run's event log.

  A part is the object that is stored, a list of properties in order. \<^verbatim>\<open>parseRetainedMedia\<close> (a schema of
  the \<^verbatim>\<open>zod\<close> package) and \<^verbatim>\<open>new URL\<close> are fields of the record \<open>replay_env\<close>, and so is \<open>nearest\<close>, the rounding
  of a decimal to a double.
\<close>

section \<open>Parts\<close>

definition is_part :: "string \<Rightarrow> obj \<Rightarrow> bool" where
  "is_part t p \<longleftrightarrow> get_prop p (js ''type'') = JStr (js t) \<and> isString (get_prop p (js ''text'')) \<noteq> None"

definition text_of_part :: "obj \<Rightarrow> jstr" where
  "text_of_part p = (case get_prop p (js ''text'') of JStr s \<Rightarrow> s | _ \<Rightarrow> [])"

text \<open>\<^verbatim>\<open>last.step === step\<close>; \<^verbatim>\<open>NaN\<close> is not itself.\<close>

definition same_step :: "obj \<Rightarrow> jsnum option \<Rightarrow> bool" where
  "same_step p step \<longleftrightarrow>
     (case step of None \<Rightarrow> get_prop p (js ''step'') = JUndef
      | Some n \<Rightarrow> n \<noteq> NaN \<and> get_prop p (js ''step'') = JNum n)"

definition new_part :: "string \<Rightarrow> jstr \<Rightarrow> obj option \<Rightarrow> jsnum option \<Rightarrow> obj" where
  "new_part t text metadata step =
     [(js ''type'', JStr (js t)), (js ''text'', JStr text)] @
     opt_prop ''providerMetadata'' JObj metadata @ opt_prop ''step'' JNum step"

definition append_text :: "jstr \<Rightarrow> obj \<Rightarrow> obj" where
  "append_text t p = map_set p (js ''text'') (JStr (text_of_part p @ t))"

definition set_metadata :: "obj \<Rightarrow> obj \<Rightarrow> obj" where
  "set_metadata m p = map_set p (js ''providerMetadata'') (JObj m)"

text \<open>Index of the open part of a kind, when the last collected part is one.\<close>

definition open_part_index :: "string \<Rightarrow> obj list \<Rightarrow> nat option" where
  "open_part_index t ps = (if ps \<noteq> [] \<and> is_part t (last ps) then Some (length ps - 1) else None)"

text \<open>A new part starts on two defined ids that differ.\<close>

definition differing_ids :: "jstr option \<Rightarrow> jstr option \<Rightarrow> bool" where
  "differing_ids partId openId \<longleftrightarrow> partId \<noteq> None \<and> openId \<noteq> None \<and> partId \<noteq> openId"

definition or_else :: "'a option \<Rightarrow> 'a option \<Rightarrow> 'a option" where
  "or_else a b = (case a of None \<Rightarrow> b | Some x \<Rightarrow> Some x)"

section \<open>Text parts\<close>

record text_track =
  openPartId :: "jstr option"
  partIndexes :: "(jstr \<times> nat) list"
  pendingMetadata :: "(jstr \<times> obj) list"

definition new_track :: text_track where
  "new_track = \<lparr>openPartId = None, partIndexes = [], pendingMetadata = []\<rparr>"

definition bind_text :: "obj list \<Rightarrow> text_track \<Rightarrow> jstr option \<Rightarrow> obj option \<Rightarrow> nat \<Rightarrow> obj list \<times> text_track \<times> obj option" where
  "bind_text collected tr partId providerMetadata index =
     (let pending = Option.bind partId (map_of (pendingMetadata tr));
          metadata = or_else providerMetadata pending;
          tr' = (case partId of
                   None \<Rightarrow> tr
                 | Some p \<Rightarrow> tr\<lparr>partIndexes := map_set (partIndexes tr) p index,
                     pendingMetadata := (if pending \<noteq> None then map_delete (pendingMetadata tr) p else pendingMetadata tr)\<rparr>)
      in case metadata of
           None \<Rightarrow> (collected, tr', None)
         | Some m \<Rightarrow>
             if index < length collected \<and> is_part ''text'' (collected ! index)
             then (collected[index := set_metadata m (collected ! index)], tr', Some m)
             else (collected, tr', None))"

definition recordText :: "obj list \<Rightarrow> text_track \<Rightarrow> jstr \<Rightarrow> jstr option \<Rightarrow> obj option \<Rightarrow> jsnum option \<Rightarrow>
    obj list \<times> text_track \<times> obj option" where
  "recordText collected tr text partId providerMetadata step =
     (let extends = (open_part_index ''text'' collected \<noteq> None \<and> \<not> differing_ids partId (openPartId tr) \<and>
            same_step (last collected) step);
          collected' = (if extends then butlast collected @ [append_text text (last collected)]
            else collected @ [new_part ''text'' text None step]);
          tr' = tr\<lparr>openPartId := (if extends then or_else partId (openPartId tr) else partId)\<rparr>
      in bind_text collected' tr' partId providerMetadata (length collected' - 1))"

definition record_delivery :: "obj list \<Rightarrow> text_track \<Rightarrow> jstr \<Rightarrow> jstr option \<Rightarrow> obj option \<Rightarrow> jsnum option \<Rightarrow>
    obj list \<times> text_track \<times> obj option" where
  "record_delivery collected tr text partId providerMetadata step =
     (if text \<noteq> [] then recordText collected tr text partId providerMetadata step
      else
        (let index = (case partId of None \<Rightarrow> open_part_index ''text'' collected | Some p \<Rightarrow> map_of (partIndexes tr) p) in
         case index of
           Some i \<Rightarrow> bind_text collected tr partId providerMetadata i
         | None \<Rightarrow>
             (collected,
              (case (partId, providerMetadata) of
                 (Some p, Some m) \<Rightarrow> tr\<lparr>pendingMetadata := map_set (pendingMetadata tr) p m\<rparr>
               | _ \<Rightarrow> tr),
              None)))"

section \<open>The collector\<close>

record part_collector =
  collected :: "obj list"
  pendingToolIndexes :: "(jstr \<times> nat) list"
  settledToolCallIds :: "jstr list"
  openReasoningPartId :: "jstr option"
  reasoningPartIndexes :: "(jstr \<times> nat) list"
  textParts :: text_track

definition createAssistantPartCollector :: part_collector where
  "createAssistantPartCollector =
     \<lparr>collected = [], pendingToolIndexes = [], settledToolCallIds = [], openReasoningPartId = None,
      reasoningPartIndexes = [], textParts = new_track\<rparr>"

definition seed :: "jsval list \<Rightarrow> part_collector \<Rightarrow> part_collector" where
  "seed parts c = fold (\<lambda>part c.
     (case isRecord part of
        None \<Rightarrow> c
      | Some p \<Rightarrow>
          c\<lparr>collected := collected c @ [p],
            settledToolCallIds := (case isString (get_prop p (js ''toolCallId'')) of None \<Rightarrow> settledToolCallIds c
              | Some i \<Rightarrow> List.insert i (settledToolCallIds c))\<rparr>)) parts c"

definition collector_text :: "jstr \<Rightarrow> jstr option \<Rightarrow> obj option \<Rightarrow> jsnum option \<Rightarrow> part_collector \<Rightarrow> part_collector \<times> obj option" where
  "collector_text text partId providerMetadata step c =
     (case record_delivery (collected c) (textParts c) text partId providerMetadata step of
        (ps, tr, bound) \<Rightarrow> (c\<lparr>collected := ps, textParts := tr\<rparr>, bound))"

definition appendReasoning :: "jstr \<Rightarrow> jstr option \<Rightarrow> jsnum option \<Rightarrow> part_collector \<Rightarrow> part_collector" where
  "appendReasoning text partId step c =
     (let extends = (open_part_index ''reasoning'' (collected c) \<noteq> None \<and>
            \<not> differing_ids partId (openReasoningPartId c) \<and> same_step (last (collected c)) step);
          c' = (if extends
            then c\<lparr>collected := butlast (collected c) @ [append_text text (last (collected c))],
                   openReasoningPartId := or_else partId (openReasoningPartId c)\<rparr>
            else c\<lparr>openReasoningPartId := partId, collected := collected c @ [new_part ''reasoning'' text None step]\<rparr>)
      in case partId of
           None \<Rightarrow> c'
         | Some p \<Rightarrow> c'\<lparr>reasoningPartIndexes := map_set (reasoningPartIndexes c') p (length (collected c') - 1)\<rparr>)"

definition startsReasoningPart :: "jstr option \<Rightarrow> obj option \<Rightarrow> part_collector \<Rightarrow> bool" where
  "startsReasoningPart partId providerMetadata c \<longleftrightarrow>
     providerMetadata \<noteq> None \<and> (case partId of None \<Rightarrow> False | Some p \<Rightarrow> map_of (reasoningPartIndexes c) p = None)"

definition bind_reasoning :: "jstr option \<Rightarrow> obj option \<Rightarrow> part_collector \<Rightarrow> part_collector" where
  "bind_reasoning partId providerMetadata c =
     (case providerMetadata of
        None \<Rightarrow> c
      | Some m \<Rightarrow>
          (case (case partId of None \<Rightarrow> open_part_index ''reasoning'' (collected c)
                  | Some p \<Rightarrow> map_of (reasoningPartIndexes c) p) of
             None \<Rightarrow> c
           | Some i \<Rightarrow>
               if i < length (collected c) \<and> is_part ''reasoning'' (collected c ! i)
               then c\<lparr>collected := (collected c)[i := set_metadata m (collected c ! i)]\<rparr> else c))"

definition reasoning :: "jstr \<Rightarrow> jstr option \<Rightarrow> obj option \<Rightarrow> jsnum option \<Rightarrow> part_collector \<Rightarrow> part_collector" where
  "reasoning text partId providerMetadata step c =
     (if text \<noteq> [] then bind_reasoning partId providerMetadata (appendReasoning text partId step c)
      else if startsReasoningPart partId providerMetadata c then
        c\<lparr>openReasoningPartId := partId,
          collected := collected c @ [new_part ''reasoning'' [] providerMetadata step],
          reasoningPartIndexes := map_set (reasoningPartIndexes c) (the partId) (length (collected c))\<rparr>
      else bind_reasoning partId providerMetadata c)"

definition pending_tool :: "jstr \<Rightarrow> obj" where
  "pending_tool toolCallId = [(js ''type'', JStr (js ''pending-tool'')), (js ''toolCallId'', JStr toolCallId)]"

definition toolRequested :: "jstr \<Rightarrow> part_collector \<Rightarrow> part_collector" where
  "toolRequested toolCallId c =
     c\<lparr>pendingToolIndexes := map_set (pendingToolIndexes c) toolCallId (length (collected c)),
       collected := collected c @ [pending_tool toolCallId]\<rparr>"

text \<open>\<^verbatim>\<open>part.toolCallId\<close>, a string by its type, is passed beside the part.\<close>

definition settle_tool :: "jstr \<Rightarrow> obj \<Rightarrow> part_collector \<Rightarrow> part_collector" where
  "settle_tool toolCallId part c =
     (if toolCallId \<in> set (settledToolCallIds c) then c
      else
        (let c' = c\<lparr>settledToolCallIds := List.insert toolCallId (settledToolCallIds c)\<rparr> in
         case map_of (pendingToolIndexes c) toolCallId of
           None \<Rightarrow> c'\<lparr>collected := collected c @ [part]\<rparr>
         | Some i \<Rightarrow> c'\<lparr>collected := (collected c)[i := part],
                        pendingToolIndexes := map_delete (pendingToolIndexes c) toolCallId\<rparr>))"

definition add_part :: "obj \<Rightarrow> part_collector \<Rightarrow> part_collector" where
  "add_part part c = c\<lparr>collected := collected c @ [part]\<rparr>"

definition cap_notice :: "jsnum \<Rightarrow> jsnum \<Rightarrow> obj" where
  "cap_notice stepsUsed maxSteps =
     [(js ''type'', JStr (js ''data-cap-notice'')),
      (js ''data'', JObj [(js ''stepsUsed'', JNum stepsUsed), (js ''maxSteps'', JNum maxSteps)])]"

definition collector_parts :: "part_collector \<Rightarrow> obj list" where
  "collector_parts c = filter (\<lambda>p. get_prop p (js ''type'') \<noteq> JStr (js ''pending-tool'')) (collected c)"

section \<open>Tool parts\<close>

text \<open>\<open>result\<close> is the call's \<^verbatim>\<open>ToolResult\<close>, a record whose status is \<^verbatim>\<open>success\<close> or \<^verbatim>\<open>error\<close>. A classification is
  \<open>JUndef\<close> when none was recorded and \<open>JNull\<close> when the call never started.\<close>

record tool_call =
  tc_toolCallId :: jstr
  tc_toolName :: jstr
  tc_input :: jsval
  tc_result :: obj
  tc_step :: "jsnum option"
  tc_sdkRefusal :: "obj option"
  tc_providerMetadata :: "obj option"
  tc_permission :: "obj option"
  tc_derivedDecisions :: "obj list option"
  tc_classification :: jsval
  tc_retainedMedia :: "jsval option"

definition toolPartBody :: "tool_call \<Rightarrow> obj" where
  "toolPartBody call =
     (let result = tc_result call;
          known = (if tc_classification call = JUndef then [] else [(js ''classification'', tc_classification call)]) in
      if get_prop result (js ''status'') = JStr (js ''success'')
      then [(js ''type'', JStr (js ''tool-'' @ tc_toolName call)), (js ''toolCallId'', JStr (tc_toolCallId call)),
            (js ''state'', JStr (js ''output-available'')), (js ''input'', tc_input call),
            (js ''output'', JObj result), (js ''outcome'', JStr (js ''success''))] @ known
      else [(js ''type'', JStr (js ''tool-'' @ tc_toolName call)), (js ''toolCallId'', JStr (tc_toolCallId call)),
            (js ''state'', JStr (js ''output-error'')), (js ''input'', tc_input call),
            (js ''errorText'', get_prop result (js ''message'')),
            (js ''outcome'', JStr (normalizeToolObservationOutcome (get_prop result (js ''type'')) (js ''error'')))] @ known @
           (if get_prop result (js ''type'') = JStr (js ''cancelled'')
            then [(js ''resultProviderMetadata'', JObj [(js ''llame'', JObj [(js ''cancelled'', JBool True)])])] else []))"

definition toolActivityPart :: "tool_call \<Rightarrow> obj" where
  "toolActivityPart call =
     (let result = tc_result call; artifact = get_prop result (js ''artifact'');
          refusedUrl = (if get_prop result (js ''status'') = JStr (js ''error'') \<and>
                isHopRejection (tc_toolName call) (get_prop result (js ''type''))
              then get_prop result (js ''rejectedUrl'') else JUndef) in
      toolPartBody call @
      opt_prop ''step'' JNum (tc_step call) @
      opt_prop ''sdkRefusal'' JObj (tc_sdkRefusal call) @
      opt_prop ''retainedMedia'' id (tc_retainedMedia call) @
      opt_prop ''providerMetadata'' JObj (tc_providerMetadata call) @
      opt_prop ''permission'' JObj (tc_permission call) @
      (case tc_derivedDecisions call of None \<Rightarrow> [] | Some [] \<Rightarrow> []
       | Some ds \<Rightarrow> [(js ''derivedDecisions'', JArr (map JObj ds))]) @
      (if refusedUrl \<noteq> JUndef then [(js ''errorRejectedUrl'', refusedUrl)] else []) @
      (if isArtifactLocator artifact then [(js ''artifact'', artifact)] else []))"

section \<open>Rebuilding the transcript from the event log\<close>

record replay_env =
  new_URL :: "jstr \<Rightarrow> js_url option"
  parseRetainedMedia :: "jsval \<Rightarrow> jsval option"
  nearest_num :: "jsnum \<Rightarrow> jsnum"

text \<open>\<^verbatim>\<open>a + b\<close> on numbers: the exact sum of two decimals, rounded.\<close>

fun js_add :: "(jsnum \<Rightarrow> jsnum) \<Rightarrow> jsnum \<Rightarrow> jsnum \<Rightarrow> jsnum" where
  "js_add nearest (Dec m e) (Dec n f) =
     (let g = min e f in nearest (norm_dec (m * 10 ^ nat (e - g) + n * 10 ^ nat (f - g)) g))"
| "js_add nearest (Dec m e) b = b"
| "js_add nearest a (Dec n f) = a"
| "js_add nearest PosInf PosInf = PosInf"
| "js_add nearest NegInf NegInf = NegInf"
| "js_add nearest _ _ = NaN"

record open_call =
  oc_toolName :: jstr
  oc_toolInput :: jsval
  oc_step :: "jsnum option"
  oc_permission :: "obj option"
  oc_providerMetadata :: "obj option"

record durable =
  d_collector :: part_collector
  openToolCalls :: "(jstr \<times> open_call) list"
  seenToolCallIds :: "jstr list"
  completedToolCallIds :: "jstr list"
  stepOffset :: jsnum
  startedToolCallIds :: "jstr list"
  startedClassifications :: "(jstr \<times> jsval) list"

definition new_durable :: "jsnum \<Rightarrow> durable" where
  "new_durable offset =
     \<lparr>d_collector = createAssistantPartCollector, openToolCalls = [], seenToolCallIds = [], completedToolCallIds = [],
      stepOffset = offset, startedToolCallIds = [], startedClassifications = []\<rparr>"

definition stepFrom :: "replay_env \<Rightarrow> durable \<Rightarrow> jsval \<Rightarrow> jsnum option" where
  "stepFrom env d p = map_option (js_add (nearest_num env) (stepOffset d)) (eventPayloadNumber p ''stepNumber'')"

definition or_empty :: "jstr option \<Rightarrow> jstr" where
  "or_empty s = (case s of None \<Rightarrow> [] | Some t \<Rightarrow> t)"

text \<open>\<^verbatim>\<open>!toolCallId\<close>: absent or empty.\<close>

definition applyStepCapReached :: "run_event \<Rightarrow> durable \<Rightarrow> durable" where
  "applyStepCapReached event d =
     (case (eventPayloadNumber (ev_payload event) ''stepsUsed'', eventPayloadNumber (ev_payload event) ''maxSteps'') of
        (Some stepsUsed, Some maxSteps) \<Rightarrow> d\<lparr>d_collector := add_part (cap_notice stepsUsed maxSteps) (d_collector d)\<rparr>
      | _ \<Rightarrow> d)"

definition applyToolRequested :: "replay_env \<Rightarrow> run_event \<Rightarrow> durable \<Rightarrow> durable" where
  "applyToolRequested env event d =
     (let p = ev_payload event; toolCallId = or_empty (eventPayloadString p ''toolCallId'');
          toolName = or_empty (eventPayloadString p ''toolName'') in
      if isSystemOriginPayload p then d
      else if toolCallId = [] \<or> toolName = [] \<or> toolCallId \<in> set (seenToolCallIds d) \<or> toolCallId \<in> set (completedToolCallIds d)
      then d
      else d\<lparr>seenToolCallIds := seenToolCallIds d @ [toolCallId],
             openToolCalls := map_set (openToolCalls d) toolCallId
               \<lparr>oc_toolName = toolName, oc_toolInput = eventPayloadField p ''input'', oc_step = stepFrom env d p,
                oc_permission = permissionFromPayload p, oc_providerMetadata = eventProviderMetadata p\<rparr>,
             d_collector := toolRequested toolCallId (d_collector d)\<rparr>)"

definition applyToolStarted :: "run_event \<Rightarrow> durable \<Rightarrow> durable" where
  "applyToolStarted event d =
     (let p = ev_payload event; toolCallId = or_empty (eventPayloadString p ''toolCallId'');
          classification = eventPayloadField p ''classification'' in
      if toolCallId = [] then d
      else d\<lparr>startedToolCallIds := List.insert toolCallId (startedToolCallIds d),
             startedClassifications := (if isToolClassification classification
               then map_set (startedClassifications d) toolCallId classification else startedClassifications d)\<rparr>)"

definition recordedClassification :: "jstr \<Rightarrow> durable \<Rightarrow> jsval" where
  "recordedClassification toolCallId d =
     (if toolCallId \<in> set (startedToolCallIds d)
      then (case map_of (startedClassifications d) toolCallId of None \<Rightarrow> JUndef | Some c \<Rightarrow> c) else JNull)"

definition applyToolCompleted :: "replay_env \<Rightarrow> run_event \<Rightarrow> durable \<Rightarrow> durable" where
  "applyToolCompleted env event d =
     (let p = ev_payload event; toolCallId = or_empty (eventPayloadString p ''toolCallId'') in
      if toolCallId = [] \<or> toolCallId \<in> set (completedToolCallIds d) then d
      else (case map_of (openToolCalls d) toolCallId of
        None \<Rightarrow> d
      | Some request \<Rightarrow>
          (case toolResultFromPayload (new_URL env) (eventPayloadField p ''output'') (oc_toolName request) of
             None \<Rightarrow> d
           | Some result \<Rightarrow>
               d\<lparr>completedToolCallIds := completedToolCallIds d @ [toolCallId],
                 openToolCalls := map_delete (openToolCalls d) toolCallId,
                 d_collector := settle_tool toolCallId
                   (toolActivityPart
                     \<lparr>tc_toolCallId = toolCallId, tc_toolName = oc_toolName request, tc_input = oc_toolInput request,
                      tc_result = result, tc_step = oc_step request, tc_sdkRefusal = sdkRefusalFromPayload p,
                      tc_providerMetadata = oc_providerMetadata request, tc_permission = oc_permission request,
                      tc_derivedDecisions = derivedDecisionsFromPayload p,
                      tc_classification = recordedClassification toolCallId d,
                      tc_retainedMedia = parseRetainedMedia env (eventPayloadField p ''retainedMedia'')\<rparr>)
                   (d_collector d)\<rparr>)))"

definition applyEvent :: "replay_env \<Rightarrow> run_event \<Rightarrow> durable \<Rightarrow> durable" where
  "applyEvent env event d =
     (let p = ev_payload event; t = ev_type event in
      if t = js ''model.delta'' then
        d\<lparr>d_collector := fst (collector_text (or_empty (eventPayloadString p ''text'')) (eventPayloadString p ''partId'')
           (eventProviderMetadata p) (stepFrom env d p) (d_collector d))\<rparr>
      else if t = js ''reasoning.delta'' then
        d\<lparr>d_collector := reasoning (or_empty (eventPayloadString p ''text'')) (eventPayloadString p ''partId'')
           (eventProviderMetadata p) (stepFrom env d p) (d_collector d)\<rparr>
      else if t = js ''run.step_cap_reached'' then applyStepCapReached event d
      else if t = js ''tool.requested'' then applyToolRequested env event d
      else if t = js ''tool.started'' then applyToolStarted event d
      else if t = js ''tool.completed'' then applyToolCompleted env event d
      else d)"

definition reconstructDurableAssistant :: "replay_env \<Rightarrow> run_event list \<Rightarrow> jsnum \<Rightarrow> durable" where
  "reconstructDurableAssistant env events offset = fold (applyEvent env) events (new_durable offset)"

section \<open>What the indexes point to\<close>

text \<open>A part that is replaced by one of its own kind, and never a reservation.\<close>

definition same_kind :: "obj \<Rightarrow> obj \<Rightarrow> bool" where
  "same_kind p q \<longleftrightarrow> q = p \<or> is_part ''text'' p \<and> is_part ''text'' q \<or> is_part ''reasoning'' p \<and> is_part ''reasoning'' q"

definition keeps :: "obj list \<Rightarrow> obj list \<Rightarrow> bool" where
  "keeps ps qs \<longleftrightarrow> length ps \<le> length qs \<and> (\<forall>i<length ps. same_kind (ps ! i) (qs ! i))"

definition indexes_ok :: "string \<Rightarrow> (jstr \<times> nat) list \<Rightarrow> obj list \<Rightarrow> bool" where
  "indexes_ok t ixs ps \<longleftrightarrow> (\<forall>p i. map_of ixs p = Some i \<longrightarrow> i < length ps \<and> is_part t (ps ! i))"

definition pending_ok :: "(jstr \<times> nat) list \<Rightarrow> obj list \<Rightarrow> bool" where
  "pending_ok ixs ps \<longleftrightarrow> (\<forall>c i. map_of ixs c = Some i \<longrightarrow> i < length ps \<and> ps ! i = pending_tool c)"

text \<open>The well-formedness of a collector: every adapter id names a part of its kind and every open call its reservation.\<close>

definition collector_ok :: "part_collector \<Rightarrow> bool" where
  "collector_ok c \<longleftrightarrow>
     indexes_ok ''text'' (partIndexes (textParts c)) (collected c) \<and>
     indexes_ok ''reasoning'' (reasoningPartIndexes c) (collected c) \<and>
     pending_ok (pendingToolIndexes c) (collected c)"

lemma is_part_simps [simp]:
  "is_part t (pending_tool c) = False" "is_part t (new_part t' x m s) = (t = t')"
  "is_part t (set_metadata md p) = is_part t p" "is_part t p \<Longrightarrow> is_part t (append_text x p)"
  by (auto simp: is_part_def pending_tool_def new_part_def append_text_def set_metadata_def get_prop_def)

lemma is_part_kind: "is_part t p \<Longrightarrow> is_part t' p = (t = t')"
  by (auto simp: is_part_def)

lemma same_kind_refl [simp]: "same_kind p p"
  by (simp add: same_kind_def)

lemma same_kind_part: "same_kind p q \<Longrightarrow> is_part t p \<Longrightarrow> is_part t q"
  by (auto simp: same_kind_def is_part_kind)

lemma same_kind_pending: "same_kind (pending_tool c) q \<Longrightarrow> q = pending_tool c"
  by (simp add: same_kind_def)

lemma same_kind_trans: "same_kind p q \<Longrightarrow> same_kind q r \<Longrightarrow> same_kind p r"
  by (auto simp: same_kind_def is_part_kind)

lemma pending_inject [simp]: "pending_tool c = pending_tool d \<longleftrightarrow> c = d"
  by (simp add: pending_tool_def)

lemma keeps_append [simp]: "keeps ps (ps @ qs)"
  by (simp add: keeps_def nth_append)

lemma keeps_refl [simp]: "keeps ps ps"
  by (simp add: keeps_def)

lemma keeps_trans: "keeps ps qs \<Longrightarrow> keeps qs rs \<Longrightarrow> keeps ps rs"
  by (auto simp: keeps_def intro: same_kind_trans)

lemma keeps_update: "i < length ps \<Longrightarrow> is_part t (ps ! i) \<Longrightarrow> is_part t q \<Longrightarrow> t \<in> {''text'', ''reasoning''} \<Longrightarrow> keeps ps (ps[i := q])"
  by (auto simp: keeps_def nth_list_update same_kind_def)

lemma butlast_update: "ps \<noteq> [] \<Longrightarrow> butlast ps @ [q] = ps[length ps - 1 := q]"
  by (cases ps rule: rev_cases) (auto simp: list_update_append)

lemma keeps_indexes: "keeps ps qs \<Longrightarrow> indexes_ok t ixs ps \<Longrightarrow> indexes_ok t ixs qs"
  unfolding keeps_def indexes_ok_def using same_kind_part order.strict_trans2 by blast

lemma keeps_pending: "keeps ps qs \<Longrightarrow> pending_ok ixs ps \<Longrightarrow> pending_ok ixs qs"
  unfolding keeps_def pending_ok_def using same_kind_pending order.strict_trans2 by metis

lemma indexes_set:
  "indexes_ok t ixs ps \<Longrightarrow> i < length ps \<Longrightarrow> is_part t (ps ! i) \<Longrightarrow> indexes_ok t (map_set ixs p i) ps"
  by (auto simp: indexes_ok_def)

lemma open_part_index_Some: "open_part_index t ps = Some i \<longleftrightarrow> ps \<noteq> [] \<and> i = length ps - 1 \<and> is_part t (ps ! i)"
  by (auto simp: open_part_index_def last_conv_nth)

text \<open>A bound part is one of its kind, and nothing else changes.\<close>

lemma bind_text_effect:
  assumes "i < length ps" "is_part ''text'' (ps ! i)" "bind_text ps tr pid md i = (qs, tr', b)"
    "indexes_ok ''text'' (partIndexes tr) ps"
  shows "qs = (case b of None \<Rightarrow> ps | Some m \<Rightarrow> ps[i := set_metadata m (ps ! i)])"
    "b = or_else md (Option.bind pid (map_of (pendingMetadata tr)))"
    "openPartId tr' = openPartId tr" "indexes_ok ''text'' (partIndexes tr') qs"
proof -
  have ix: "indexes_ok ''text'' (partIndexes tr') ps" and o: "openPartId tr' = openPartId tr"
    using assms by (auto simp: bind_text_def Let_def indexes_set split: option.splits if_splits)
  show q: "qs = (case b of None \<Rightarrow> ps | Some m \<Rightarrow> ps[i := set_metadata m (ps ! i)])"
    and "b = or_else md (Option.bind pid (map_of (pendingMetadata tr)))"
    using assms(1-3) by (auto simp: bind_text_def Let_def split: option.splits)
  have "keeps ps qs" unfolding q using assms(1,2)
    by (auto intro!: keeps_update [of _ _ "''text''"] split: option.splits)
  then show "indexes_ok ''text'' (partIndexes tr') qs" using ix keeps_indexes by blast
  show "openPartId tr' = openPartId tr" by (fact o)
qed

text \<open>The parts a delivery of text leaves before its metadata is bound.\<close>

definition extended_by :: "string \<Rightarrow> jstr \<Rightarrow> jsnum option \<Rightarrow> bool \<Rightarrow> obj list \<Rightarrow> obj list" where
  "extended_by t text step extends ps =
     (if extends then ps[length ps - 1 := append_text text (last ps)] else ps @ [new_part t text None step])"

lemma extended_by_keeps:
  assumes "extends \<Longrightarrow> open_part_index t ps \<noteq> None" "t \<in> {''text'', ''reasoning''}"
  shows "keeps ps (extended_by t text step extends ps)"
    "extended_by t text step extends ps \<noteq> []"
    "is_part t (last (extended_by t text step extends ps))"
    "is_part t (extended_by t text step extends ps ! (length (extended_by t text step extends ps) - 1))"
proof -
  let ?e = "extended_by t text step extends ps"
  have h: "ps \<noteq> [] \<and> is_part t (last ps)" if extends
    using assms(1) [OF that] by (simp add: open_part_index_def split: if_splits)
  show "keeps ps ?e"
    using h assms(2) by (auto simp: extended_by_def last_conv_nth intro!: keeps_update [of _ _ t])
  show ne: "?e \<noteq> []" using h by (auto simp: extended_by_def)
  show "is_part t (last ?e)"
    using h by (auto simp: extended_by_def last_list_update)
  then show "is_part t (?e ! (length ?e - 1))" using ne by (simp add: last_conv_nth)
qed

definition extends_text :: "obj list \<Rightarrow> text_track \<Rightarrow> jstr option \<Rightarrow> jsnum option \<Rightarrow> bool" where
  "extends_text ps tr partId step \<longleftrightarrow>
     open_part_index ''text'' ps \<noteq> None \<and> \<not> differing_ids partId (openPartId tr) \<and> same_step (last ps) step"

lemma recordText_eq:
  "recordText ps tr text pid md step =
     (let e = extends_text ps tr pid step; qs = extended_by ''text'' text step e ps in
      bind_text qs (tr\<lparr>openPartId := (if e then or_else pid (openPartId tr) else pid)\<rparr>) pid md (length qs - 1))"
  by (auto simp: recordText_def extends_text_def extended_by_def Let_def open_part_index_def butlast_update)

definition extends_reasoning :: "part_collector \<Rightarrow> jstr option \<Rightarrow> jsnum option \<Rightarrow> bool" where
  "extends_reasoning c partId step \<longleftrightarrow>
     open_part_index ''reasoning'' (collected c) \<noteq> None \<and> \<not> differing_ids partId (openReasoningPartId c) \<and>
     same_step (last (collected c)) step"

lemma appendReasoning_eq:
  "appendReasoning text pid step c =
     (let e = extends_reasoning c pid step; qs = extended_by ''reasoning'' text step e (collected c) in
      c\<lparr>collected := qs, openReasoningPartId := (if e then or_else pid (openReasoningPartId c) else pid),
        reasoningPartIndexes := (case pid of None \<Rightarrow> reasoningPartIndexes c
          | Some p \<Rightarrow> map_set (reasoningPartIndexes c) p (length qs - 1))\<rparr>)"
  by (cases pid)
    (auto simp: appendReasoning_def extends_reasoning_def extended_by_def Let_def open_part_index_def butlast_update)

section \<open>What a transcript says\<close>

text \<open>The characters, tool calls and notices of parts in order, whatever the parts they are cut into.\<close>

datatype item = Ch code_unit | Think code_unit | Call jstr | Notice jsval

definition part_items :: "obj \<Rightarrow> item list" where
  "part_items p =
     (if is_part ''text'' p then map Ch (text_of_part p)
      else if is_part ''reasoning'' p then map Think (text_of_part p)
      else (case isString (get_prop p (js ''toolCallId'')) of
              Some c \<Rightarrow> [Call c]
            | None \<Rightarrow> if get_prop p (js ''type'') = JStr (js ''data-cap-notice'') then [Notice (get_prop p (js ''data''))] else []))"

definition items :: "obj list \<Rightarrow> item list" where
  "items ps = concat (map part_items ps)"

lemma items_simps [simp]: "items [] = []" "items (ps @ qs) = items ps @ items qs" "items [p] = part_items p"
  by (simp_all add: items_def)

lemma items_update: "i < length ps \<Longrightarrow> part_items q = part_items (ps ! i) \<Longrightarrow> items (ps[i := q]) = items ps"
  by (simp add: items_def map_update) (metis list_update_id nth_map map_update)

lemma text_of_part_simps [simp]:
  "text_of_part (new_part t x m s) = x" "text_of_part (append_text x p) = text_of_part p @ x"
  "text_of_part (set_metadata md p) = text_of_part p"
  by (simp_all add: text_of_part_def new_part_def append_text_def set_metadata_def get_prop_def)

lemma part_items_simps [simp]:
  "part_items (new_part ''text'' x m s) = map Ch x" "part_items (new_part ''reasoning'' x m s) = map Think x"
  "part_items (pending_tool c) = [Call c]" "part_items (cap_notice a b) =
     [Notice (JObj [(js ''stepsUsed'', JNum a), (js ''maxSteps'', JNum b)])]"
  by (simp_all add: part_items_def) (simp_all add: pending_tool_def cap_notice_def get_prop_def is_part_def)

lemma part_items_metadata [simp]: "part_items (set_metadata m p) = part_items p"
proof -
  have "get_prop (set_metadata m p) (js k) = get_prop p (js k)" if "k \<noteq> ''providerMetadata''" for k
    using that by (simp add: set_metadata_def get_prop_def)
  then show ?thesis by (simp add: part_items_def split: option.splits)
qed

lemma part_items_append:
  "is_part ''text'' p \<Longrightarrow> part_items (append_text x p) = part_items p @ map Ch x"
  "is_part ''reasoning'' p \<Longrightarrow> part_items (append_text x p) = part_items p @ map Think x"
  using is_part_kind [OF is_part_simps(4), of "''reasoning''" p "''text''" x]
  by (simp_all add: part_items_def is_part_kind)

lemma items_extended:
  assumes "extends \<Longrightarrow> open_part_index t ps \<noteq> None"
  shows "t = ''text'' \<Longrightarrow> items (extended_by t text step extends ps) = items ps @ map Ch text"
    "t = ''reasoning'' \<Longrightarrow> items (extended_by t text step extends ps) = items ps @ map Think text"
proof -
  have h: "ps \<noteq> [] \<and> ps = butlast ps @ [last ps] \<and> is_part t (last ps)" if extends
    using assms [OF that] by (simp add: open_part_index_def split: if_splits)
  have e: "extended_by t text step extends ps =
      (if extends then butlast ps @ [append_text text (last ps)] else ps @ [new_part t text None step])"
    using h by (simp add: extended_by_def butlast_update)
  have i: "items ps = items (butlast ps) @ part_items (last ps)" if extends
    using h [OF that] by (metis items_simps(2,3))
  show "t = ''text'' \<Longrightarrow> items (extended_by t text step extends ps) = items ps @ map Ch text"
    unfolding e using h i by (auto simp: part_items_append)
  show "t = ''reasoning'' \<Longrightarrow> items (extended_by t text step extends ps) = items ps @ map Think text"
    unfolding e using h i by (auto simp: part_items_append)
qed

section \<open>Each delivery adds its own characters\<close>

lemma bind_text_keeps:
  assumes "i < length ps" "is_part ''text'' (ps ! i)" "bind_text ps tr pid md i = (qs, tr', b)"
    "indexes_ok ''text'' (partIndexes tr) ps"
  shows "keeps ps qs \<and> items qs = items ps \<and> indexes_ok ''text'' (partIndexes tr') qs \<and> length qs = length ps"
  using bind_text_effect [OF assms] assms(1,2)
  by (auto intro!: keeps_update [of _ _ "''text''"] items_update split: option.splits)

lemma record_delivery_keeps:
  assumes "record_delivery ps tr text pid md step = (qs, tr', b)" "indexes_ok ''text'' (partIndexes tr) ps"
  shows "keeps ps qs \<and> items qs = items ps @ map Ch text \<and> indexes_ok ''text'' (partIndexes tr') qs"
proof (cases "text = []")
  case False
  let ?e = "extends_text ps tr pid step"
  let ?qs = "extended_by ''text'' text step ?e ps"
  let ?tr = "tr\<lparr>openPartId := (if ?e then or_else pid (openPartId tr) else pid)\<rparr>"
  have opn: "?e \<Longrightarrow> open_part_index ''text'' ps \<noteq> None" by (simp add: extends_text_def)
  note ext = extended_by_keeps [of ?e "''text''" ps "text" step, OF opn, simplified]
  have b: "bind_text ?qs ?tr pid md (length ?qs - 1) = (qs, tr', b)"
    using assms(1) False by (simp add: record_delivery_def recordText_eq Let_def)
  have "indexes_ok ''text'' (partIndexes ?tr) ?qs"
    using assms(2) ext(1) keeps_indexes by simp
  moreover have "length ?qs - 1 < length ?qs" using ext(2) by simp
  ultimately have k: "keeps ?qs qs \<and> items qs = items ?qs \<and> indexes_ok ''text'' (partIndexes tr') qs"
    using bind_text_keeps [OF _ _ b] ext(4) by simp
  moreover have "items ?qs = items ps @ map Ch text" using items_extended(1) [OF opn] by simp
  ultimately show ?thesis using keeps_trans [OF ext(1)] by simp
next
  case True
  show ?thesis
  proof (cases "case pid of None \<Rightarrow> open_part_index ''text'' ps | Some p \<Rightarrow> map_of (partIndexes tr) p")
    case None
    then show ?thesis using assms True by (auto simp: record_delivery_def split: option.splits)
  next
    case (Some i)
    then have i: "i < length ps" "is_part ''text'' (ps ! i)"
      using assms(2) by (auto simp: open_part_index_Some indexes_ok_def split: option.splits)
    have "bind_text ps tr pid md i = (qs, tr', b)"
      using assms(1) True Some by (simp add: record_delivery_def)
    from bind_text_keeps [OF i this assms(2)] show ?thesis by (simp add: True)
  qed
qed

lemma collector_text_ok:
  assumes "collector_ok c"
  shows "collector_ok (fst (collector_text text pid md step c))"
    "items (collected (fst (collector_text text pid md step c))) = items (collected c) @ map Ch text"
    "keeps (collected c) (collected (fst (collector_text text pid md step c)))"
proof -
  obtain qs tr' b where r: "record_delivery (collected c) (textParts c) text pid md step = (qs, tr', b)"
    by (metis prod_cases3)
  have h: "keeps (collected c) qs \<and> items qs = items (collected c) @ map Ch text \<and> indexes_ok ''text'' (partIndexes tr') qs"
    using record_delivery_keeps [OF r] assms by (simp add: collector_ok_def)
  then show "items (collected (fst (collector_text text pid md step c))) = items (collected c) @ map Ch text"
    "keeps (collected c) (collected (fst (collector_text text pid md step c)))"
    by (simp_all add: collector_text_def r)
  show "collector_ok (fst (collector_text text pid md step c))"
    using h assms keeps_indexes keeps_pending by (simp add: collector_text_def r collector_ok_def) blast
qed

lemma bind_reasoning_ok:
  assumes "collector_ok c"
  shows "collector_ok (bind_reasoning pid md c) \<and> items (collected (bind_reasoning pid md c)) = items (collected c) \<and>
    keeps (collected c) (collected (bind_reasoning pid md c))"
proof (cases "md = None \<or> (case pid of None \<Rightarrow> open_part_index ''reasoning'' (collected c) | Some p \<Rightarrow> map_of (reasoningPartIndexes c) p) = None")
  case True
  then show ?thesis using assms by (auto simp: bind_reasoning_def split: option.splits)
next
  case False
  then obtain m i where m: "md = Some m"
    "(case pid of None \<Rightarrow> open_part_index ''reasoning'' (collected c) | Some p \<Rightarrow> map_of (reasoningPartIndexes c) p) = Some i"
    by auto
  then have i: "i < length (collected c)" "is_part ''reasoning'' (collected c ! i)"
    using assms by (auto simp: open_part_index_Some indexes_ok_def collector_ok_def split: option.splits)
  let ?qs = "(collected c)[i := set_metadata m (collected c ! i)]"
  have e: "bind_reasoning pid md c = c\<lparr>collected := ?qs\<rparr>" using m i by (simp add: bind_reasoning_def)
  have k: "keeps (collected c) ?qs" using i by (intro keeps_update [of _ _ "''reasoning''"]) simp_all
  show ?thesis unfolding e using assms k keeps_indexes [OF k] keeps_pending [OF k] items_update i
    by (simp add: collector_ok_def)
qed

lemma appendReasoning_ok:
  assumes "collector_ok c"
  shows "collector_ok (appendReasoning text pid step c) \<and>
    items (collected (appendReasoning text pid step c)) = items (collected c) @ map Think text \<and>
    keeps (collected c) (collected (appendReasoning text pid step c))"
proof -
  let ?e = "extends_reasoning c pid step"
  let ?qs = "extended_by ''reasoning'' text step ?e (collected c)"
  have opn: "?e \<Longrightarrow> open_part_index ''reasoning'' (collected c) \<noteq> None" by (simp add: extends_reasoning_def)
  note ext = extended_by_keeps [of ?e "''reasoning''" "collected c" "text" step, OF opn, simplified]
  note k = keeps_indexes [OF ext(1)] keeps_pending [OF ext(1)]
  have "indexes_ok ''reasoning'' (map_set (reasoningPartIndexes c) p (length ?qs - 1)) ?qs" for p
    using assms ext(2-4) k by (intro indexes_set) (auto simp: collector_ok_def)
  then show ?thesis
    using assms ext(1) k items_extended(2) [of ?e "''reasoning''" "collected c" "text" step, OF opn]
    by (cases pid) (simp_all add: appendReasoning_eq Let_def collector_ok_def)
qed

lemma reasoning_ok:
  assumes "collector_ok c"
  shows "collector_ok (reasoning text pid md step c) \<and>
    items (collected (reasoning text pid md step c)) = items (collected c) @ map Think text \<and>
    keeps (collected c) (collected (reasoning text pid md step c))"
proof (cases "text = []")
  case False
  then show ?thesis using appendReasoning_ok [OF assms, of "text" pid step]
      bind_reasoning_ok [of "appendReasoning text pid step c" pid md] keeps_trans
    by (simp add: reasoning_def) blast
next
  case True
  show ?thesis
  proof (cases "startsReasoningPart pid md c")
    case True
    then obtain p where p: "pid = Some p" by (auto simp: startsReasoningPart_def split: option.splits)
    let ?qs = "collected c @ [new_part ''reasoning'' [] md step]"
    have "keeps (collected c) ?qs" by simp
    note k = keeps_indexes [OF this] keeps_pending [OF this]
    have "indexes_ok ''reasoning'' (map_set (reasoningPartIndexes c) p (length (collected c))) ?qs"
      using assms k by (intro indexes_set) (auto simp: collector_ok_def)
    then show ?thesis using \<open>text = []\<close> True assms k
      by (simp add: reasoning_def p collector_ok_def)
  next
    case False
    then show ?thesis using True bind_reasoning_ok [OF assms] by (simp add: reasoning_def)
  qed
qed

lemma add_part_ok:
  assumes "collector_ok c"
  shows "collector_ok (add_part p c) \<and> items (collected (add_part p c)) = items (collected c) @ part_items p \<and>
    keeps (collected c) (collected (add_part p c))"
  using assms keeps_indexes [OF keeps_append] keeps_pending [OF keeps_append]
  by (simp add: add_part_def collector_ok_def)

lemma toolRequested_ok:
  assumes "collector_ok c"
  shows "collector_ok (toolRequested i c) \<and> items (collected (toolRequested i c)) = items (collected c) @ [Call i] \<and>
    keeps (collected c) (collected (toolRequested i c))"
proof -
  have "pending_ok (map_set (pendingToolIndexes c) i (length (collected c))) (collected c @ [pending_tool i])"
    using assms by (auto simp: collector_ok_def pending_ok_def nth_append less_SucI)
  then show ?thesis using assms keeps_indexes [OF keeps_append]
    by (simp add: toolRequested_def collector_ok_def)
qed

lemma tool_part_head:
  "\<exists>rest. toolActivityPart call =
     (js ''type'', JStr (js ''tool-'' @ tc_toolName call)) # (js ''toolCallId'', JStr (tc_toolCallId call)) # rest"
  by (simp add: toolActivityPart_def toolPartBody_def Let_def)

lemma get_tool_part [simp]:
  "get_prop (toolActivityPart call) (js ''type'') = JStr (js ''tool-'' @ tc_toolName call)"
  "get_prop (toolActivityPart call) (js ''toolCallId'') = JStr (tc_toolCallId call)"
  using tool_part_head [of call] by (auto simp: get_prop_def)

lemma tool_prefix: "js ''tool-'' @ s \<noteq> js ''text''" "js ''tool-'' @ s \<noteq> js ''reasoning''" "js ''tool-'' @ s \<noteq> js ''pending-tool''"
  by (simp_all add: js.simps)

lemma tool_part_items [simp]: "part_items (toolActivityPart call) = [Call (tc_toolCallId call)]"
  by (simp add: part_items_def is_part_def tool_prefix)

section \<open>Settlement\<close>

lemma settle_tool_ok:
  assumes "collector_ok c" "i \<notin> set (settledToolCallIds c)" "map_of (pendingToolIndexes c) i = Some n"
    "part_items p = [Call i]"
  shows "collector_ok (settle_tool i p c)" "items (collected (settle_tool i p c)) = items (collected c)"
    "collected (settle_tool i p c) = (collected c)[n := p]"
proof -
  have n: "n < length (collected c)" "collected c ! n = pending_tool i"
    using assms(1,3) by (auto simp: collector_ok_def pending_ok_def)
  show e: "collected (settle_tool i p c) = (collected c)[n := p]"
    using assms(2,3) by (simp add: settle_tool_def)
  show "items (collected (settle_tool i p c)) = items (collected c)"
    unfolding e using n assms(4) by (simp add: items_update)
  have "indexes_ok t ixs (collected c) \<Longrightarrow> indexes_ok t ixs ((collected c)[n := p])" for t ixs
    using n by (auto simp: indexes_ok_def nth_list_update) (metis is_part_simps(1))
  moreover have "pending_ok (map_delete (pendingToolIndexes c) i) ((collected c)[n := p])"
    using n assms(1) by (auto simp: pending_ok_def collector_ok_def nth_list_update)
  ultimately show "collector_ok (settle_tool i p c)"
    using assms(1-3) by (simp add: settle_tool_def collector_ok_def)
qed

text \<open>The first outcome of a call stays: a later one changes nothing.\<close>

lemma settled_once: "settle_tool i q (settle_tool i p c) = settle_tool i p c"
  by (auto simp: settle_tool_def Let_def split: option.splits)

section \<open>What a log says\<close>

text \<open>The calls a log requests, with their tools: those of the model, with an id and a name.\<close>

definition request_of :: "run_event \<Rightarrow> (jstr \<times> jstr) list" where
  "request_of e =
     (let i = or_empty (eventPayloadString (ev_payload e) ''toolCallId'');
          name = or_empty (eventPayloadString (ev_payload e) ''toolName'') in
      if ev_type e = js ''tool.requested'' \<and> \<not> isSystemOriginPayload (ev_payload e) \<and> i \<noteq> [] \<and> name \<noteq> [] then [(i, name)] else [])"

definition requests :: "run_event list \<Rightarrow> (jstr \<times> jstr) list" where
  "requests evs = concat (map request_of evs)"

definition log_event_items :: "jstr list \<Rightarrow> run_event \<Rightarrow> item list" where
  "log_event_items before e =
     (let p = ev_payload e; t = ev_type e in
      if t = js ''model.delta'' then map Ch (or_empty (eventPayloadString p ''text''))
      else if t = js ''reasoning.delta'' then map Think (or_empty (eventPayloadString p ''text''))
      else if t = js ''run.step_cap_reached'' then
        (case (eventPayloadNumber p ''stepsUsed'', eventPayloadNumber p ''maxSteps'') of
           (Some a, Some b) \<Rightarrow> [Notice (JObj [(js ''stepsUsed'', JNum a), (js ''maxSteps'', JNum b)])] | _ \<Rightarrow> [])
      else map (\<lambda>(i, name). Call i) (filter (\<lambda>(i, name). i \<notin> set before) (request_of e)))"

fun log_items :: "jstr list \<Rightarrow> run_event list \<Rightarrow> item list" where
  "log_items before [] = []"
| "log_items before (e # es) = log_event_items before e @ log_items (before @ map fst (request_of e)) es"

lemma log_items_append: "log_items before (es @ fs) = log_items before es @ log_items (before @ map fst (requests es)) fs"
  by (induction es arbitrary: before) (simp_all add: requests_def)

text \<open>An event that settles a call of a log: it carries a result that can be read for the tool first requested under its id.\<close>

definition settles :: "replay_env \<Rightarrow> run_event list \<Rightarrow> jstr \<Rightarrow> run_event \<Rightarrow> bool" where
  "settles env before i e \<longleftrightarrow>
     ev_type e = js ''tool.completed'' \<and> or_empty (eventPayloadString (ev_payload e) ''toolCallId'') = i \<and>
     (case map_of (requests before) i of None \<Rightarrow> False
      | Some name \<Rightarrow> toolResultFromPayload (new_URL env) (eventPayloadField (ev_payload e) ''output'') name \<noteq> None)"

definition is_settled :: "replay_env \<Rightarrow> run_event list \<Rightarrow> jstr \<Rightarrow> bool" where
  "is_settled env evs i \<longleftrightarrow> (\<exists>n\<in>set [0..<length evs]. settles env (take n evs) i (evs ! n))"

lemma is_settled_snoc: "is_settled env (evs @ [e]) i \<longleftrightarrow> is_settled env evs i \<or> settles env evs i e"
  by (auto simp: is_settled_def nth_append less_Suc_eq)

lemma is_settled_Nil [simp]: "\<not> is_settled env [] i"
  by (simp add: is_settled_def)

lemma requests_snoc [simp]: "requests (evs @ [e]) = requests evs @ request_of e" "requests [] = []"
  by (simp_all add: requests_def)

lemma reconstruct_snoc [simp]:
  "reconstructDurableAssistant env (evs @ [e]) off = applyEvent env e (reconstructDurableAssistant env evs off)"
  "reconstructDurableAssistant env [] off = new_durable off"
  by (simp_all add: reconstructDurableAssistant_def)

section \<open>The replay follows the log\<close>

definition durable_ok :: "replay_env \<Rightarrow> run_event list \<Rightarrow> durable \<Rightarrow> bool" where
  "durable_ok env evs d \<longleftrightarrow>
     collector_ok (d_collector d) \<and>
     set (seenToolCallIds d) = fst ` set (requests evs) \<and>
     (\<forall>i. i \<in> set (completedToolCallIds d) \<longleftrightarrow> is_settled env evs i) \<and> (\<forall>i. is_settled env evs i \<longrightarrow> i \<in> fst ` set (requests evs)) \<and>
     (\<forall>i. i \<in> set (settledToolCallIds (d_collector d)) \<longleftrightarrow> is_settled env evs i) \<and>
     (\<forall>i. map_option oc_toolName (map_of (openToolCalls d) i) =
        (if is_settled env evs i then None else map_of (requests evs) i)) \<and>
     (\<forall>i. map_of (pendingToolIndexes (d_collector d)) i = None \<longleftrightarrow> map_of (openToolCalls d) i = None) \<and>
     items (collected (d_collector d)) = log_items [] evs"

definition other_events :: "jstr \<Rightarrow> bool" where
  "other_events t \<longleftrightarrow> t \<noteq> js ''tool.requested'' \<and> t \<noteq> js ''tool.completed''"

lemma other_event_says:
  "other_events (ev_type e) \<Longrightarrow> request_of e = []" "other_events (ev_type e) \<Longrightarrow> \<not> settles env evs i e"
  by (auto simp: other_events_def request_of_def settles_def)

lemma unchanged_settlement [simp]:
  "settledToolCallIds (fst (collector_text x pid md s c)) = settledToolCallIds c"
  "pendingToolIndexes (fst (collector_text x pid md s c)) = pendingToolIndexes c"
  "settledToolCallIds (reasoning x pid md s c) = settledToolCallIds c"
  "pendingToolIndexes (reasoning x pid md s c) = pendingToolIndexes c"
  "settledToolCallIds (add_part p c) = settledToolCallIds c" "pendingToolIndexes (add_part p c) = pendingToolIndexes c"
  by (simp_all add: collector_text_def reasoning_def bind_reasoning_def appendReasoning_def add_part_def Let_def
      split: prod.splits option.splits)

lemma durable_ok_other:
  assumes "durable_ok env evs d" "other_events (ev_type e)"
    "seenToolCallIds d' = seenToolCallIds d" "completedToolCallIds d' = completedToolCallIds d"
    "openToolCalls d' = openToolCalls d"
    "collector_ok (d_collector d')" "settledToolCallIds (d_collector d') = settledToolCallIds (d_collector d)"
    "pendingToolIndexes (d_collector d') = pendingToolIndexes (d_collector d)"
    "items (collected (d_collector d')) = items (collected (d_collector d)) @ log_event_items (map fst (requests evs)) e"
  shows "durable_ok env (evs @ [e]) d'"
proof -
  have "is_settled env (evs @ [e]) = is_settled env evs"
    using other_event_says(2) [OF assms(2)] by (simp add: is_settled_snoc fun_eq_iff)
  then show ?thesis
    using assms(1,3-9) other_event_says(1) [OF assms(2)]
    by (simp add: durable_ok_def log_items_append)
qed

lemma durable_ok_requested:
  assumes "durable_ok env evs d" "ev_type e = js ''tool.requested''"
  shows "durable_ok env (evs @ [e]) (applyToolRequested env e d)"
proof -
  let ?p = "ev_payload e" and ?i = "or_empty (eventPayloadString (ev_payload e) ''toolCallId'')"
    and ?name = "or_empty (eventPayloadString (ev_payload e) ''toolName'')"
  have s: "is_settled env (evs @ [e]) = is_settled env evs"
    using assms(2) by (simp add: is_settled_snoc settles_def fun_eq_iff)
  have h: "collector_ok (d_collector d)" "set (seenToolCallIds d) = fst ` set (requests evs)"
    "\<And>i. i \<in> set (completedToolCallIds d) \<longleftrightarrow> is_settled env evs i"
    "\<And>i. is_settled env evs i \<Longrightarrow> i \<in> fst ` set (requests evs)"
    "\<And>i. i \<in> set (settledToolCallIds (d_collector d)) \<longleftrightarrow> is_settled env evs i"
    "\<And>i. map_option oc_toolName (map_of (openToolCalls d) i) = (if is_settled env evs i then None else map_of (requests evs) i)"
    "\<And>i. map_of (pendingToolIndexes (d_collector d)) i = None \<longleftrightarrow> map_of (openToolCalls d) i = None"
    "items (collected (d_collector d)) = log_items [] evs"
    using assms(1) by (simp_all add: durable_ok_def)
  have li: "log_event_items b e = map (\<lambda>(i, name). Call i) (filter (\<lambda>(i, name). i \<notin> set b) (request_of e))" for b
    using assms(2) by (simp add: log_event_items_def Let_def)
  show ?thesis
  proof (cases "isSystemOriginPayload ?p \<or> ?i = [] \<or> ?name = []")
    case True
    then have "request_of e = []" "applyToolRequested env e d = d"
      by (auto simp: request_of_def applyToolRequested_def Let_def)
    then show ?thesis using assms(1) s by (simp add: durable_ok_def log_items_append li)
  next
    case False
    then have r: "request_of e = [(?i, ?name)]" using assms(2) by (simp add: request_of_def)
    show ?thesis
    proof (cases "?i \<in> set (seenToolCallIds d)")
      case True
      then have "applyToolRequested env e d = d" by (simp add: applyToolRequested_def Let_def)
      moreover obtain n where "map_of (requests evs) ?i = Some n"
        using True h(2) by (metis map_of_eq_None_iff not_Some_eq)
      ultimately show ?thesis using assms(1) s True h(2)
        by (auto simp: durable_ok_def log_items_append li r map_add_def split: option.splits)
    next
      case fresh: False
      then have new: "?i \<notin> fst ` set (requests evs)" "\<not> is_settled env evs ?i" "map_of (requests evs) ?i = None"
        using h(2,4) by (auto simp: map_of_eq_None_iff)
      let ?o = "\<lparr>oc_toolName = ?name, oc_toolInput = eventPayloadField ?p ''input'', oc_step = stepFrom env d ?p,
        oc_permission = permissionFromPayload ?p, oc_providerMetadata = eventProviderMetadata ?p\<rparr>"
      have d': "applyToolRequested env e d = d\<lparr>seenToolCallIds := seenToolCallIds d @ [?i],
          openToolCalls := map_set (openToolCalls d) ?i ?o, d_collector := toolRequested ?i (d_collector d)\<rparr>"
        using False fresh h(3) new(2) by (simp add: applyToolRequested_def Let_def)
      have q: "map_of (requests evs @ [(?i, ?name)]) i = (if i = ?i then Some ?name else map_of (requests evs) i)" for i
        using new(3) by (auto simp: map_add_def split: option.splits)
      note t = toolRequested_ok [OF h(1), of ?i]
      show ?thesis unfolding d' durable_ok_def
      proof (intro conjI)
        show "\<forall>i. map_option oc_toolName (map_of (openToolCalls (d\<lparr>seenToolCallIds := seenToolCallIds d @ [?i],
          openToolCalls := map_set (openToolCalls d) ?i ?o, d_collector := toolRequested ?i (d_collector d)\<rparr>)) i) =
          (if is_settled env (evs @ [e]) i then None else map_of (requests (evs @ [e])) i)"
          by (rule allI, subst s, cut_tac i = i in h(6)) (use new(2,3) in \<open>auto simp: r map_add_def split: option.splits if_splits\<close>)
      qed (use t h s r new li in \<open>auto simp: log_items_append toolRequested_def\<close>)
    qed
  qed
qed

text \<open>A completion changes nothing, or settles a call that is open.\<close>

lemma tool_completed_cases:
  assumes ok: "durable_ok env evs d" and ty: "ev_type e = js ''tool.completed''"
  obtains (Same) "applyToolCompleted env e d = d" "is_settled env (evs @ [e]) = is_settled env evs"
  | (Settles) i q n where
      "applyToolCompleted env e d = d\<lparr>completedToolCallIds := completedToolCallIds d @ [i],
        openToolCalls := map_delete (openToolCalls d) i, d_collector := settle_tool i (toolActivityPart q) (d_collector d)\<rparr>"
      "tc_toolCallId q = i" "\<not> is_settled env evs i" "i \<in> fst ` set (requests evs)"
      "map_of (pendingToolIndexes (d_collector d)) i = Some n" "i \<notin> set (settledToolCallIds (d_collector d))"
      "\<And>j. is_settled env (evs @ [e]) j \<longleftrightarrow> is_settled env evs j \<or> j = i"
proof -
  let ?p = "ev_payload e" and ?i = "or_empty (eventPayloadString (ev_payload e) ''toolCallId'')"
  have h: "\<And>i. i \<in> set (completedToolCallIds d) \<longleftrightarrow> is_settled env evs i"
    "\<And>i. i \<in> set (settledToolCallIds (d_collector d)) \<longleftrightarrow> is_settled env evs i"
    "\<And>i. map_option oc_toolName (map_of (openToolCalls d) i) = (if is_settled env evs i then None else map_of (requests evs) i)"
    "\<And>i. map_of (pendingToolIndexes (d_collector d)) i = None \<longleftrightarrow> map_of (openToolCalls d) i = None"
    using ok by (simp_all add: durable_ok_def)
  have named: "fst x \<noteq> []" if "x \<in> set (requests evs)" for x
    using that by (auto simp: requests_def request_of_def Let_def split: if_splits)
  have st: "settles env evs i e \<longleftrightarrow> i = ?i \<and> (case map_of (requests evs) ?i of None \<Rightarrow> False
      | Some name \<Rightarrow> toolResultFromPayload (new_URL env) (eventPayloadField ?p ''output'') name \<noteq> None)" for i
    using ty by (auto simp: settles_def)
  show thesis
  proof (cases "settles env evs ?i e \<and> \<not> is_settled env evs ?i")
    case False
    have "applyToolCompleted env e d = d"
    proof (cases "?i = [] \<or> is_settled env evs ?i")
      case True
      then show ?thesis using h(1) by (auto simp: applyToolCompleted_def Let_def)
    next
      case ns: False
      then have "map_option oc_toolName (map_of (openToolCalls d) ?i) = map_of (requests evs) ?i" using h(3) by simp
      then show ?thesis using False ns by (auto simp: applyToolCompleted_def Let_def st split: option.splits)
    qed
    moreover have "is_settled env (evs @ [e]) = is_settled env evs"
      using False st by (auto simp: is_settled_snoc fun_eq_iff)
    ultimately show ?thesis by (rule Same)
  next
    case True
    then obtain name result where n: "map_of (requests evs) ?i = Some name"
      "toolResultFromPayload (new_URL env) (eventPayloadField ?p ''output'') name = Some result"
      using st by (auto split: option.splits)
    then obtain q where q: "map_of (openToolCalls d) ?i = Some q" "oc_toolName q = name"
      using h(3) [of ?i] True by auto
    have ne: "?i \<noteq> []" using n(1) named map_of_SomeD by fastforce
    obtain k where k: "map_of (pendingToolIndexes (d_collector d)) ?i = Some k"
      using h(4) [of ?i] q(1) by auto
    show ?thesis
    proof (rule Settles)
      show "applyToolCompleted env e d = d\<lparr>completedToolCallIds := completedToolCallIds d @ [?i],
        openToolCalls := map_delete (openToolCalls d) ?i,
        d_collector := settle_tool ?i (toolActivityPart
          \<lparr>tc_toolCallId = ?i, tc_toolName = oc_toolName q, tc_input = oc_toolInput q,
           tc_result = result, tc_step = oc_step q, tc_sdkRefusal = sdkRefusalFromPayload ?p,
           tc_providerMetadata = oc_providerMetadata q, tc_permission = oc_permission q,
           tc_derivedDecisions = derivedDecisionsFromPayload ?p, tc_classification = recordedClassification ?i d,
           tc_retainedMedia = parseRetainedMedia env (eventPayloadField ?p ''retainedMedia'')\<rparr>) (d_collector d)\<rparr>"
        using ne h(1) True q n(2) by (simp add: applyToolCompleted_def Let_def)
      show "?i \<in> fst ` set (requests evs)" using n(1) by (metis map_of_eq_None_iff option.distinct(1))
      show "is_settled env (evs @ [e]) j \<longleftrightarrow> is_settled env evs j \<or> j = ?i" for j
        using True st by (auto simp: is_settled_snoc)
    qed (use True k h(2) in simp_all)
  qed
qed

lemma settle_tool_sets:
  assumes "i \<notin> set (settledToolCallIds c)" "map_of (pendingToolIndexes c) i = Some n"
  shows "settledToolCallIds (settle_tool i p c) = i # settledToolCallIds c"
    "pendingToolIndexes (settle_tool i p c) = map_delete (pendingToolIndexes c) i"
  using assms by (simp_all add: settle_tool_def)

lemma durable_ok_completed:
  assumes "durable_ok env evs d" "ev_type e = js ''tool.completed''"
  shows "durable_ok env (evs @ [e]) (applyToolCompleted env e d)"
proof -
  have r: "request_of e = []" "log_event_items b e = []" for b
    using assms(2) by (simp_all add: request_of_def log_event_items_def)
  from assms show ?thesis
  proof (cases rule: tool_completed_cases)
    case Same
    then show ?thesis using assms(1) by (simp add: durable_ok_def log_items_append r)
  next
    case (Settles i q n)
    have c: "collector_ok (d_collector d)" using assms(1) by (simp add: durable_ok_def)
    have "map_option oc_toolName (map_of (map_delete (openToolCalls d) i) j) =
        (if is_settled env (evs @ [e]) j then None else map_of (requests evs) j)" for j
    proof -
      have "map_option oc_toolName (map_of (openToolCalls d) j) = (if is_settled env evs j then None else map_of (requests evs) j)"
        using assms(1) by (simp add: durable_ok_def)
      then show ?thesis using Settles(7) [of j] by (auto split: if_splits)
    qed
    then show ?thesis
      using settle_tool_ok [OF c Settles(6,5), of "toolActivityPart q"] settle_tool_sets [OF Settles(6,5)]
        assms(1) Settles(2,4,7) unfolding Settles(1) durable_ok_def
      by (simp add: r log_items_append) blast
  qed
qed

lemma applyEvent_ok:
  assumes "durable_ok env evs d"
  shows "durable_ok env (evs @ [e]) (applyEvent env e d)"
proof -
  let ?p = "ev_payload e" and ?t = "ev_type e"
  have c: "collector_ok (d_collector d)" using assms by (simp add: durable_ok_def)
  consider "?t = js ''model.delta''" | "?t = js ''reasoning.delta''" | "?t = js ''run.step_cap_reached''"
    | "?t = js ''tool.requested''" | "?t = js ''tool.started''" | "?t = js ''tool.completed''"
    | "?t \<notin> js ` {''model.delta'', ''reasoning.delta'', ''run.step_cap_reached'', ''tool.requested'', ''tool.started'', ''tool.completed''}"
    by blast
  then show ?thesis
  proof cases
    case 1
    then show ?thesis using collector_text_ok [OF c]
      by (intro durable_ok_other [OF assms]) (simp_all add: applyEvent_def Let_def other_events_def log_event_items_def)
  next
    case 2
    then show ?thesis using reasoning_ok [OF c]
      by (intro durable_ok_other [OF assms]) (simp_all add: applyEvent_def Let_def other_events_def log_event_items_def)
  next
    case 3
    then show ?thesis using add_part_ok [OF c] c
      by (intro durable_ok_other [OF assms])
        (simp_all add: applyEvent_def applyStepCapReached_def Let_def other_events_def log_event_items_def split: option.splits)
  next
    case 4
    then show ?thesis using durable_ok_requested [OF assms] by (simp add: applyEvent_def)
  next
    case 5
    then show ?thesis using c
      by (intro durable_ok_other [OF assms])
        (simp_all add: applyEvent_def applyToolStarted_def Let_def other_events_def log_event_items_def request_of_def)
  next
    case 6
    then show ?thesis using durable_ok_completed [OF assms] by (simp add: applyEvent_def)
  next
    case 7
    then show ?thesis using c
      by (intro durable_ok_other [OF assms])
        (simp_all add: applyEvent_def Let_def other_events_def log_event_items_def request_of_def)
  qed
qed

lemma reconstruct_ok: "durable_ok env evs (reconstructDurableAssistant env evs off)"
proof (induction evs rule: rev_induct)
  case Nil
  show ?case
    by (simp add: durable_ok_def new_durable_def createAssistantPartCollector_def collector_ok_def new_track_def
        indexes_ok_def pending_ok_def)
next
  case (snoc e evs)
  then show ?case by (simp add: applyEvent_ok)
qed

section \<open>Which parts are stored\<close>

text \<open>Every part is a reservation of an open call, a tool part of a settled one, or no tool part.\<close>

definition says_settled :: "replay_env \<Rightarrow> run_event list \<Rightarrow> item \<Rightarrow> bool" where
  "says_settled env evs x = (case x of Call i \<Rightarrow> is_settled env evs i | _ \<Rightarrow> True)"

definition is_pending :: "obj \<Rightarrow> bool" where
  "is_pending p \<longleftrightarrow> get_prop p (js ''type'') = JStr (js ''pending-tool'')"

definition plain :: "obj \<Rightarrow> bool" where
  "plain p \<longleftrightarrow> is_part ''text'' p \<or> is_part ''reasoning'' p"

lemma plain_facts: "plain p \<Longrightarrow> \<not> is_pending p" "plain p \<Longrightarrow> Call i \<notin> set (part_items p)"
  by (auto simp: plain_def is_pending_def is_part_def part_items_def)

definition adds_plain :: "obj list \<Rightarrow> obj list \<Rightarrow> bool" where
  "adds_plain ps qs \<longleftrightarrow> set qs \<subseteq> set ps \<union> Collect plain"

lemma adds_plain_refl [simp]: "adds_plain ps ps"
  by (simp add: adds_plain_def)

lemma adds_plain_trans: "adds_plain ps qs \<Longrightarrow> adds_plain qs rs \<Longrightarrow> adds_plain ps rs"
  by (auto simp: adds_plain_def)

lemma adds_plain_simps:
  "plain q \<Longrightarrow> adds_plain ps (ps[i := q])" "plain q \<Longrightarrow> adds_plain ps (ps @ [q])"
  using set_update_subset_insert [of ps i q] by (auto simp: adds_plain_def)

lemma adds_plain_extended:
  assumes "extends \<Longrightarrow> open_part_index t ps \<noteq> None" "t \<in> {''text'', ''reasoning''}"
  shows "adds_plain ps (extended_by t x step extends ps)"
  using assms by (auto simp: extended_by_def open_part_index_def plain_def intro!: adds_plain_simps split: if_splits)

lemma adds_plain_bind: "adds_plain ps (fst (bind_text ps tr pid md i))"
  by (auto simp: bind_text_def Let_def plain_def intro!: adds_plain_simps split: option.splits)

lemma adds_plain_delivery: "adds_plain ps (fst (record_delivery ps tr x pid md step))"
proof (cases "x = []")
  case True
  then show ?thesis by (auto simp: record_delivery_def adds_plain_bind split: option.splits)
next
  case False
  let ?e = "extends_text ps tr pid step"
  have "adds_plain ps (extended_by ''text'' x step ?e ps)"
    by (rule adds_plain_extended) (simp_all add: extends_text_def)
  then show ?thesis using False adds_plain_trans [OF _ adds_plain_bind]
    by (simp add: record_delivery_def recordText_eq Let_def)
qed

lemma adds_plain_text: "adds_plain (collected c) (collected (fst (collector_text x pid md step c)))"
  using adds_plain_delivery [of "collected c" "textParts c" x pid md step]
  by (cases "record_delivery (collected c) (textParts c) x pid md step") (simp add: collector_text_def)

lemma adds_plain_bind_reasoning: "adds_plain (collected c) (collected (bind_reasoning pid md c))"
  by (auto simp: bind_reasoning_def plain_def intro!: adds_plain_simps split: option.splits)

lemma adds_plain_reasoning: "adds_plain (collected c) (collected (reasoning x pid md step c))"
proof -
  have "adds_plain (collected c) (collected (appendReasoning x pid step c))"
    by (simp add: appendReasoning_eq Let_def) (rule adds_plain_extended, simp_all add: extends_reasoning_def)
  then show ?thesis using adds_plain_bind_reasoning adds_plain_trans
    by (auto simp: reasoning_def plain_def intro!: adds_plain_simps)
qed

text \<open>Every part is the reservation of an open call, or a part that says nothing of one.\<close>

definition parts_settled :: "replay_env \<Rightarrow> run_event list \<Rightarrow> obj list \<Rightarrow> bool" where
  "parts_settled env evs ps \<longleftrightarrow>
     (\<forall>p\<in>set ps. (\<exists>i. p = pending_tool i \<and> \<not> is_settled env evs i) \<or>
        \<not> is_pending p \<and> (\<forall>i. Call i \<in> set (part_items p) \<longrightarrow> is_settled env evs i))"

lemma parts_settled_plain: "parts_settled env evs ps \<Longrightarrow> adds_plain ps qs \<Longrightarrow> parts_settled env evs qs"
  unfolding parts_settled_def adds_plain_def using plain_facts by blast

lemma parts_settled_cong: "is_settled env evs = is_settled env evs' \<Longrightarrow> parts_settled env evs ps = parts_settled env evs' ps"
  by (simp add: parts_settled_def)

lemma items_stored:
  "parts_settled env evs ps \<Longrightarrow>
   items (filter (\<lambda>p. \<not> is_pending p) ps) = filter (says_settled env evs) (items ps)"
proof (induction ps)
  case (Cons p ps)
  have "(if is_pending p then [] else part_items p) = filter (says_settled env evs) (part_items p)"
  proof (cases "is_pending p")
    case True
    then obtain i where "p = pending_tool i" "\<not> is_settled env evs i" using Cons.prems by (auto simp: parts_settled_def)
    then show ?thesis using True by (simp add: says_settled_def)
  next
    case False
    then have "\<forall>i. Call i \<in> set (part_items p) \<longrightarrow> is_settled env evs i"
      using Cons.prems by (auto simp: parts_settled_def is_pending_def pending_tool_def get_prop_def)
    then have "\<forall>x\<in>set (part_items p). says_settled env evs x"
      by (auto simp: says_settled_def split: item.splits)
    then show ?thesis using False by simp
  qed
  moreover have "parts_settled env evs ps" using Cons.prems by (simp add: parts_settled_def)
  ultimately show ?case using Cons.IH by (simp add: items_def split: if_splits)
qed simp

text \<open>A log names each call once.\<close>

lemma request_of_cases: "request_of e = [] \<or> (\<exists>i name. request_of e = [(i, name)])"
  by (simp add: request_of_def Let_def)

lemma count_Call_map [simp]: "count_list (map Ch s) (Call i) = 0" "count_list (map Think s) (Call i) = 0"
  by (induction s) auto

lemma count_event_items:
  "count_list (log_event_items before e) (Call i) \<le> (if i \<in> set before \<or> i \<notin> set (map fst (request_of e)) then 0 else 1)"
  using request_of_cases [of e]
  by (auto simp: log_event_items_def Let_def request_of_def split: option.splits)

lemma count_log_items: "count_list (log_items before evs) (Call i) \<le> (if i \<in> set before then 0 else 1)"
proof (induction evs arbitrary: before)
  case (Cons e evs)
  from Cons [of "before @ map fst (request_of e)"] count_event_items [of before e i]
  show ?case by (auto split: if_splits)
qed simp

lemma items_split: "n < length ps \<Longrightarrow> items ps = items (take n ps) @ part_items (ps ! n) @ items (drop (Suc n) ps)"
  by (subst id_take_nth_drop [of n ps]) (simp_all add: items_def)

lemma call_part_unique:
  assumes "count_list (items ps) (Call i) \<le> 1" "n < length ps" "m < length ps"
    "part_items (ps ! n) = [Call i]" "Call i \<in> set (part_items (ps ! m))"
  shows "m = n"
proof (rule ccontr)
  assume "m \<noteq> n"
  then have "ps ! m \<in> set (take n ps) \<union> set (drop (Suc n) ps)"
    using assms(2,3) by (cases "m < n")
      (auto simp: in_set_conv_nth intro: exI [of _ m] exI [of _ "m - Suc n"])
  then have "Call i \<in> set (items (take n ps)) \<union> set (items (drop (Suc n) ps))"
    using assms(5) by (auto simp: items_def)
  then have "count_list (items (take n ps)) (Call i) + count_list (items (drop (Suc n) ps)) (Call i) \<noteq> 0"
    by (auto simp: count_list_0_iff)
  then show False using assms(1,4) by (simp add: items_split [OF assms(2)])
qed

lemma settle_tool_parts:
  assumes "parts_settled env evs (collected c)" "collector_ok c" "i \<notin> set (settledToolCallIds c)"
    "map_of (pendingToolIndexes c) i = Some n" "part_items q = [Call i]" "\<not> is_pending q"
    "\<And>j. is_settled env evs' j \<longleftrightarrow> is_settled env evs j \<or> j = i"
    "count_list (items (collected c)) (Call i) \<le> 1"
  shows "parts_settled env evs' (collected (settle_tool i q c))"
proof -
  have n: "n < length (collected c)" "collected c ! n = pending_tool i"
    using assms(2,4) by (auto simp: collector_ok_def pending_ok_def)
  have other: "m = n" if "m < length (collected c)" "collected c ! m = pending_tool i" for m
    using call_part_unique [OF assms(8) n(1) that(1)] n(2) that(2) by simp
  have "(\<exists>j. p = pending_tool j \<and> \<not> is_settled env evs' j) \<or>
      \<not> is_pending p \<and> (\<forall>j. Call j \<in> set (part_items p) \<longrightarrow> is_settled env evs' j)"
    if p: "p \<in> set ((collected c)[n := q])" for p
  proof -
    obtain m where "m < length (collected c)" "p = (collected c)[n := q] ! m"
      using p by (auto simp: in_set_conv_nth)
    then have m: "m < length (collected c)" "p = (if m = n then q else collected c ! m)"
      by (simp_all add: nth_list_update)
    show ?thesis
    proof (cases "m = n")
      case True
      then show ?thesis using m(2) assms(5,6,7) by simp
    next
      case False
      then have "p \<in> set (collected c)" "p \<noteq> pending_tool i" using m other by auto
      then show ?thesis using assms(1,7) unfolding parts_settled_def by metis
    qed
  qed
  then show ?thesis
    using settle_tool_ok(3) [OF assms(2,3,4,5)] by (simp add: parts_settled_def)
qed

lemma fresh_request:
  assumes "durable_ok env evs d" "ev_type e = js ''tool.requested''"
  shows "applyToolRequested env e d = d \<or>
    (\<exists>i d'. applyToolRequested env e d = d'\<lparr>d_collector := toolRequested i (d_collector d)\<rparr> \<and> \<not> is_settled env evs i)"
proof (cases "applyToolRequested env e d = d")
  case False
  have "is_settled env evs i \<Longrightarrow> i \<in> set (completedToolCallIds d)" for i
    using assms(1) by (simp add: durable_ok_def)
  then show ?thesis using False by (simp add: applyToolRequested_def Let_def split: if_splits) blast
qed simp

lemma parts_settled_step:
  assumes ok: "durable_ok env evs d" and ps: "parts_settled env evs (collected (d_collector d))"
  shows "parts_settled env (evs @ [e]) (collected (d_collector (applyEvent env e d)))"
proof -
  let ?t = "ev_type e"
  have c: "collector_ok (d_collector d)" using ok by (simp add: durable_ok_def)
  consider (req) "?t = js ''tool.requested''" | (com) "?t = js ''tool.completed''" | (other) "other_events ?t"
    unfolding other_events_def by blast
  then show ?thesis
  proof cases
    case com
    from ok com show ?thesis
    proof (cases rule: tool_completed_cases)
      case Same
      then show ?thesis using ps parts_settled_cong [of env "evs @ [e]" evs] com by (simp add: applyEvent_def)
    next
      case (Settles i q n)
      have "count_list (items (collected (d_collector d))) (Call i) \<le> 1"
        using ok count_log_items [of "[]" evs i] by (simp add: durable_ok_def)
      from settle_tool_parts [OF ps c Settles(6,5) _ _ Settles(7) this, of "toolActivityPart q"]
      show ?thesis using com Settles(1,2) by (simp add: applyEvent_def is_pending_def tool_prefix)
    qed
  next
    case req
    then have s: "is_settled env (evs @ [e]) = is_settled env evs"
      by (simp add: is_settled_snoc settles_def fun_eq_iff)
    have "parts_settled env evs (collected (d_collector (applyToolRequested env e d)))"
      using fresh_request [OF ok req]
    proof (elim disjE exE conjE)
      fix i d'
      assume "applyToolRequested env e d = d'\<lparr>d_collector := toolRequested i (d_collector d)\<rparr>" "\<not> is_settled env evs i"
      then show ?thesis using ps by (auto simp: toolRequested_def parts_settled_def)
    qed (use ps in simp)
    then show ?thesis using req parts_settled_cong [OF s] by (simp add: applyEvent_def)
  next
    case other
    then have s: "is_settled env (evs @ [e]) = is_settled env evs"
      using other_event_says(2) by (simp add: is_settled_snoc fun_eq_iff)
    have n: "\<not> is_pending (cap_notice a b)" "Call i \<notin> set (part_items (cap_notice a b))" for a b i
      by (simp_all add: is_pending_def cap_notice_def get_prop_def part_items_def is_part_def)
    have "parts_settled env evs (collected (d_collector (applyEvent env e d)))"
      using ps parts_settled_plain [OF ps adds_plain_text] parts_settled_plain [OF ps adds_plain_reasoning] n other
      by (simp add: applyEvent_def Let_def other_events_def applyStepCapReached_def applyToolStarted_def add_part_def
          parts_settled_def split: option.splits)
    then show ?thesis using parts_settled_cong [OF s] by simp
  qed
qed

lemma reconstruct_settled: "parts_settled env evs (collected (d_collector (reconstructDurableAssistant env evs off)))"
proof (induction evs rule: rev_induct)
  case Nil
  show ?case by (simp add: parts_settled_def new_durable_def createAssistantPartCollector_def)
next
  case (snoc e evs)
  then show ?case using parts_settled_step [OF reconstruct_ok] by simp
qed

lemma collector_parts_stored: "collector_parts c = filter (\<lambda>p. \<not> is_pending p) (collected c)"
  by (simp add: collector_parts_def is_pending_def)

text \<open>C8: The parts rebuilt from a run's event log say exactly what the log says, in its order: every character of
  its text and reasoning once, every step-cap notice, and one place for each call the model made, where
  it was first requested; a call is stored exactly if the log settles it.\<close>

theorem transcript_follows_log:
  "items (collector_parts (d_collector (reconstructDurableAssistant env evs off))) =
     filter (says_settled env evs) (log_items [] evs)"
  using items_stored [OF reconstruct_settled [of env evs off]] reconstruct_ok [of env evs off]
  by (simp add: collector_parts_stored durable_ok_def)

text \<open>C32: The calls left open after a replay are the calls the log requests and does not settle, each under the name of
  its first request.\<close>

theorem open_calls_are_unsettled:
  "map_option oc_toolName (map_of (openToolCalls (reconstructDurableAssistant env evs off)) i) =
     (if is_settled env evs i then None else map_of (requests evs) i)"
  using reconstruct_ok [of env evs off] by (simp add: durable_ok_def)

section \<open>The first outcome of a call stays\<close>

lemma keeps_member:
  assumes "keeps ps qs" "p \<in> set ps" "Call i \<in> set (part_items p)"
  shows "p \<in> set qs"
proof -
  obtain n where n: "n < length ps" "p = ps ! n" using assms(2) by (auto simp: in_set_conv_nth)
  have "\<not> plain p" using plain_facts(2) assms(3) by blast
  then have "qs ! n = p" using assms(1) n by (auto simp: keeps_def same_kind_def plain_def)
  then show ?thesis using assms(1) n(1) nth_mem [of n qs] by (auto simp: keeps_def)
qed

lemma settled_part_step:
  assumes ok: "durable_ok env evs d" and p: "p \<in> set (collected (d_collector d))" "Call i \<in> set (part_items p)" "\<not> is_pending p"
  shows "p \<in> set (collected (d_collector (applyEvent env e d)))"
proof -
  let ?t = "ev_type e"
  have c: "collector_ok (d_collector d)" using ok by (simp add: durable_ok_def)
  consider (com) "?t = js ''tool.completed''" | (other) "?t \<noteq> js ''tool.completed''" by blast
  then show ?thesis
  proof cases
    case com
    from ok com show ?thesis
    proof (cases rule: tool_completed_cases)
      case Same
      then show ?thesis using p com by (simp add: applyEvent_def)
    next
      case (Settles j q n)
      have n: "n < length (collected (d_collector d))" "collected (d_collector d) ! n = pending_tool j"
        using c Settles(5) by (auto simp: collector_ok_def pending_ok_def)
      obtain m where m: "m < length (collected (d_collector d))" "p = collected (d_collector d) ! m"
        using p(1) by (auto simp: in_set_conv_nth)
      have "m \<noteq> n" using p(3) n(2) m(2) by (auto simp: is_pending_def pending_tool_def get_prop_def)
      then have "(collected (d_collector d))[n := toolActivityPart q] ! m = p" using m by simp
      then have "p \<in> set ((collected (d_collector d))[n := toolActivityPart q])"
        using m(1) by (metis length_list_update nth_mem)
      moreover have "part_items (toolActivityPart q) = [Call j]" using Settles(2) by simp
      ultimately show ?thesis using com Settles(1) settle_tool_ok(3) [OF c Settles(6,5)]
        by (simp add: applyEvent_def)
    qed
  next
    case other
    have "keeps (collected (d_collector d)) (collected (d_collector (applyEvent env e d)))"
      using other c collector_text_ok(3) reasoning_ok add_part_ok toolRequested_ok
      by (simp add: applyEvent_def Let_def applyStepCapReached_def applyToolStarted_def applyToolRequested_def
          split: option.splits)
    then show ?thesis using p keeps_member by blast
  qed
qed

text \<open>C21: A call's stored part is the first outcome its log records: whatever the log goes on to record, the same part is
  still stored, so a late result never replaces a settlement.\<close>

theorem first_outcome_stays:
  assumes "p \<in> set (collector_parts (d_collector (reconstructDurableAssistant env evs off)))"
    "Call i \<in> set (part_items p)"
  shows "p \<in> set (collector_parts (d_collector (reconstructDurableAssistant env (evs @ later) off)))"
proof (induction later rule: rev_induct)
  case Nil
  show ?case using assms by simp
next
  case (snoc e later)
  then show ?case
    using settled_part_step [OF reconstruct_ok [of env "evs @ later" off] _ assms(2), of e] reconstruct_snoc(1) [of env "evs @ later" e off]
    by (simp add: collector_parts_stored)
qed

text \<open>A call that was settled by its result, and a late cancellation.\<close>

definition sample_env :: replay_env where
  "sample_env = \<lparr>new_URL = \<lambda>_. None, parseRetainedMedia = \<lambda>_. None, nearest_num = id\<rparr>"

definition sample_requested :: run_event where
  "sample_requested = \<lparr>ev_type = js ''tool.requested'',
     ev_payload = JObj [(js ''toolCallId'', JStr (js ''c1'')), (js ''toolName'', JStr (js ''grep'')), (js ''input'', JNull),
       (js ''stepNumber'', JNum (Dec 0 0))]\<rparr>"

definition sample_completed :: "jsval \<Rightarrow> run_event" where
  "sample_completed result = \<lparr>ev_type = js ''tool.completed'',
     ev_payload = JObj [(js ''toolCallId'', JStr (js ''c1'')), (js ''output'', result)]\<rparr>"

definition sample_success :: jsval where
  "sample_success = JObj [(js ''status'', JStr (js ''success'')), (js ''matches'', JNull)]"

definition sample_cancelled :: jsval where
  "sample_cancelled = JObj [(js ''status'', JStr (js ''error'')), (js ''type'', JStr (js ''cancelled'')), (js ''message'', JStr (js ''x''))]"

definition sample_part :: obj where
  "sample_part = [(js ''type'', JStr (js ''tool-grep'')), (js ''toolCallId'', JStr (js ''c1'')),
     (js ''state'', JStr (js ''output-available'')), (js ''input'', JNull), (js ''output'', sample_success),
     (js ''outcome'', JStr (js ''success'')), (js ''classification'', JNull), (js ''step'', JNum (Dec 0 0))]"

lemma sample_stored:
  "collector_parts (d_collector (reconstructDurableAssistant sample_env
     [sample_requested, sample_completed sample_success] (Dec 0 0))) = [sample_part]"
  by code_simp

theorem first_outcome_stays_witness:
  "sample_part \<in> set (collector_parts (d_collector (reconstructDurableAssistant sample_env
     ([sample_requested, sample_completed sample_success] @ [sample_completed sample_cancelled]) (Dec 0 0))))"
proof (rule first_outcome_stays [of _ _ _ _ "js ''c1''"])
  show "Call (js ''c1'') \<in> set (part_items sample_part)" by code_simp
qed (simp only: sample_stored list.set insert_iff simp_thms)

end
