(* ===== verification/Run_Recorder.thy ===== *)
theory Run_Recorder
  imports Transcript Stream_Guards
begin

text \<open>
  What a run records while it executes: the callbacks of \<^verbatim>\<open>executeRun\<close>
  (\<^verbatim>\<open>apps/api/src/runs/run-execution.service.ts\<close>) that feed the live collector and, through the two delta
  buffers, the event log; the settlement of calls (\<^verbatim>\<open>runs/tool-settlement.ts\<close>) and the bound on the bytes a
  message retains (\<^verbatim>\<open>media/attempt-media.ts\<close>). \<open>r_log\<close> is what has been enqueued: a write that fails ends the
  run and is not modelled. Each callback is one step: none of them awaits before it has recorded, but for \<^verbatim>\<open>onStepStart\<close>, which awaits the
  producer of the staged items between its drain and their addition.
\<close>

section \<open>Retained media\<close>

text \<open>An entry without its attribution: the model variant of an image, the original of a PDF, or a read past its bound.\<close>

datatype retained_media = Retained_Image jstr jsnum jsnum jstr | Retained_Pdf jstr | Retained_Exceeded

definition RETAINED_MESSAGE_BOUND :: nat where
  "RETAINED_MESSAGE_BOUND = 29360128"

definition exceeded_json :: jsval where
  "exceeded_json = JObj [(js ''exceeded'', JBool True)]"

fun retainedMediaJson :: "retained_media \<Rightarrow> jsval" where
  "retainedMediaJson Retained_Exceeded = exceeded_json"
| "retainedMediaJson (Retained_Pdf d) = JObj [(js ''mediaType'', JStr (js ''application/pdf'')), (js ''data'', JStr d)]"
| "retainedMediaJson (Retained_Image mediaType width height d) =
     JObj [(js ''mediaType'', JStr mediaType), (js ''width'', JNum width), (js ''height'', JNum height), (js ''data'', JStr d)]"

fun retainedEntrySize :: "retained_media \<Rightarrow> nat" where
  "retainedEntrySize Retained_Exceeded = 0"
| "retainedEntrySize (Retained_Pdf d) = length d"
| "retainedEntrySize (Retained_Image _ _ _ d) = length d"

definition boundRetained :: "retained_media \<Rightarrow> nat \<Rightarrow> retained_media \<times> nat" where
  "boundRetained entry used =
     (if used + retainedEntrySize entry \<le> RETAINED_MESSAGE_BOUND then (entry, used + retainedEntrySize entry)
      else (Retained_Exceeded, used))"

text \<open>The map after the settlement, the record if there is one, and the bytes used.\<close>

definition settleRetainedMedia :: "(jstr \<times> retained_media) list \<Rightarrow> jstr \<Rightarrow> jstr \<Rightarrow> jstr option \<Rightarrow> bool \<Rightarrow> nat \<Rightarrow>
    (jstr \<times> retained_media) list \<times> jsval option \<times> nat" where
  "settleRetainedMedia retained toolCallId toolName origin success used =
     (if toolName \<noteq> js ''read'' \<or> origin \<noteq> None \<or> \<not> success then (retained, None, used)
      else (case map_of retained toolCallId of
        None \<Rightarrow> (retained, None, used)
      | Some entry \<Rightarrow>
          (case boundRetained entry used of
             (settled, used') \<Rightarrow>
               (if settled = Retained_Exceeded then map_set retained toolCallId Retained_Exceeded else retained,
                Some (retainedMediaJson settled), used'))))"

section \<open>Termination of open calls\<close>

datatype termination_status = T_Cancelled | T_Expired | T_Failed

fun toolTerminationMessage :: "termination_status \<Rightarrow> string" where
  "toolTerminationMessage T_Cancelled = ''The run was cancelled before this tool finished.''"
| "toolTerminationMessage T_Expired = ''The run expired before this tool finished.''"
| "toolTerminationMessage T_Failed = ''The run failed before this tool finished.''"

definition error_result :: "string \<Rightarrow> jstr \<Rightarrow> obj" where
  "error_result type message =
     [(js ''status'', JStr (js ''error'')), (js ''type'', JStr (js type)), (js ''message'', JStr message)]"

definition toolTerminationResult :: "termination_status \<Rightarrow> jstr \<Rightarrow> obj" where
  "toolTerminationResult status toolName =
     (if toolName = js ''bash'' then error_result ''outcome_unknown''
        (js ''The host command was interrupted. Inspect the current host state before a new attempt.'')
      else if toolName = js ''edit'' \<or> toolName = js ''write'' then error_result ''outcome_unknown''
        (js ''The native mutation was interrupted. Inspect the current file before a new attempt.'')
      else error_result ''cancelled'' (js (toolTerminationMessage status)))"

definition refusalResult :: "jstr \<Rightarrow> obj" where
  "refusalResult toolName = error_result ''not_available'' (js ''Tool \"'' @ toolName @ js ''\" is not available.'')"

definition invalidCallResult :: "jstr \<Rightarrow> obj" where
  "invalidCallResult toolName = error_result ''invalid_input'' (js ''The call to \"'' @ toolName @ js ''\" had invalid arguments.'')"

section \<open>Derived decisions\<close>

record derived_decision =
  dd_decision :: obj
  dd_kind :: jstr
  dd_count :: "jsnum option"

definition MAX_ADAPTER_DECISIONS :: nat where
  "MAX_ADAPTER_DECISIONS = 16"

definition kind_group :: "jsval \<Rightarrow> nat" where
  "kind_group k = (if k = JStr (js ''address'') then 0 else if k = JStr (js ''adapter'') then 1 else 2)"

definition group_limit :: "jsval \<Rightarrow> nat" where
  "group_limit k = (if k = JStr (js ''address'') then MAX_ADDRESS_DECISIONS
     else if k = JStr (js ''adapter'') then MAX_ADAPTER_DECISIONS else MAX_DERIVED_DECISIONS)"

definition decision_record :: "derived_decision \<Rightarrow> obj" where
  "decision_record d = dd_decision d @ [(js ''kind'', JStr (dd_kind d))] @ opt_prop ''count'' JNum (dd_count d)"

definition appendDerivedDecision :: "obj list \<Rightarrow> derived_decision \<Rightarrow> obj list" where
  "appendDerivedDecision decisions d =
     (let recordedCount = length (filter (\<lambda>r. kind_group (get_prop r (js ''kind'')) = kind_group (JStr (dd_kind d))) decisions) in
      if recordedCount \<ge> group_limit (JStr (dd_kind d)) then decisions else decisions @ [decision_record d])"

section \<open>The state of an attempt\<close>

record live_call =
  lc_toolName :: jstr
  lc_toolInput :: jsval
  lc_step :: jsnum
  lc_sdkRefusal :: "obj option"
  lc_permission :: "obj option"
  lc_derivedDecisions :: "obj list"
  lc_origin :: "jstr option"
  lc_classification :: "jsval option"

record recorder =
  r_collector :: part_collector
  r_log :: "run_event list"
  r_textPartId :: "jstr option"
  r_deltas :: delta_buffer
  r_reasoningPartId :: "jstr option"
  r_reasoningDeltas :: delta_buffer
  r_currentStepNumber :: jsnum
  r_openToolCalls :: "(jstr \<times> live_call) list"
  r_pendingToolMetadata :: "(jstr \<times> obj) list"
  r_settledToolCallIds :: "jstr list"
  r_retainedMedia :: "(jstr \<times> retained_media) list"
  r_retainedBytesUsed :: nat

definition new_recorder :: recorder where
  "new_recorder =
     \<lparr>r_collector = createAssistantPartCollector, r_log = [], r_textPartId = None, r_deltas = createDeltaBuffer,
      r_reasoningPartId = None, r_reasoningDeltas = createDeltaBuffer, r_currentStepNumber = Dec 0 0,
      r_openToolCalls = [], r_pendingToolMetadata = [], r_settledToolCallIds = [], r_retainedMedia = [],
      r_retainedBytesUsed = 0\<rparr>"

definition enqueueEvent :: "string \<Rightarrow> obj \<Rightarrow> recorder \<Rightarrow> recorder" where
  "enqueueEvent t p r = r\<lparr>r_log := r_log r @ [\<lparr>ev_type = js t, ev_payload = JObj p\<rparr>]\<rparr>"

definition delta_payload :: "jstr \<Rightarrow> jstr option \<Rightarrow> jsnum \<Rightarrow> obj" where
  "delta_payload text partId step =
     [(js ''text'', JStr text)] @ opt_prop ''partId'' JStr partId @ [(js ''stepNumber'', JNum step)]"

definition metadata_payload :: "jstr option \<Rightarrow> obj \<Rightarrow> jsnum \<Rightarrow> obj" where
  "metadata_payload partId metadata step =
     opt_prop ''partId'' JStr partId @ [(js ''providerMetadata'', JObj metadata), (js ''stepNumber'', JNum step)]"

definition persistDelta :: "jstr option \<Rightarrow> recorder \<Rightarrow> recorder" where
  "persistDelta text r = (case text of None \<Rightarrow> r
     | Some t \<Rightarrow> enqueueEvent ''model.delta'' (delta_payload t (r_textPartId r) (r_currentStepNumber r)) r)"

definition persistReasoning :: "jstr option \<Rightarrow> recorder \<Rightarrow> recorder" where
  "persistReasoning text r = (case text of None \<Rightarrow> r
     | Some t \<Rightarrow> enqueueEvent ''reasoning.delta'' (delta_payload t (r_reasoningPartId r) (r_currentStepNumber r)) r)"

definition persistTextMetadata :: "jstr option \<Rightarrow> obj \<Rightarrow> recorder \<Rightarrow> recorder" where
  "persistTextMetadata partId metadata r =
     enqueueEvent ''model.delta'' (metadata_payload partId metadata (r_currentStepNumber r)) r"

definition persistReasoningMetadata :: "jstr option \<Rightarrow> obj \<Rightarrow> recorder \<Rightarrow> recorder" where
  "persistReasoningMetadata partId metadata r =
     enqueueEvent ''reasoning.delta'' (metadata_payload partId metadata (r_currentStepNumber r)) r"

definition flush_text :: "recorder \<Rightarrow> recorder" where
  "flush_text r = (case flush_delta (r_deltas r) of (b, out) \<Rightarrow> persistDelta out (r\<lparr>r_deltas := b\<rparr>))"

definition flush_reasoning :: "recorder \<Rightarrow> recorder" where
  "flush_reasoning r = (case flush_delta (r_reasoningDeltas r) of (b, out) \<Rightarrow> persistReasoning out (r\<lparr>r_reasoningDeltas := b\<rparr>))"

definition push_text_delta :: "jstr \<Rightarrow> int \<Rightarrow> recorder \<Rightarrow> recorder" where
  "push_text_delta text now r =
     (case push_delta DEFAULT_DELTA_FLUSH_CHARS DEFAULT_DELTA_FLUSH_MS text (Some now) (r_deltas r) of
        (b, out) \<Rightarrow> persistDelta out (r\<lparr>r_deltas := b\<rparr>))"

definition push_reasoning_delta :: "jstr \<Rightarrow> int \<Rightarrow> recorder \<Rightarrow> recorder" where
  "push_reasoning_delta text now r =
     (case push_delta DEFAULT_DELTA_FLUSH_CHARS DEFAULT_DELTA_FLUSH_MS text (Some now) (r_reasoningDeltas r) of
        (b, out) \<Rightarrow> persistReasoning out (r\<lparr>r_reasoningDeltas := b\<rparr>))"

definition flush_both :: "recorder \<Rightarrow> recorder" where
  "flush_both r = flush_text (flush_reasoning r)"

section \<open>The callbacks of the stream\<close>

text \<open>\<open>nearest\<close> rounds \<^verbatim>\<open>stepOffset + currentStepNumber\<close>.\<close>

definition reply_step :: "replay_env \<Rightarrow> jsnum \<Rightarrow> recorder \<Rightarrow> jsnum" where
  "reply_step env offset r = js_add (nearest_num env) offset (r_currentStepNumber r)"

definition onTextDelta :: "replay_env \<Rightarrow> jsnum \<Rightarrow> int \<Rightarrow> jstr \<Rightarrow> jstr option \<Rightarrow> obj option \<Rightarrow> recorder \<Rightarrow> recorder" where
  "onTextDelta env offset now text partId metadata r =
     (let step = Some (reply_step env offset r) in
      if text = [] then
        (case metadata of None \<Rightarrow> r
         | Some m \<Rightarrow>
             (let r1 = flush_both r;
                  (c, bound) = collector_text [] partId metadata step (r_collector r1);
                  r2 = r1\<lparr>r_collector := c\<rparr>
              in case bound of None \<Rightarrow> r2 | Some b \<Rightarrow> persistTextMetadata partId b r2))
      else
        (let (c, bound) = collector_text text partId metadata step (r_collector r);
             r1 = (flush_reasoning (r\<lparr>r_collector := c\<rparr>))\<lparr>r_reasoningPartId := None\<rparr>;
             r2 = (if partId \<noteq> r_textPartId r1 then (flush_text r1)\<lparr>r_textPartId := partId\<rparr> else r1);
             r3 = push_text_delta text now r2
         in case bound of None \<Rightarrow> r3 | Some b \<Rightarrow> persistTextMetadata partId b (flush_text r3)))"

definition onReasoningDelta :: "replay_env \<Rightarrow> jsnum \<Rightarrow> int \<Rightarrow> jstr \<Rightarrow> jstr option \<Rightarrow> obj option \<Rightarrow> recorder \<Rightarrow> recorder" where
  "onReasoningDelta env offset now text partId metadata r =
     (let step = Some (reply_step env offset r) in
      if text = [] \<and> metadata \<noteq> None then
        (let r1 = (if startsReasoningPart partId metadata (r_collector r) then flush_text r else r);
             r2 = persistReasoningMetadata partId (the metadata) (flush_reasoning r1)
         in r2\<lparr>r_collector := reasoning [] partId metadata step (r_collector r2)\<rparr>)
      else
        (let r1 = (if partId \<noteq> r_reasoningPartId r then (flush_reasoning r)\<lparr>r_reasoningPartId := partId\<rparr> else r);
             r2 = flush_text (r1\<lparr>r_collector := reasoning text partId None step (r_collector r1)\<rparr>)
         in push_reasoning_delta text now (r2\<lparr>r_textPartId := None\<rparr>)))"

text \<open>\<open>staged\<close> are the context items that the step's producer staged.\<close>

definition onStepStart :: "jsnum \<Rightarrow> obj list \<Rightarrow> recorder \<Rightarrow> recorder" where
  "onStepStart stepNumber staged r =
     (let r1 = (flush_both r)\<lparr>r_currentStepNumber := stepNumber\<rparr> in
      r1\<lparr>r_collector := fold add_part staged (r_collector r1)\<rparr>)"

definition onToolCallMetadata :: "jstr \<Rightarrow> obj \<Rightarrow> recorder \<Rightarrow> recorder" where
  "onToolCallMetadata toolCallId metadata r =
     r\<lparr>r_pendingToolMetadata := map_set (r_pendingToolMetadata r) toolCallId metadata\<rparr>"

definition onCapReached :: "jsnum \<Rightarrow> recorder \<Rightarrow> recorder" where
  "onCapReached maxSteps r =
     enqueueEvent ''run.step_cap_reached'' [(js ''stepsUsed'', JNum maxSteps), (js ''maxSteps'', JNum maxSteps)] r"

section \<open>Tool calls\<close>

definition reserveToolRequest :: "replay_env \<Rightarrow> jsnum \<Rightarrow> jstr \<Rightarrow> jstr \<Rightarrow> jsval \<Rightarrow> jstr option \<Rightarrow> obj option \<Rightarrow> recorder \<Rightarrow> recorder" where
  "reserveToolRequest env offset toolCallId toolName toolInput origin sdkRefusal r =
     (let r1 = r\<lparr>r_openToolCalls := map_set (r_openToolCalls r) toolCallId
            \<lparr>lc_toolName = toolName, lc_toolInput = toolInput, lc_step = reply_step env offset r,
             lc_sdkRefusal = sdkRefusal, lc_permission = None, lc_derivedDecisions = [], lc_origin = origin,
             lc_classification = None\<rparr>\<rparr>
      in if origin = None then r1\<lparr>r_collector := toolRequested toolCallId (r_collector r1)\<rparr> else r1)"

definition emitToolRequested :: "jstr \<Rightarrow> jstr \<Rightarrow> jsval \<Rightarrow> obj option \<Rightarrow> jstr option \<Rightarrow> recorder \<Rightarrow> recorder" where
  "emitToolRequested toolCallId toolName toolInput permission origin r =
     enqueueEvent ''tool.requested''
       ([(js ''toolCallId'', JStr toolCallId), (js ''toolName'', JStr toolName), (js ''input'', toolInput),
         (js ''stepNumber'', JNum (r_currentStepNumber r))] @
        opt_prop ''permission'' JObj permission @ opt_prop ''origin'' JStr origin @
        opt_prop ''providerMetadata'' JObj (map_of (r_pendingToolMetadata r) toolCallId)) r"

definition update_open :: "jstr \<Rightarrow> (live_call \<Rightarrow> live_call) \<Rightarrow> recorder \<Rightarrow> recorder" where
  "update_open toolCallId f r =
     (case map_of (r_openToolCalls r) toolCallId of None \<Rightarrow> r
      | Some call \<Rightarrow> r\<lparr>r_openToolCalls := map_set (r_openToolCalls r) toolCallId (f call)\<rparr>)"

definition recordDerivedDecision :: "jstr \<Rightarrow> derived_decision \<Rightarrow> recorder \<Rightarrow> recorder" where
  "recordDerivedDecision toolCallId d =
     update_open toolCallId (\<lambda>call. call\<lparr>lc_derivedDecisions := appendDerivedDecision (lc_derivedDecisions call) d\<rparr>)"

definition admitToolCall :: "jstr \<Rightarrow> jstr \<Rightarrow> jsval \<Rightarrow> obj \<Rightarrow> jsval \<Rightarrow> jstr option \<Rightarrow> recorder \<Rightarrow> recorder" where
  "admitToolCall toolCallId toolName args decision classification origin r =
     (let started = (get_prop decision (js ''decision'') = JStr (js ''allow''));
          r1 = update_open toolCallId (\<lambda>call. call\<lparr>lc_permission := Some decision,
                 lc_classification := (if started then Some classification else lc_classification call)\<rparr>) r;
          r2 = emitToolRequested toolCallId toolName args (Some decision) origin r1
      in if started
         then enqueueEvent ''tool.started'' [(js ''toolCallId'', JStr toolCallId), (js ''toolName'', JStr toolName),
                (js ''classification'', classification)] r2
         else r2)"

definition completed_payload :: "jstr \<Rightarrow> jstr \<Rightarrow> obj \<Rightarrow> jsval option \<Rightarrow> live_call option \<Rightarrow> obj" where
  "completed_payload toolCallId toolName result kept call =
     [(js ''toolCallId'', JStr toolCallId), (js ''toolName'', JStr toolName),
      (js ''status'', get_prop result (js ''status'')), (js ''output'', JObj result)] @
     opt_prop ''retainedMedia'' id kept @
     opt_prop ''sdkRefusal'' JObj (Option.bind call lc_sdkRefusal) @
     opt_prop ''permission'' JObj (Option.bind call lc_permission) @
     (case call of None \<Rightarrow> [] | Some l \<Rightarrow>
        if lc_derivedDecisions l = [] then [] else [(js ''derivedDecisions'', JArr (map JObj (lc_derivedDecisions l)))]) @
     opt_prop ''origin'' JStr (Option.bind call lc_origin)"

definition completed_call :: "replay_env \<Rightarrow> jsnum \<Rightarrow> jstr \<Rightarrow> jstr \<Rightarrow> jsval \<Rightarrow> obj \<Rightarrow> jsval option \<Rightarrow> live_call option \<Rightarrow> recorder \<Rightarrow> tool_call" where
  "completed_call env offset toolCallId toolName toolInput result kept call r =
     \<lparr>tc_toolCallId = toolCallId, tc_toolName = toolName, tc_input = toolInput, tc_result = result,
      tc_step = Some (case call of None \<Rightarrow> reply_step env offset r | Some l \<Rightarrow> lc_step l),
      tc_sdkRefusal = Option.bind call lc_sdkRefusal,
      tc_providerMetadata = map_of (r_pendingToolMetadata r) toolCallId,
      tc_permission = Option.bind call lc_permission,
      tc_derivedDecisions = map_option lc_derivedDecisions call,
      tc_classification = (case Option.bind call lc_classification of None \<Rightarrow> JNull | Some k \<Rightarrow> k),
      tc_retainedMedia = kept\<rparr>"

definition recordToolCompleted :: "replay_env \<Rightarrow> jsnum \<Rightarrow> jstr \<Rightarrow> jstr \<Rightarrow> jsval \<Rightarrow> obj \<Rightarrow> recorder \<Rightarrow> recorder" where
  "recordToolCompleted env offset toolCallId toolName toolInput result r =
     (if toolCallId \<in> set (r_settledToolCallIds r) then r
      else
        (let call = map_of (r_openToolCalls r) toolCallId;
             (retained, kept, used) = settleRetainedMedia (r_retainedMedia r) toolCallId toolName
               (Option.bind call lc_origin) (get_prop result (js ''status'') = JStr (js ''success'')) (r_retainedBytesUsed r);
             r1 = r\<lparr>r_settledToolCallIds := toolCallId # r_settledToolCallIds r,
                    r_pendingToolMetadata := map_delete (r_pendingToolMetadata r) toolCallId,
                    r_openToolCalls := map_delete (r_openToolCalls r) toolCallId,
                    r_retainedMedia := (if kept = None then map_delete retained toolCallId else retained),
                    r_retainedBytesUsed := used\<rparr>;
             r2 = enqueueEvent ''tool.completed'' (completed_payload toolCallId toolName result kept call) r1
         in if Option.bind call lc_origin \<noteq> None then r2
            else r2\<lparr>r_collector := settle_tool toolCallId
              (toolActivityPart (completed_call env offset toolCallId toolName toolInput result kept call r)) (r_collector r2)\<rparr>))"

definition onUnavailableToolCall :: "replay_env \<Rightarrow> jsnum \<Rightarrow> jstr \<Rightarrow> jstr \<Rightarrow> jsval \<Rightarrow> bool \<Rightarrow> obj option \<Rightarrow> recorder \<Rightarrow> recorder" where
  "onUnavailableToolCall env offset toolCallId toolName callInput notAvailable sdkRefusal r =
     (let r1 = reserveToolRequest env offset toolCallId toolName callInput None sdkRefusal (flush_both r);
          r2 = emitToolRequested toolCallId toolName callInput None None r1
      in recordToolCompleted env offset toolCallId toolName callInput
           (if notAvailable then refusalResult toolName else invalidCallResult toolName) r2)"

definition settleOpenToolCalls :: "replay_env \<Rightarrow> jsnum \<Rightarrow> termination_status \<Rightarrow> (jstr \<Rightarrow> bool) \<Rightarrow> recorder \<Rightarrow> recorder" where
  "settleOpenToolCalls env offset status shouldSettle r =
     fold (\<lambda>(toolCallId, call) r.
       if shouldSettle (lc_toolName call)
       then recordToolCompleted env offset toolCallId (lc_toolName call) (lc_toolInput call)
              (toolTerminationResult status (lc_toolName call)) r
       else r) (r_openToolCalls r) r"

text \<open>The end of \<^verbatim>\<open>onFinish\<close>: text the stream did not deliver, the drained buffers, and the step cap.\<close>

definition onFinish :: "replay_env \<Rightarrow> jsnum \<Rightarrow> jstr \<Rightarrow> jstr \<Rightarrow> jsnum option \<Rightarrow> recorder \<Rightarrow> recorder" where
  "onFinish env offset text streamedText cappedAt r =
     (let c = (if starts_with text streamedText
               then fst (collector_text (drop (length streamedText) text) None None (Some (reply_step env offset r)) (r_collector r))
               else r_collector r);
          r1 = flush_both (r\<lparr>r_collector := c\<rparr>)
      in case cappedAt of None \<Rightarrow> r1 | Some n \<Rightarrow> r1\<lparr>r_collector := add_part (cap_notice n n) (r_collector r1)\<rparr>)"

section \<open>The steps of an attempt\<close>

datatype attempt_event =
    S_Text int jstr "jstr option" "obj option"
  | S_Reasoning int jstr "jstr option" "obj option"
  | S_Step jsnum "obj list"
  | S_Metadata jstr obj
  | S_Retain jstr retained_media
  | S_Call jstr jstr jsval
  | S_System jstr jstr jsval jstr
  | S_Admit jstr jstr jsval obj jsval "jstr option"
  | S_Derived jstr derived_decision
  | S_Complete jstr jstr jsval obj
  | S_Unavailable jstr jstr jsval bool "obj option"
  | S_Cap jsnum
  | S_Terminate termination_status

fun attempt_step :: "replay_env \<Rightarrow> jsnum \<Rightarrow> attempt_event \<Rightarrow> recorder \<Rightarrow> recorder" where
  "attempt_step env offset (S_Text now text partId metadata) r = onTextDelta env offset now text partId metadata r"
| "attempt_step env offset (S_Reasoning now text partId metadata) r = onReasoningDelta env offset now text partId metadata r"
| "attempt_step env offset (S_Step n staged) r = onStepStart n staged r"
| "attempt_step env offset (S_Metadata i m) r = onToolCallMetadata i m r"
| "attempt_step env offset (S_Retain i entry) r = r\<lparr>r_retainedMedia := map_set (r_retainedMedia r) i entry\<rparr>"
| "attempt_step env offset (S_Call i name args) r = reserveToolRequest env offset i name args None None (flush_both r)"
| "attempt_step env offset (S_System i name args origin) r = reserveToolRequest env offset i name args (Some origin) None r"
| "attempt_step env offset (S_Admit i name args decision classification origin) r =
     admitToolCall i name args decision classification origin r"
| "attempt_step env offset (S_Derived i d) r = recordDerivedDecision i d r"
| "attempt_step env offset (S_Complete i name args result) r = recordToolCompleted env offset i name args result r"
| "attempt_step env offset (S_Unavailable i name args notAvailable sdkRefusal) r =
     onUnavailableToolCall env offset i name args notAvailable sdkRefusal r"
| "attempt_step env offset (S_Cap n) r = onCapReached n r"
| "attempt_step env offset (S_Terminate status) r = settleOpenToolCalls env offset status (\<lambda>_. True) r"

definition run_attempt :: "replay_env \<Rightarrow> jsnum \<Rightarrow> attempt_event list \<Rightarrow> recorder" where
  "run_attempt env offset steps = fold (attempt_step env offset) steps new_recorder"

text \<open>What a reader of the log rebuilds.\<close>

definition rebuilt :: "replay_env \<Rightarrow> jsnum \<Rightarrow> recorder \<Rightarrow> durable" where
  "rebuilt env offset r = reconstructDurableAssistant env (r_log r) offset"

section \<open>Deliveries that are recorded apart\<close>

text \<open>The state of the text track that only the live collector has: metadata that waits for its text.\<close>

definition strip :: "part_collector \<Rightarrow> part_collector" where
  "strip c = c\<lparr>textParts := (textParts c)\<lparr>pendingMetadata := []\<rparr>\<rparr>"

definition deliver_text :: "jstr \<Rightarrow> jstr option \<Rightarrow> obj option \<Rightarrow> jsnum option \<Rightarrow> part_collector \<Rightarrow> part_collector" where
  "deliver_text text partId metadata step c = fst (collector_text text partId metadata step c)"

lemma strip_simps [simp]:
  "collected (strip c) = collected c" "pendingToolIndexes (strip c) = pendingToolIndexes c"
  "settledToolCallIds (strip c) = settledToolCallIds c" "openReasoningPartId (strip c) = openReasoningPartId c"
  "reasoningPartIndexes (strip c) = reasoningPartIndexes c" "strip (strip c) = strip c"
  "pendingMetadata (textParts (strip c)) = []" "openPartId (textParts (strip c)) = openPartId (textParts c)"
  "partIndexes (textParts (strip c)) = partIndexes (textParts c)"
  by (simp_all add: strip_def)

lemma strip_id: "pendingMetadata (textParts c) = [] \<Longrightarrow> strip c = c"
  by (simp add: strip_def)

lemma map_set_again [simp]: "map_set (map_set m k v) k w = map_set m k w"
  by (induction m) auto

lemma map_set_same: "map_of m k = Some v \<Longrightarrow> map_set m k v = m"
  by (induction m) (auto split: if_splits)

lemma strip_collected [simp]: "strip (c\<lparr>collected := x\<rparr>) = (strip c)\<lparr>collected := x\<rparr>"
  by (simp add: strip_def)

lemma strip_bind_reasoning: "strip (bind_reasoning pid md c) = bind_reasoning pid md (strip c)"
  by (cases md; cases pid) (auto simp: bind_reasoning_def split: option.splits)

lemma strip_reads [simp]:
  "extends_reasoning (strip c) pid s = extends_reasoning c pid s" "startsReasoningPart pid md (strip c) = startsReasoningPart pid md c"
  by (simp add: extends_reasoning_def) (cases pid; simp add: startsReasoningPart_def)

lemma strip_update [simp]:
  "strip (c\<lparr>openReasoningPartId := a, collected := b, reasoningPartIndexes := m\<rparr>) =
     (strip c)\<lparr>openReasoningPartId := a, collected := b, reasoningPartIndexes := m\<rparr>"
  "strip (c\<lparr>collected := b, openReasoningPartId := a, reasoningPartIndexes := m\<rparr>) =
     (strip c)\<lparr>collected := b, openReasoningPartId := a, reasoningPartIndexes := m\<rparr>"
  by (simp_all add: strip_def)

lemma strip_append_reasoning: "strip (appendReasoning x pid s c) = appendReasoning x pid s (strip c)"
  unfolding appendReasoning_eq Let_def strip_reads strip_update by (cases pid) simp_all

lemma strip_reasoning [simp]: "strip (reasoning x pid md s c) = reasoning x pid md s (strip c)"
  unfolding reasoning_def strip_reads by (simp add: strip_bind_reasoning strip_append_reasoning)

lemma strip_tools [simp]:
  "strip (toolRequested i c) = toolRequested i (strip c)" "strip (settle_tool i p c) = settle_tool i p (strip c)"
  "strip (add_part p c) = add_part p (strip c)"
  by (simp_all add: strip_def toolRequested_def settle_tool_def add_part_def Let_def split: option.splits)

lemma collector_ok_strip [simp]: "collector_ok (strip c) = collector_ok c"
  by (simp add: collector_ok_def)

text \<open>Text without metadata, when none waits.\<close>

definition track_text :: "text_track \<Rightarrow> jstr option \<Rightarrow> bool \<Rightarrow> nat \<Rightarrow> text_track" where
  "track_text tr pid e i = tr\<lparr>openPartId := (if e then or_else pid (openPartId tr) else pid),
     partIndexes := (case pid of None \<Rightarrow> partIndexes tr | Some p \<Rightarrow> map_set (partIndexes tr) p i)\<rparr>"

lemma deliver_text:
  assumes "text \<noteq> []" "pendingMetadata (textParts c) = []"
  shows "deliver_text text pid None step c =
    (let e = extends_text (collected c) (textParts c) pid step; qs = extended_by ''text'' text step e (collected c) in
     c\<lparr>collected := qs, textParts := track_text (textParts c) pid e (length qs - 1)\<rparr>)"
  using assms by (cases pid)
    (simp_all add: deliver_text_def collector_text_def record_delivery_def recordText_eq Let_def bind_text_def track_text_def or_else_def)

lemma extended_facts:
  assumes "e = extends_text ps tr pid step" "qs = extended_by ''text'' text step e ps"
  shows "qs \<noteq> []" "is_part ''text'' (qs ! (length qs - 1))"
  using extended_by_keeps(2,4) [of e "''text''" ps "text" step] assms by (auto simp: extends_text_def)

lemma deliver_bound:
  assumes "text \<noteq> []" "collector_text text pid md step c = (c', bound)"
  shows "strip c' = (case bound of None \<Rightarrow> deliver_text text pid None step (strip c)
     | Some m \<Rightarrow> deliver_text [] pid (Some m) step (deliver_text text pid None step (strip c)))"
proof -
  define e qs where "e = extends_text (collected c) (textParts c) pid step"
    and "qs = extended_by ''text'' text step e (collected c)"
  note ex = extended_facts [OF e_def qs_def]
  let ?i = "length qs - 1" and ?tr = "(textParts c)\<lparr>openPartId := (if e then or_else pid (openPartId (textParts c)) else pid)\<rparr>"
  define metadata where "metadata = or_else md (Option.bind pid (map_of (pendingMetadata (textParts c))))"
  have e': "extends_text (collected c) (textParts (strip c)) pid step = e" by (simp add: e_def extends_text_def)
  have d: "deliver_text text pid None step (strip c) =
      (strip c)\<lparr>collected := qs, textParts := track_text (textParts (strip c)) pid e ?i\<rparr>"
    using assms(1) by (simp add: deliver_text e' Let_def qs_def)
  have b: "collector_text text pid md step c =
      (case bind_text qs ?tr pid md ?i of (ps, tr, b) \<Rightarrow> (c\<lparr>collected := ps, textParts := tr\<rparr>, b))"
    using assms(1) by (simp add: collector_text_def record_delivery_def recordText_eq Let_def e_def [symmetric] qs_def [symmetric])
  show ?thesis
  proof (cases metadata)
    case None
    have mb: "md = None" "Option.bind pid (map_of (pendingMetadata (textParts c))) = None"
      using None by (auto simp: metadata_def or_else_def split: option.splits)
    have r: "bound = None" "c' = c\<lparr>collected := qs, textParts := track_text (textParts c) pid e ?i\<rparr>"
      using assms(2) b mb by (cases pid; auto simp: bind_text_def Let_def or_else_def track_text_def)+
    show ?thesis unfolding r option.case d by (cases pid) (simp_all add: strip_def track_text_def)
  next
    case (Some m)
    have "bound = Some m" "strip c' = (strip c)\<lparr>collected := qs[?i := set_metadata m (qs ! ?i)],
        textParts := track_text (textParts (strip c)) pid e ?i\<rparr>"
      using assms(2) b ex Some unfolding metadata_def
      by (cases pid; auto simp: bind_text_def Let_def or_else_def track_text_def strip_def)+
    moreover have "deliver_text [] pid (Some m) step (deliver_text text pid None step (strip c)) =
        (strip c)\<lparr>collected := qs[?i := set_metadata m (qs ! ?i)], textParts := track_text (textParts (strip c)) pid e ?i\<rparr>"
      unfolding d using ex
      by (cases pid) (simp_all add: deliver_text_def collector_text_def record_delivery_def open_part_index_def last_conv_nth
          bind_text_def Let_def or_else_def track_text_def)
    ultimately show ?thesis by simp
  qed
qed

lemma deliver_nothing:
  assumes "collector_ok c" "collector_text [] pid (Some m) step c = (c', bound)"
  shows "strip c' = (case bound of None \<Rightarrow> strip c | Some b \<Rightarrow> deliver_text [] pid (Some b) step (strip c))"
proof (cases "case pid of None \<Rightarrow> open_part_index ''text'' (collected c) | Some p \<Rightarrow> map_of (partIndexes (textParts c)) p")
  case None
  then have "bound = None \<and> strip c' = strip c"
    using assms(2) by (cases pid) (auto simp: collector_text_def record_delivery_def strip_def)
  then show ?thesis by simp
next
  case (Some i)
  then have i: "i < length (collected c)" "is_part ''text'' (collected c ! i)"
    using assms(1) by (auto simp: open_part_index_Some indexes_ok_def collector_ok_def split: option.splits)
  have "bound = Some m" "strip c' = (strip c)\<lparr>collected := (collected c)[i := set_metadata m (collected c ! i)]\<rparr>"
    using assms(2) Some i
    by (cases pid; auto simp: collector_text_def record_delivery_def strip_def bind_text_def Let_def or_else_def map_set_same)+
  moreover have "deliver_text [] pid (Some m) step (strip c) =
      (strip c)\<lparr>collected := (collected c)[i := set_metadata m (collected c ! i)]\<rparr>"
    using Some i
    by (cases pid) (simp_all add: deliver_text_def collector_text_def record_delivery_def bind_text_def Let_def or_else_def map_set_same)
  ultimately show ?thesis by simp
qed

section \<open>Deltas that are recorded as one\<close>

lemma append_text_twice [simp]: "append_text b (append_text a p) = append_text (a @ b) p"
  by (simp add: append_text_def text_of_part_def get_prop_def)

lemma append_text_new [simp]: "append_text b (new_part t a md st) = new_part t (a @ b) md st"
  by (cases md; cases st) (simp_all add: append_text_def new_part_def text_of_part_def get_prop_def)

lemma same_step_append [simp]: "same_step (append_text a p) st = same_step p st"
  by (cases st) (simp_all add: same_step_def append_text_def get_prop_def)

lemma same_step_new: "s \<noteq> NaN \<Longrightarrow> same_step (new_part t a None (Some s)) (Some s)"
  by (simp add: same_step_def new_part_def get_prop_def)

lemma extended_twice:
  assumes "e \<Longrightarrow> ps \<noteq> []"
  shows "extended_by t b st True (extended_by t a st e ps) = extended_by t (a @ b) st e ps"
    "length (extended_by t a st e ps) = length (extended_by t b st e ps)"
    "last (extended_by t a st e ps) = (if e then append_text a (last ps) else new_part t a None st)"
  using assms by (auto simp: extended_by_def last_list_update list_update_append)

lemma ids_meet: "\<not> differing_ids pid (if e then or_else pid o' else pid)"
  by (cases pid) (simp_all add: differing_ids_def or_else_def)

lemma ids_again: "or_else pid (if e then or_else pid o' else pid) = (if e then or_else pid o' else pid)"
  by (cases pid) (simp_all add: or_else_def)

lemma deliver_merge:
  assumes "a \<noteq> []" "b \<noteq> []" "s \<noteq> NaN" "pendingMetadata (textParts c) = []"
  shows "deliver_text b pid None (Some s) (deliver_text a pid None (Some s) c) = deliver_text (a @ b) pid None (Some s) c"
proof -
  define e where "e = extends_text (collected c) (textParts c) pid (Some s)"
  define qs where "qs = extended_by ''text'' a (Some s) e (collected c)"
  have ne: "e \<Longrightarrow> collected c \<noteq> []" and st: "e \<Longrightarrow> same_step (last (collected c)) (Some s)"
    by (auto simp: e_def extends_text_def open_part_index_def)
  note ex = extended_facts [OF e_def qs_def]
  let ?tr = "track_text (textParts c) pid e (length qs - 1)"
  have "last qs = (if e then append_text a (last (collected c)) else new_part ''text'' a None (Some s))"
    unfolding qs_def by (rule extended_twice(3) [OF ne])
  then have "same_step (last qs) (Some s)" using st same_step_new [OF assms(3)] by simp
  then have "extends_text qs ?tr pid (Some s)"
    using ex by (simp add: extends_text_def open_part_index_def last_conv_nth ids_meet track_text_def)
  moreover have "pendingMetadata ?tr = []" using assms(4) by (simp add: track_text_def)
  moreover have "extended_by ''text'' b (Some s) True qs = extended_by ''text'' (a @ b) (Some s) e (collected c)"
    unfolding qs_def by (rule extended_twice(1) [OF ne])
  moreover have "length (extended_by ''text'' (a @ b) (Some s) e (collected c)) = length qs"
    unfolding qs_def by (rule extended_twice(2) [OF ne])
  moreover have "track_text ?tr pid True (length qs - 1) = ?tr"
    by (cases pid) (simp_all add: track_text_def ids_again or_else_def)
  ultimately show ?thesis
    using assms(1,2,4) by (simp add: deliver_text Let_def e_def [symmetric] qs_def [symmetric])
qed

lemma reasoning_text: "t \<noteq> [] \<Longrightarrow> reasoning t pid None st c = appendReasoning t pid st c"
  by (simp add: reasoning_def bind_reasoning_def)

lemma reasoning_nothing [simp]: "reasoning [] pid None st c = c"
  by (simp add: reasoning_def bind_reasoning_def startsReasoningPart_def)

lemma reasoning_merge:
  assumes "a \<noteq> []" "b \<noteq> []" "s \<noteq> NaN"
  shows "reasoning b pid None (Some s) (reasoning a pid None (Some s) c) = reasoning (a @ b) pid None (Some s) c"
proof -
  define e where "e = extends_reasoning c pid (Some s)"
  define qs where "qs = extended_by ''reasoning'' a (Some s) e (collected c)"
  have ne: "e \<Longrightarrow> collected c \<noteq> []" and st: "e \<Longrightarrow> same_step (last (collected c)) (Some s)"
    by (auto simp: e_def extends_reasoning_def open_part_index_def)
  have ex: "qs \<noteq> []" "is_part ''reasoning'' (last qs)"
    using extended_by_keeps(2,3) [of e "''reasoning''" "collected c" a "Some s"] by (auto simp: e_def extends_reasoning_def qs_def)
  define c1 where "c1 = appendReasoning a pid (Some s) c"
  have c1: "collected c1 = qs" "openReasoningPartId c1 = (if e then or_else pid (openReasoningPartId c) else pid)"
    "c1 = c\<lparr>collected := qs, openReasoningPartId := (if e then or_else pid (openReasoningPartId c) else pid),
       reasoningPartIndexes := (case pid of None \<Rightarrow> reasoningPartIndexes c | Some p \<Rightarrow> map_set (reasoningPartIndexes c) p (length qs - 1))\<rparr>"
    unfolding c1_def appendReasoning_eq Let_def e_def [symmetric] qs_def [symmetric] by simp_all
  have "extends_reasoning c1 pid (Some s)"
  proof -
    have "last qs = (if e then append_text a (last (collected c)) else new_part ''reasoning'' a None (Some s))"
      unfolding qs_def by (rule extended_twice(3) [OF ne])
    then have "same_step (last qs) (Some s)" using st same_step_new [OF assms(3)] by simp
    then show ?thesis using ex unfolding extends_reasoning_def c1(1,2) by (simp add: open_part_index_def ids_meet)
  qed
  moreover have "extended_by ''reasoning'' b (Some s) True qs = extended_by ''reasoning'' (a @ b) (Some s) e (collected c)"
    unfolding qs_def by (rule extended_twice(1) [OF ne])
  moreover have "length (extended_by ''reasoning'' (a @ b) (Some s) e (collected c)) = length qs"
    unfolding qs_def by (rule extended_twice(2) [OF ne])
  ultimately have "appendReasoning b pid (Some s) c1 = appendReasoning (a @ b) pid (Some s) c"
    unfolding appendReasoning_eq [of b] appendReasoning_eq [of "a @ b"] e_def [symmetric] Let_def c1(1)
    by (cases pid) (simp_all add: c1(3) ids_again or_else_def)
  then show ?thesis using assms(1,2) by (simp add: reasoning_text c1_def)
qed

section \<open>What commutes with a delivery\<close>

lemma update_elsewhere:
  assumes "n < length ps" "\<not> is_part t (ps ! n)" "\<not> is_part t p"
  shows "open_part_index t (ps[n := p]) = open_part_index t ps"
    "open_part_index t ps \<noteq> None \<Longrightarrow> last (ps[n := p]) = last ps"
    "(e \<Longrightarrow> open_part_index t ps \<noteq> None) \<Longrightarrow> extended_by t x st e (ps[n := p]) = (extended_by t x st e ps)[n := p]"
proof -
  have l: "last (ps[n := p]) = (if n = length ps - 1 then p else last ps)"
    using assms(1) by (subst last_list_update) auto
  have ps: "ps \<noteq> []" "last ps = ps ! (length ps - 1)" using assms(1) by (cases ps; simp add: last_conv_nth)+
  show "open_part_index t (ps[n := p]) = open_part_index t ps"
    using assms ps l by (auto simp: open_part_index_def)
  have o: "n \<noteq> length ps - 1" if "open_part_index t ps \<noteq> None"
    using that assms(2) ps by (auto simp: open_part_index_def split: if_splits)
  then show "open_part_index t ps \<noteq> None \<Longrightarrow> last (ps[n := p]) = last ps" using l by simp
  then show "(e \<Longrightarrow> open_part_index t ps \<noteq> None) \<Longrightarrow> extended_by t x st e (ps[n := p]) = (extended_by t x st e ps)[n := p]"
    using o assms(1) by (auto simp: extended_by_def list_update_swap list_update_append)
qed

lemma length_extended: "length (extended_by t x st e ps) = (if e then length ps else Suc (length ps))"
  by (simp add: extended_by_def)

lemma deliver_elsewhere:
  assumes "x \<noteq> []" "pendingMetadata (textParts c) = []" "n < length (collected c)"
    "\<not> is_part ''text'' (collected c ! n)" "\<not> is_part ''text'' p"
  shows "deliver_text x pid None st (c\<lparr>collected := (collected c)[n := p]\<rparr>) =
    (deliver_text x pid None st c)\<lparr>collected := (collected (deliver_text x pid None st c))[n := p]\<rparr>"
proof -
  note u = update_elsewhere [OF assms(3-5)]
  have e: "extends_text ((collected c)[n := p]) (textParts c) pid st = extends_text (collected c) (textParts c) pid st"
    using u(1,2) by (auto simp: extends_text_def)
  have "extended_by ''text'' x st (extends_text (collected c) (textParts c) pid st) ((collected c)[n := p]) =
      (extended_by ''text'' x st (extends_text (collected c) (textParts c) pid st) (collected c))[n := p]"
    by (rule u(3)) (simp add: extends_text_def)
  then show ?thesis using assms(1,2) by (simp add: deliver_text Let_def e)
qed

lemma reasoning_elsewhere:
  assumes "x \<noteq> []" "n < length (collected c)" "\<not> is_part ''reasoning'' (collected c ! n)" "\<not> is_part ''reasoning'' p"
  shows "reasoning x pid None st (c\<lparr>collected := (collected c)[n := p]\<rparr>) =
    (reasoning x pid None st c)\<lparr>collected := (collected (reasoning x pid None st c))[n := p]\<rparr>"
proof -
  note u = update_elsewhere [OF assms(2-4)]
  have e: "extends_reasoning (c\<lparr>collected := (collected c)[n := p]\<rparr>) pid st = extends_reasoning c pid st"
    using u(1,2) by (auto simp: extends_reasoning_def)
  have "extended_by ''reasoning'' x st (extends_reasoning c pid st) ((collected c)[n := p]) =
      (extended_by ''reasoning'' x st (extends_reasoning c pid st) (collected c))[n := p]"
    by (rule u(3)) (simp add: extends_reasoning_def)
  then show ?thesis using assms(1) unfolding reasoning_text [OF assms(1)] appendReasoning_eq Let_def e
    by (cases pid) simp_all
qed

lemma settle_tool_open:
  assumes "i \<notin> set (settledToolCallIds c)" "map_of (pendingToolIndexes c) i = Some n"
  shows "settle_tool i p c = (c\<lparr>collected := (collected c)[n := p]\<rparr>)\<lparr>settledToolCallIds := i # settledToolCallIds c,
    pendingToolIndexes := map_delete (pendingToolIndexes c) i\<rparr>"
  using assms by (simp add: settle_tool_def)

lemma deliver_fields [simp]:
  "settledToolCallIds (deliver_text x pid md s c) = settledToolCallIds c" "pendingToolIndexes (deliver_text x pid md s c) = pendingToolIndexes c"
  "reasoningPartIndexes (deliver_text x pid md s c) = reasoningPartIndexes c"
  by (simp_all add: deliver_text_def) (simp add: collector_text_def split: prod.splits)

lemma delivery_of_tools:
  "x \<noteq> [] \<Longrightarrow> pendingMetadata (textParts c) = [] \<Longrightarrow>
   deliver_text x pid None st (c\<lparr>settledToolCallIds := a, pendingToolIndexes := b\<rparr>) =
     (deliver_text x pid None st c)\<lparr>settledToolCallIds := a, pendingToolIndexes := b\<rparr>"
  "x \<noteq> [] \<Longrightarrow> reasoning x pid None st (c\<lparr>settledToolCallIds := a, pendingToolIndexes := b\<rparr>) =
     (reasoning x pid None st c)\<lparr>settledToolCallIds := a, pendingToolIndexes := b\<rparr>"
  by (simp add: deliver_text Let_def)
    (cases pid; simp add: reasoning_text appendReasoning_eq Let_def extends_reasoning_def)

text \<open>A settlement fills its reservation wherever the stream has gone on to.\<close>

lemma settle_commutes:
  assumes "collector_ok c" "pendingMetadata (textParts c) = []" "x \<noteq> []" "i \<notin> set (settledToolCallIds c)"
    "map_of (pendingToolIndexes c) i = Some n" "\<not> plain p"
  shows "deliver_text x pid None st (settle_tool i p c) = settle_tool i p (deliver_text x pid None st c)"
    "reasoning x pid None st (settle_tool i p c) = settle_tool i p (reasoning x pid None st c)"
proof -
  have n: "n < length (collected c)" "collected c ! n = pending_tool i"
    using assms(1,5) by (auto simp: collector_ok_def pending_ok_def)
  have np: "\<not> is_part t (collected c ! n)" "\<not> is_part ''text'' p" "\<not> is_part ''reasoning'' p" for t
    using n(2) assms(6) by (auto simp: plain_def)
  note s = settle_tool_open [OF assms(4,5)]
  have "settle_tool i p (deliver_text x pid None st c) = ((deliver_text x pid None st c)\<lparr>collected := (collected (deliver_text x pid None st c))[n := p]\<rparr>)
      \<lparr>settledToolCallIds := i # settledToolCallIds c, pendingToolIndexes := map_delete (pendingToolIndexes c) i\<rparr>"
    using assms(4,5) by (simp add: settle_tool_open [where n = n])
  then show "deliver_text x pid None st (settle_tool i p c) = settle_tool i p (deliver_text x pid None st c)"
    unfolding s using assms(2,3) n np by (simp add: delivery_of_tools deliver_elsewhere)
  have "settle_tool i p (reasoning x pid None st c) = ((reasoning x pid None st c)\<lparr>collected := (collected (reasoning x pid None st c))[n := p]\<rparr>)
      \<lparr>settledToolCallIds := i # settledToolCallIds c, pendingToolIndexes := map_delete (pendingToolIndexes c) i\<rparr>"
    using assms(4,5) by (simp add: settle_tool_open [where n = n])
  then show "reasoning x pid None st (settle_tool i p c) = settle_tool i p (reasoning x pid None st c)"
    unfolding s using assms(3) n np by (simp add: delivery_of_tools reasoning_elsewhere)
qed

lemma bind_named_commutes:
  assumes "collector_ok c" "pendingMetadata (textParts c) = []" "x \<noteq> []"
  shows "bind_reasoning (Some q) md (deliver_text x pid None st c) = deliver_text x pid None st (bind_reasoning (Some q) md c)"
proof (cases "md = None \<or> map_of (reasoningPartIndexes c) q = None")
  case True
  then show ?thesis by (auto simp: bind_reasoning_def split: option.splits)
next
  case False
  then obtain m i where m: "md = Some m" "map_of (reasoningPartIndexes c) q = Some i" by auto
  then have i: "i < length (collected c)" "is_part ''reasoning'' (collected c ! i)"
    using assms(1) by (auto simp: collector_ok_def indexes_ok_def)
  have nt: "\<not> is_part ''text'' (collected c ! i)" using is_part_kind [OF i(2)] by simp
  have k: "keeps (collected c) (collected (deliver_text x pid None st c))"
    using collector_text_ok(3) [OF assms(1)] by (simp add: deliver_text_def)
  then have j: "i < length (collected (deliver_text x pid None st c))" "is_part ''reasoning'' (collected (deliver_text x pid None st c) ! i)"
    using i same_kind_part by (auto simp: keeps_def)
  have same: "collected (deliver_text x pid None st c) ! i = collected c ! i"
  proof -
    have "i \<noteq> length (collected c) - 1" if "open_part_index ''text'' (collected c) \<noteq> None"
      using that nt by (auto simp: open_part_index_def last_conv_nth split: if_splits)
    then show ?thesis using assms(2,3) i(1)
      by (auto simp: deliver_text Let_def extended_by_def nth_append extends_text_def)
  qed
  show ?thesis
    using m i j deliver_elsewhere [OF assms(3,2) i(1) nt, of "set_metadata m (collected c ! i)" pid st] nt
    by (simp add: bind_reasoning_def same)
qed

section \<open>The log replays what the collector was told\<close>

abbreviation waiting_text :: "recorder \<Rightarrow> jstr" where
  "waiting_text r \<equiv> db_buffer (r_deltas r)"

abbreviation waiting_reasoning :: "recorder \<Rightarrow> jstr" where
  "waiting_reasoning r \<equiv> db_buffer (r_reasoningDeltas r)"

abbreviation rebuilt_collector :: "replay_env \<Rightarrow> jsnum \<Rightarrow> recorder \<Rightarrow> part_collector" where
  "rebuilt_collector env offset r \<equiv> d_collector (rebuilt env offset r)"

text \<open>What the buffers still hold, delivered on top of what the log says.\<close>

definition caught_up :: "replay_env \<Rightarrow> jsnum \<Rightarrow> recorder \<Rightarrow> part_collector \<Rightarrow> part_collector" where
  "caught_up env offset r c =
     (let step = Some (reply_step env offset r) in
      if waiting_reasoning r \<noteq> [] then reasoning (waiting_reasoning r) (r_reasoningPartId r) None step c
      else if waiting_text r \<noteq> [] then deliver_text (waiting_text r) (r_textPartId r) None step c else c)"

definition stream_ok :: "replay_env \<Rightarrow> jsnum \<Rightarrow> recorder \<Rightarrow> bool" where
  "stream_ok env offset r \<longleftrightarrow>
     strip (r_collector r) = caught_up env offset r (rebuilt_collector env offset r) \<and>
     (waiting_text r = [] \<or> waiting_reasoning r = []) \<and>
     pendingMetadata (textParts (rebuilt_collector env offset r)) = [] \<and>
     reply_step env offset r \<noteq> NaN"

lemma stepOffset_apply [simp]: "stepOffset (applyEvent env e d) = stepOffset d"
  by (simp add: applyEvent_def Let_def applyStepCapReached_def applyToolRequested_def applyToolStarted_def
      applyToolCompleted_def split: option.splits)

lemma stepOffset_rebuilt [simp]: "stepOffset (rebuilt env offset r) = offset"
proof -
  have "stepOffset (reconstructDurableAssistant env evs offset) = offset" for evs
    by (induction evs rule: rev_induct) (simp_all add: new_durable_def)
  then show ?thesis by (simp add: rebuilt_def)
qed

lemma rebuilt_enqueue [simp]:
  "rebuilt env offset (enqueueEvent t p r) = applyEvent env \<lparr>ev_type = js t, ev_payload = JObj p\<rparr> (rebuilt env offset r)"
  by (simp add: rebuilt_def enqueueEvent_def)

lemma rebuilt_cong: "r_log r = r_log r' \<Longrightarrow> rebuilt env offset r = rebuilt env offset r'"
  by (simp add: rebuilt_def)

lemma rebuilt_update [simp]:
  "rebuilt env offset (r\<lparr>r_collector := x1\<rparr>) = rebuilt env offset r"
  "rebuilt env offset (r\<lparr>r_textPartId := x2\<rparr>) = rebuilt env offset r"
  "rebuilt env offset (r\<lparr>r_deltas := x3\<rparr>) = rebuilt env offset r"
  "rebuilt env offset (r\<lparr>r_reasoningPartId := x2\<rparr>) = rebuilt env offset r"
  "rebuilt env offset (r\<lparr>r_reasoningDeltas := x3\<rparr>) = rebuilt env offset r"
  "rebuilt env offset (r\<lparr>r_currentStepNumber := x4\<rparr>) = rebuilt env offset r"
  "rebuilt env offset (r\<lparr>r_openToolCalls := x5\<rparr>) = rebuilt env offset r"
  "rebuilt env offset (r\<lparr>r_pendingToolMetadata := x6\<rparr>) = rebuilt env offset r"
  "rebuilt env offset (r\<lparr>r_retainedMedia := x7\<rparr>) = rebuilt env offset r"
  by (simp_all add: rebuilt_def)

lemma rebuilt_ok: "durable_ok env (r_log r) (rebuilt env offset r)"
  by (simp add: rebuilt_def reconstruct_ok)

lemma rebuilt_collector_ok [simp]: "collector_ok (rebuilt_collector env offset r)"
  using rebuilt_ok by (simp add: durable_ok_def)

lemma get_delta [simp]:
  "eventPayloadString (JObj (delta_payload t pid n)) ''text'' = Some t" "eventPayloadString (JObj (delta_payload t pid n)) ''partId'' = pid"
  "eventProviderMetadata (JObj (delta_payload t pid n)) = None" "eventPayloadNumber (JObj (delta_payload t pid n)) ''stepNumber'' = Some n"
  "eventPayloadString (JObj (metadata_payload pid m n)) ''text'' = None" "eventPayloadString (JObj (metadata_payload pid m n)) ''partId'' = pid"
  "eventProviderMetadata (JObj (metadata_payload pid m n)) = Some m" "eventPayloadNumber (JObj (metadata_payload pid m n)) ''stepNumber'' = Some n"
  by (cases pid; simp add: delta_payload_def metadata_payload_def eventPayloadString_def eventProviderMetadata_def
      eventPayloadNumber_def get_prop_def)+

lemma or_empty_simps [simp]: "or_empty None = []" "or_empty (Some t) = t"
  by (simp_all add: or_empty_def)

lemma event_effects:
  "applyEvent env \<lparr>ev_type = js ''model.delta'', ev_payload = JObj (delta_payload t pid n)\<rparr> d =
     d\<lparr>d_collector := deliver_text t pid None (Some (js_add (nearest_num env) (stepOffset d) n)) (d_collector d)\<rparr>"
  "applyEvent env \<lparr>ev_type = js ''model.delta'', ev_payload = JObj (metadata_payload pid m n)\<rparr> d =
     d\<lparr>d_collector := deliver_text [] pid (Some m) (Some (js_add (nearest_num env) (stepOffset d) n)) (d_collector d)\<rparr>"
  "applyEvent env \<lparr>ev_type = js ''reasoning.delta'', ev_payload = JObj (delta_payload t pid n)\<rparr> d =
     d\<lparr>d_collector := reasoning t pid None (Some (js_add (nearest_num env) (stepOffset d) n)) (d_collector d)\<rparr>"
  "applyEvent env \<lparr>ev_type = js ''reasoning.delta'', ev_payload = JObj (metadata_payload pid m n)\<rparr> d =
     d\<lparr>d_collector := reasoning [] pid (Some m) (Some (js_add (nearest_num env) (stepOffset d) n)) (d_collector d)\<rparr>"
  by (simp_all add: applyEvent_def stepFrom_def deliver_text_def)

text \<open>What a step of the stream leaves alone: the calls of the attempt and of the log.\<close>

definition stream_only :: "replay_env \<Rightarrow> jsnum \<Rightarrow> recorder \<Rightarrow> recorder \<Rightarrow> bool" where
  "stream_only env offset r r' \<longleftrightarrow>
     r_openToolCalls r' = r_openToolCalls r \<and> r_pendingToolMetadata r' = r_pendingToolMetadata r \<and>
     r_settledToolCallIds r' = r_settledToolCallIds r \<and> r_retainedMedia r' = r_retainedMedia r \<and>
     rebuilt env offset r' = (rebuilt env offset r)\<lparr>d_collector := rebuilt_collector env offset r'\<rparr>"

lemma stream_only_trans: "stream_only env offset r r1 \<Longrightarrow> stream_only env offset r1 r2 \<Longrightarrow> stream_only env offset r r2"
  by (simp add: stream_only_def) (metis durable.surjective durable.update_convs(1))

lemma stream_only_refl [simp]: "stream_only env offset r r"
  by (simp add: stream_only_def)

lemma flush_text_eq:
  "flush_text r = (if waiting_text r = [] then r
     else enqueueEvent ''model.delta'' (delta_payload (waiting_text r) (r_textPartId r) (r_currentStepNumber r)) (r\<lparr>r_deltas := createDeltaBuffer\<rparr>))"
  by (simp add: flush_text_def flush_delta_def persistDelta_def)

lemma flush_reasoning_eq:
  "flush_reasoning r = (if waiting_reasoning r = [] then r
     else enqueueEvent ''reasoning.delta'' (delta_payload (waiting_reasoning r) (r_reasoningPartId r) (r_currentStepNumber r))
       (r\<lparr>r_reasoningDeltas := createDeltaBuffer\<rparr>))"
  by (simp add: flush_reasoning_def flush_delta_def persistReasoning_def)

lemma empty_buffer [simp]: "db_buffer createDeltaBuffer = []"
  by (simp add: createDeltaBuffer_def)

lemma enqueue_fields [simp]:
  "r_collector (enqueueEvent t p r) = r_collector r" "r_textPartId (enqueueEvent t p r) = r_textPartId r"
  "r_deltas (enqueueEvent t p r) = r_deltas r" "r_reasoningPartId (enqueueEvent t p r) = r_reasoningPartId r"
  "r_reasoningDeltas (enqueueEvent t p r) = r_reasoningDeltas r" "r_currentStepNumber (enqueueEvent t p r) = r_currentStepNumber r"
  "r_openToolCalls (enqueueEvent t p r) = r_openToolCalls r" "r_pendingToolMetadata (enqueueEvent t p r) = r_pendingToolMetadata r"
  "r_settledToolCallIds (enqueueEvent t p r) = r_settledToolCallIds r" "r_retainedMedia (enqueueEvent t p r) = r_retainedMedia r"
  by (simp_all add: enqueueEvent_def)

lemma flush_fields [simp]:
  "r_collector (flush_text r) = r_collector r" "r_textPartId (flush_text r) = r_textPartId r"
  "r_reasoningPartId (flush_text r) = r_reasoningPartId r" "r_currentStepNumber (flush_text r) = r_currentStepNumber r"
  "r_reasoningDeltas (flush_text r) = r_reasoningDeltas r" "waiting_text (flush_text r) = []"
  "r_collector (flush_reasoning r) = r_collector r" "r_textPartId (flush_reasoning r) = r_textPartId r"
  "r_reasoningPartId (flush_reasoning r) = r_reasoningPartId r" "r_currentStepNumber (flush_reasoning r) = r_currentStepNumber r"
  "r_deltas (flush_reasoning r) = r_deltas r" "waiting_reasoning (flush_reasoning r) = []"
  by (simp_all add: flush_text_eq flush_reasoning_eq)

lemma flush_only [simp]: "stream_only env offset r (flush_text r)" "stream_only env offset r (flush_reasoning r)"
  by (simp_all add: stream_only_def flush_text_eq flush_reasoning_eq event_effects)

lemma pending_kept:
  "pendingMetadata (textParts c) = [] \<Longrightarrow> x \<noteq> [] \<Longrightarrow> pendingMetadata (textParts (deliver_text x pid None st c)) = []"
  "textParts (reasoning x pid md st c) = textParts c"
  by (simp add: deliver_text Let_def track_text_def)
    (simp add: reasoning_def bind_reasoning_def appendReasoning_def Let_def split: option.splits)

lemma reply_step_cong: "r_currentStepNumber r = r_currentStepNumber r' \<Longrightarrow> reply_step env offset r = reply_step env offset r'"
  by (simp add: reply_step_def)

lemma flush_text_ok:
  assumes "stream_ok env offset r"
  shows "stream_ok env offset (flush_text r)"
proof (cases "waiting_text r = []")
  case True
  then show ?thesis using assms by (simp add: flush_text_eq)
next
  case False
  then have "waiting_reasoning r = []" using assms by (auto simp: stream_ok_def)
  then show ?thesis using False assms
    by (simp add: stream_ok_def caught_up_def flush_text_eq event_effects reply_step_def pending_kept)
qed

lemma flush_reasoning_ok:
  assumes "stream_ok env offset r"
  shows "stream_ok env offset (flush_reasoning r)"
proof (cases "waiting_reasoning r = []")
  case True
  then show ?thesis using assms by (simp add: flush_reasoning_eq)
next
  case False
  then have "waiting_text r = []" using assms by (auto simp: stream_ok_def)
  then show ?thesis using False assms
    by (simp add: stream_ok_def caught_up_def flush_reasoning_eq event_effects reply_step_def pending_kept)
qed

lemma flush_both_ok:
  assumes "stream_ok env offset r"
  shows "stream_ok env offset (flush_both r)" "waiting_text (flush_both r) = []" "waiting_reasoning (flush_both r) = []"
    "r_collector (flush_both r) = r_collector r" "r_currentStepNumber (flush_both r) = r_currentStepNumber r"
    "stream_only env offset r (flush_both r)" "strip (r_collector r) = rebuilt_collector env offset (flush_both r)"
proof -
  show s: "stream_ok env offset (flush_both r)" using assms by (simp add: flush_both_def flush_text_ok flush_reasoning_ok)
  show w: "waiting_text (flush_both r) = []" "waiting_reasoning (flush_both r) = []" by (simp_all add: flush_both_def)
  show c: "r_collector (flush_both r) = r_collector r" "r_currentStepNumber (flush_both r) = r_currentStepNumber r"
    by (simp_all add: flush_both_def)
  show "stream_only env offset r (flush_both r)"
    unfolding flush_both_def using flush_only stream_only_trans by blast
  show "strip (r_collector r) = rebuilt_collector env offset (flush_both r)"
    using s w c by (simp add: stream_ok_def caught_up_def)
qed

lemma push_delta_cases:
  "push_delta n ms t now b = (b', out) \<Longrightarrow>
     out = None \<and> db_buffer b' = db_buffer b @ t \<or> out = Some (db_buffer b @ t) \<and> db_buffer b' = []"
  by (auto simp: push_delta_def Let_def split: if_splits)

lemma push_text_ok:
  assumes "strip (r_collector r) = deliver_text (waiting_text r @ t) (r_textPartId r) None (Some (reply_step env offset r)) (rebuilt_collector env offset r)"
    "waiting_reasoning r = []" "t \<noteq> []" "pendingMetadata (textParts (rebuilt_collector env offset r)) = []" "reply_step env offset r \<noteq> NaN"
  shows "stream_ok env offset (push_text_delta t now r) \<and> stream_only env offset r (push_text_delta t now r) \<and>
    r_collector (push_text_delta t now r) = r_collector r \<and> r_currentStepNumber (push_text_delta t now r) = r_currentStepNumber r"
proof -
  obtain b out where p: "push_delta DEFAULT_DELTA_FLUSH_CHARS DEFAULT_DELTA_FLUSH_MS t (Some now) (r_deltas r) = (b, out)"
    by (metis surj_pair)
  from push_delta_cases [OF p] show ?thesis
  proof
    assume "out = None \<and> db_buffer b = waiting_text r @ t"
    then show ?thesis using assms
      by (simp add: push_text_delta_def p persistDelta_def stream_ok_def caught_up_def reply_step_def stream_only_def)
  next
    assume "out = Some (waiting_text r @ t) \<and> db_buffer b = []"
    then show ?thesis using assms
      by (simp add: push_text_delta_def p persistDelta_def stream_ok_def caught_up_def reply_step_def stream_only_def
          event_effects pending_kept)
  qed
qed

lemma push_reasoning_ok:
  assumes "strip (r_collector r) = reasoning (waiting_reasoning r @ t) (r_reasoningPartId r) None (Some (reply_step env offset r)) (rebuilt_collector env offset r)"
    "waiting_text r = []" "pendingMetadata (textParts (rebuilt_collector env offset r)) = []" "reply_step env offset r \<noteq> NaN"
  shows "stream_ok env offset (push_reasoning_delta t now r) \<and> stream_only env offset r (push_reasoning_delta t now r)"
proof -
  obtain b out where p: "push_delta DEFAULT_DELTA_FLUSH_CHARS DEFAULT_DELTA_FLUSH_MS t (Some now) (r_reasoningDeltas r) = (b, out)"
    by (metis surj_pair)
  from push_delta_cases [OF p] show ?thesis
  proof
    assume "out = None \<and> db_buffer b = waiting_reasoning r @ t"
    then have "push_reasoning_delta t now r = r\<lparr>r_reasoningDeltas := b\<rparr>" "db_buffer b = waiting_reasoning r @ t"
      by (simp_all add: push_reasoning_delta_def p persistReasoning_def)
    then show ?thesis using assms
      by (cases "waiting_reasoning r @ t = []")
        (simp_all add: stream_ok_def caught_up_def Let_def reply_step_def stream_only_def)
  next
    assume "out = Some (waiting_reasoning r @ t) \<and> db_buffer b = []"
    then show ?thesis using assms
      by (simp add: push_reasoning_delta_def p persistReasoning_def stream_ok_def caught_up_def reply_step_def stream_only_def
          event_effects pending_kept)
  qed
qed

lemma pending_deliver_bound:
  "strip c' = deliver_text x pid md st c \<Longrightarrow> pendingMetadata (textParts (deliver_text x pid md st c)) = []"
  by (metis strip_simps(7))

lemma text_metadata_ok:
  assumes "rebuilt_collector env offset r = c" "strip (r_collector r) = deliver_text [] pid (Some m) (Some (reply_step env offset r)) c"
    "waiting_text r = []" "waiting_reasoning r = []" "reply_step env offset r \<noteq> NaN"
  shows "stream_ok env offset (persistTextMetadata pid m r) \<and> stream_only env offset r (persistTextMetadata pid m r)"
  using assms pending_deliver_bound [OF assms(2)]
  by (simp add: persistTextMetadata_def stream_ok_def caught_up_def reply_step_def stream_only_def event_effects)

text \<open>Before a delta of text is pushed, the buffer holds text of its own part alone.\<close>

definition text_turn :: "jstr option \<Rightarrow> recorder \<Rightarrow> recorder" where
  "text_turn pid r =
     (let r1 = (flush_reasoning r)\<lparr>r_reasoningPartId := None\<rparr> in
      if pid \<noteq> r_textPartId r1 then (flush_text r1)\<lparr>r_textPartId := pid\<rparr> else r1)"

lemma text_turn_ok:
  assumes "stream_ok env offset r"
  shows "waiting_reasoning (text_turn pid r) = []" "r_textPartId (text_turn pid r) = pid"
    "r_collector (text_turn pid r) = r_collector r" "r_currentStepNumber (text_turn pid r) = r_currentStepNumber r"
    "stream_only env offset r (text_turn pid r)"
    "strip (r_collector r) = (if waiting_text (text_turn pid r) = [] then rebuilt_collector env offset (text_turn pid r)
       else deliver_text (waiting_text (text_turn pid r)) pid None (Some (reply_step env offset r)) (rebuilt_collector env offset (text_turn pid r)))"
    "pendingMetadata (textParts (rebuilt_collector env offset (text_turn pid r))) = []"
proof -
  define r1 where "r1 = (flush_reasoning r)\<lparr>r_reasoningPartId := None\<rparr>"
  have "stream_ok env offset (flush_reasoning r)" by (rule flush_reasoning_ok) (fact assms)
  then have s1: "stream_ok env offset r1" and w1: "waiting_reasoning r1 = []"
    by (simp_all add: r1_def stream_ok_def caught_up_def reply_step_def)
  have so1: "stream_only env offset r r1"
    using flush_only(2) [of env offset r] by (simp add: r1_def stream_only_def)
  have t: "text_turn pid r = (if pid \<noteq> r_textPartId r1 then (flush_text r1)\<lparr>r_textPartId := pid\<rparr> else r1)"
    by (simp add: text_turn_def r1_def)
  have sf: "stream_ok env offset (flush_text r1)" by (rule flush_text_ok) (fact s1)
  have w2: "waiting_reasoning (flush_text r1) = []" using w1 by simp
  have f1: "r_collector r1 = r_collector r" "r_currentStepNumber r1 = r_currentStepNumber r" by (simp_all add: r1_def)
  have sot: "stream_only env offset r (flush_text r1)" using so1 flush_only(1) stream_only_trans by blast
  show "waiting_reasoning (text_turn pid r) = []" "r_textPartId (text_turn pid r) = pid"
    "r_collector (text_turn pid r) = r_collector r" "r_currentStepNumber (text_turn pid r) = r_currentStepNumber r"
    using w1 f1 by (simp_all add: t)
  show "stream_only env offset r (text_turn pid r)"
    using so1 sot by (simp add: t stream_only_def)
  show "strip (r_collector r) = (if waiting_text (text_turn pid r) = [] then rebuilt_collector env offset (text_turn pid r)
       else deliver_text (waiting_text (text_turn pid r)) pid None (Some (reply_step env offset r)) (rebuilt_collector env offset (text_turn pid r)))"
    using s1 w1 sf w2 f1
    by (cases "waiting_text r1 = []") (simp_all add: t stream_ok_def caught_up_def Let_def reply_step_def)
  show "pendingMetadata (textParts (rebuilt_collector env offset (text_turn pid r))) = []"
    using s1 sf by (simp add: t stream_ok_def)
qed

lemma onTextDelta_ok:
  assumes "stream_ok env offset r" "collector_ok (r_collector r)"
  shows "stream_ok env offset (onTextDelta env offset now t pid md r) \<and> stream_only env offset r (onTextDelta env offset now t pid md r)"
proof (cases "t = []")
  case True
  show ?thesis
  proof (cases md)
    case None
    then show ?thesis using assms(1) True by (simp add: onTextDelta_def)
  next
    case (Some m)
    let ?r1 = "flush_both r" and ?st = "Some (reply_step env offset r)"
    note f = flush_both_ok [OF assms(1)]
    obtain c bound where c: "collector_text [] pid (Some m) ?st (r_collector r) = (c, bound)" by (metis surj_pair)
    note d = deliver_nothing [OF assms(2) c]
    have st: "reply_step env offset (?r1\<lparr>r_collector := c\<rparr>) = reply_step env offset r" "reply_step env offset ?r1 = reply_step env offset r"
      using f(5) by (simp_all add: reply_step_def)
    have nan: "reply_step env offset r \<noteq> NaN" using assms(1) by (simp add: stream_ok_def)
    have o: "stream_only env offset r (?r1\<lparr>r_collector := c\<rparr>)" using f(6) by (simp add: stream_only_def)
    have e: "onTextDelta env offset now t pid md r =
        (case bound of None \<Rightarrow> ?r1\<lparr>r_collector := c\<rparr> | Some b \<Rightarrow> persistTextMetadata pid b (?r1\<lparr>r_collector := c\<rparr>))"
      using True Some c f(4,5) by (simp add: onTextDelta_def Let_def)
    show ?thesis
    proof (cases bound)
      case None
      then show ?thesis using d f st nan o by (simp add: e stream_ok_def caught_up_def)
    next
      case (Some b)
      have "stream_ok env offset (persistTextMetadata pid b (?r1\<lparr>r_collector := c\<rparr>)) \<and>
          stream_only env offset (?r1\<lparr>r_collector := c\<rparr>) (persistTextMetadata pid b (?r1\<lparr>r_collector := c\<rparr>))"
        using d f(2,3,7) Some st nan by (intro text_metadata_ok) simp_all
      then show ?thesis using o stream_only_trans Some by (auto simp: e)
    qed
  qed
next
  case False
  let ?st = "Some (reply_step env offset r)"
  obtain c bound where c: "collector_text t pid md ?st (r_collector r) = (c, bound)" by (metis surj_pair)
  note d = deliver_bound [OF False c]
  define r2 where "r2 = (text_turn pid r)\<lparr>r_collector := c\<rparr>"
  note tt = text_turn_ok [OF assms(1), of pid]
  have comm: "text_turn pid (r\<lparr>r_collector := c\<rparr>) = r2"
    by (simp add: r2_def text_turn_def Let_def flush_reasoning_eq flush_text_eq enqueueEvent_def)
  have st: "reply_step env offset r2 = reply_step env offset r" using tt(4) by (simp add: r2_def reply_step_def)
  have nan: "reply_step env offset r \<noteq> NaN" using assms(1) by (simp add: stream_ok_def)
  have merged: "deliver_text t pid None ?st (strip (r_collector r)) = deliver_text (waiting_text r2 @ t) (r_textPartId r2) None ?st (rebuilt_collector env offset r2)"
    using tt(2,6,7) False nan deliver_merge [of "waiting_text (text_turn pid r)" t "reply_step env offset r" "rebuilt_collector env offset (text_turn pid r)" pid]
    by (auto simp: r2_def)
  define r3 where "r3 = push_text_delta t now r2"
  have e: "onTextDelta env offset now t pid md r = (case bound of None \<Rightarrow> r3 | Some b \<Rightarrow> persistTextMetadata pid b (flush_text r3))"
    using False c comm by (cases bound) (simp_all add: onTextDelta_def Let_def text_turn_def r3_def)
  have o2: "stream_only env offset r r2" using tt(5) by (simp add: r2_def stream_only_def)
  have push: "stream_ok env offset (r3\<lparr>r_collector := x\<rparr>) \<and> stream_only env offset r (r3\<lparr>r_collector := x\<rparr>) \<and> r3\<lparr>r_collector := c\<rparr> = r3 \<and>
      r_currentStepNumber r3 = r_currentStepNumber r2"
    if x: "strip x = deliver_text t pid None ?st (strip (r_collector r))" for x
  proof -
    have pc: "push_text_delta t now (r2\<lparr>r_collector := y\<rparr>) = r3\<lparr>r_collector := y\<rparr>" for y
      by (simp add: r3_def push_text_delta_def persistDelta_def enqueueEvent_def split: prod.splits option.splits)
    have "stream_ok env offset (push_text_delta t now (r2\<lparr>r_collector := x\<rparr>)) \<and>
        stream_only env offset (r2\<lparr>r_collector := x\<rparr>) (push_text_delta t now (r2\<lparr>r_collector := x\<rparr>)) \<and>
        r_collector (push_text_delta t now (r2\<lparr>r_collector := x\<rparr>)) = r_collector (r2\<lparr>r_collector := x\<rparr>) \<and>
        r_currentStepNumber (push_text_delta t now (r2\<lparr>r_collector := x\<rparr>)) = r_currentStepNumber (r2\<lparr>r_collector := x\<rparr>)"
      using merged x False tt(1,2,7) st nan by (intro push_text_ok) (simp_all add: r2_def reply_step_def)
    moreover have "r3\<lparr>r_collector := c\<rparr> = r3"
      using pc [of c] by (simp add: r2_def) (simp add: r3_def r2_def)
    ultimately show ?thesis using o2 stream_only_trans [of env offset r r2]
      unfolding pc by (simp add: stream_only_def r2_def)
  qed
  show ?thesis
  proof (cases bound)
    case None
    then have "strip c = deliver_text t pid None ?st (strip (r_collector r))" using d by simp
    from push [OF this] show ?thesis unfolding e None option.case by metis
  next
    case (Some b)
    define x where "x = deliver_text t pid None ?st (strip (r_collector r))"
    have "pendingMetadata (textParts x) = []" using False by (simp add: x_def pending_kept)
    then have x: "strip x = x" by (rule strip_id)
    note p = push [of x, unfolded x, OF x_def]
    have ft: "flush_text (r3\<lparr>r_collector := y\<rparr>) = (flush_text r3)\<lparr>r_collector := y\<rparr>" for y
      by (simp add: flush_text_eq enqueueEvent_def)
    have s: "stream_ok env offset ((flush_text r3)\<lparr>r_collector := x\<rparr>)" "waiting_text (flush_text r3) = []"
      using flush_text_ok [of env offset "r3\<lparr>r_collector := x\<rparr>"] p ft by simp_all
    have o: "stream_only env offset r (flush_text r3)"
      using p stream_only_trans [OF _ flush_only(1) [of env offset r3]] by (simp add: stream_only_def)
    have w: "waiting_reasoning (flush_text r3) = []"
    proof -
      have "r_reasoningDeltas r3 = r_reasoningDeltas r2"
        by (simp add: r3_def push_text_delta_def persistDelta_def split: prod.splits option.splits)
      then show ?thesis using tt(1) by (simp add: r2_def)
    qed
    have rc: "rebuilt_collector env offset (flush_text r3) = x"
      using s w by (simp add: stream_ok_def caught_up_def x)
    have cf: "r_collector (flush_text r3) = c" using p by (metis flush_fields(1) recorder.select_convs(1) recorder.surjective recorder.update_convs(1))
    have st3: "reply_step env offset (flush_text r3) = reply_step env offset r" using p st by (simp add: reply_step_def)
    have "stream_ok env offset (persistTextMetadata pid b (flush_text r3)) \<and>
        stream_only env offset (flush_text r3) (persistTextMetadata pid b (flush_text r3))"
      using d Some rc cf s(2) w st3 nan by (intro text_metadata_ok) (simp_all add: x_def)
    then show ?thesis using o stream_only_trans Some by (auto simp: e)
  qed
qed

lemma stream_collector_ok: "stream_ok env offset r \<Longrightarrow> collector_ok (r_collector r)"
proof -
  assume s: "stream_ok env offset r"
  have "collector_ok (caught_up env offset r (rebuilt_collector env offset r))"
    using reasoning_ok [of "rebuilt_collector env offset r"] collector_text_ok(1) [of "rebuilt_collector env offset r"]
    by (simp add: caught_up_def Let_def deliver_text_def)
  then show ?thesis using s by (metis collector_ok_strip stream_ok_def)
qed

text \<open>A metadata delivery names the part it belongs to, so it may overtake text that is still buffered.\<close>

lemma reasoning_metadata_ok:
  assumes s: "stream_ok env offset r" and q: "pid = Some q"
  shows "stream_ok env offset (onReasoningDelta env offset now [] pid (Some m) r) \<and>
    stream_only env offset r (onReasoningDelta env offset now [] pid (Some m) r)"
proof -
  let ?st = "Some (reply_step env offset r)" and ?starts = "startsReasoningPart pid (Some m) (r_collector r)"
  define r1 where "r1 = flush_reasoning (if ?starts then flush_text r else r)"
  have s1: "stream_ok env offset r1" using s by (simp add: r1_def flush_text_ok flush_reasoning_ok)
  have o1: "stream_only env offset r r1"
    using stream_only_trans [OF flush_only(1) flush_only(2)] by (simp add: r1_def)
  have f: "r_collector r1 = r_collector r" "r_currentStepNumber r1 = r_currentStepNumber r" "waiting_reasoning r1 = []"
    by (simp_all add: r1_def)
  have st: "reply_step env offset r1 = reply_step env offset r" using f(2) by (simp add: reply_step_def)
  have w: "waiting_text r1 = []" if ?starts using that by (simp add: r1_def)
  let ?cd = "rebuilt_collector env offset r1"
  have c: "strip (r_collector r) = (if waiting_text r1 = [] then ?cd else deliver_text (waiting_text r1) (r_textPartId r1) None ?st ?cd)"
    using s1 f st by (simp add: stream_ok_def caught_up_def)
  have p: "pendingMetadata (textParts ?cd) = []" "reply_step env offset r \<noteq> NaN" using s1 s by (simp_all add: stream_ok_def)
  define r2 where "r2 = (persistReasoningMetadata pid m r1)\<lparr>r_collector := reasoning [] pid (Some m) ?st (r_collector r1)\<rparr>"
  have e: "onReasoningDelta env offset now [] pid (Some m) r = r2"
    by (simp add: onReasoningDelta_def Let_def r2_def r1_def persistReasoningMetadata_def)
  have cd': "rebuilt env offset r2 = (rebuilt env offset r1)\<lparr>d_collector := reasoning [] pid (Some m) ?st ?cd\<rparr>"
    using st by (simp add: r2_def persistReasoningMetadata_def event_effects reply_step_def)
  have f2: "waiting_text r2 = waiting_text r1" "waiting_reasoning r2 = []" "r_textPartId r2 = r_textPartId r1"
    "reply_step env offset r2 = reply_step env offset r" "r_collector r2 = reasoning [] pid (Some m) ?st (r_collector r)"
    using f by (simp_all add: r2_def persistReasoningMetadata_def reply_step_def)
  have "strip (r_collector r2) = (if waiting_text r1 = [] then reasoning [] pid (Some m) ?st ?cd
      else deliver_text (waiting_text r1) (r_textPartId r1) None ?st (reasoning [] pid (Some m) ?st ?cd))"
  proof (cases "waiting_text r1 = []")
    case True
    then show ?thesis using c f2(5) by simp
  next
    case False
    then have ns: "\<not> ?starts" using w by blast
    have nc: "\<not> startsReasoningPart pid (Some m) ?cd"
    proof -
      have "map_of (reasoningPartIndexes (strip (r_collector r))) q = map_of (reasoningPartIndexes ?cd) q"
        using c False by simp
      then show ?thesis using ns by (simp add: q startsReasoningPart_def)
    qed
    have "strip (r_collector r2) = bind_reasoning pid (Some m) (strip (r_collector r))"
      using ns by (simp add: f2(5) reasoning_def strip_bind_reasoning)
    also have "\<dots> = deliver_text (waiting_text r1) (r_textPartId r1) None ?st (bind_reasoning pid (Some m) ?cd)"
      using c False p(1) bind_named_commutes [of ?cd "waiting_text r1" q "Some m"] by (simp add: q)
    finally show ?thesis using False nc by (simp add: reasoning_def)
  qed
  then have "stream_ok env offset r2"
    using cd' f2 p pending_kept(2) by (simp add: stream_ok_def caught_up_def)
  moreover have "stream_only env offset r1 r2"
    using cd' by (simp add: stream_only_def r2_def persistReasoningMetadata_def)
  ultimately show ?thesis using e o1 stream_only_trans by metis
qed

lemma rename_empty:
  "stream_ok env offset r \<Longrightarrow> waiting_reasoning r = [] \<Longrightarrow> stream_ok env offset (r\<lparr>r_reasoningPartId := pid\<rparr>)"
  by (simp add: stream_ok_def caught_up_def reply_step_def)

lemma reasoning_delta_ok:
  assumes s: "stream_ok env offset r" and t: "t \<noteq> [] \<or> md = None"
  shows "stream_ok env offset (onReasoningDelta env offset now t pid md r) \<and>
    stream_only env offset r (onReasoningDelta env offset now t pid md r)"
proof -
  let ?st = "Some (reply_step env offset r)"
  define r1 where "r1 = (if pid \<noteq> r_reasoningPartId r then (flush_reasoning r)\<lparr>r_reasoningPartId := pid\<rparr> else r)"
  have "stream_ok env offset (flush_reasoning r)" by (rule flush_reasoning_ok) (fact s)
  then have s1: "stream_ok env offset r1" using s rename_empty by (simp add: r1_def)
  have o1: "stream_only env offset r r1"
    using flush_only(2) [of env offset r] by (simp add: r1_def stream_only_def)
  define r2 where "r2 = flush_text r1"
  have s2: "stream_ok env offset r2" unfolding r2_def by (rule flush_text_ok) (fact s1)
  have o2: "stream_only env offset r r2" unfolding r2_def using o1 flush_only(1) stream_only_trans by blast
  have f: "r_collector r2 = r_collector r" "r_currentStepNumber r2 = r_currentStepNumber r" "waiting_text r2 = []"
    "r_reasoningPartId r2 = pid"
    by (simp_all add: r2_def r1_def)
  have st: "reply_step env offset r2 = reply_step env offset r" using f(2) by (simp add: reply_step_def)
  have nan: "reply_step env offset r \<noteq> NaN" using s by (simp add: stream_ok_def)
  let ?cd = "rebuilt_collector env offset r2"
  have c: "strip (r_collector r) = reasoning (waiting_reasoning r2) pid None ?st ?cd"
    using s2 f st by (cases "waiting_reasoning r2 = []") (simp_all add: stream_ok_def caught_up_def Let_def)
  have m: "strip (reasoning t pid None ?st (r_collector r)) = reasoning (waiting_reasoning r2 @ t) pid None ?st ?cd"
    using c nan reasoning_merge [of "waiting_reasoning r2" t "reply_step env offset r" pid ?cd]
    by (cases "t = []"; cases "waiting_reasoning r2 = []") simp_all
  define r3 where "r3 = r2\<lparr>r_collector := reasoning t pid None ?st (r_collector r), r_textPartId := None\<rparr>"
  have "stream_ok env offset (push_reasoning_delta t now r3) \<and> stream_only env offset r3 (push_reasoning_delta t now r3)"
    using m f st nan s2 by (intro push_reasoning_ok) (simp_all add: r3_def stream_ok_def reply_step_def)
  moreover have "onReasoningDelta env offset now t pid md r = push_reasoning_delta t now r3"
  proof -
    have "r_collector r1 = r_collector r" by (simp add: r1_def)
    moreover have "flush_text (r1\<lparr>r_collector := x\<rparr>) = r2\<lparr>r_collector := x\<rparr>" for x
      by (simp add: r2_def flush_text_eq enqueueEvent_def)
    ultimately show ?thesis using t unfolding onReasoningDelta_def Let_def r1_def [symmetric] by (auto simp: r3_def)
  qed
  moreover have "stream_only env offset r r3" using o2 by (simp add: r3_def stream_only_def)
  ultimately show ?thesis using stream_only_trans by metis
qed

lemma onStepStart_ok:
  assumes s: "stream_ok env offset r" and n: "js_add (nearest_num env) offset n \<noteq> NaN"
  shows "stream_ok env offset (onStepStart n [] r) \<and> stream_only env offset r (onStepStart n [] r)"
proof -
  note f = flush_both_ok [OF s]
  have "stream_only env offset r (onStepStart n [] r)"
    using f(6) by (simp add: onStepStart_def stream_only_def)
  moreover have "stream_ok env offset (onStepStart n [] r)"
    using f n by (simp add: onStepStart_def stream_ok_def caught_up_def reply_step_def)
  ultimately show ?thesis by simp
qed

end
