(* ===== verification/Recorder_Replay.thy ===== *)
theory Recorder_Replay
  imports Run_Recorder
begin

text \<open>
  The log and the live reply agree: every step of an attempt keeps what the reader of the log rebuilds
  (\<^verbatim>\<open>reconstructDurableAssistant\<close>) equal to what the live collector holds, up to the deltas that are still
  buffered, and the calls it has open equal to the calls the attempt has open. The last section has the orders of
  events for which they differ.
\<close>

section \<open>The calls of the attempt and of the log\<close>

lemma map_of_opt_prop [simp]: "map_of (opt_prop k f v) (js k') = (if k = k' then map_option f v else None)"
  by (cases v) auto

lemma field_of [simp]: "eventPayloadField (JObj kvs) k = get_prop kvs (js k)"
  by simp

definition requested_payload :: "jstr \<Rightarrow> jstr \<Rightarrow> jsval \<Rightarrow> jsnum \<Rightarrow> obj option \<Rightarrow> jstr option \<Rightarrow> obj option \<Rightarrow> obj" where
  "requested_payload i name args n permission origin metadata =
     [(js ''toolCallId'', JStr i), (js ''toolName'', JStr name), (js ''input'', args), (js ''stepNumber'', JNum n)] @
     opt_prop ''permission'' JObj permission @ opt_prop ''origin'' JStr origin @ opt_prop ''providerMetadata'' JObj metadata"


lemma get_requested [simp]:
  "get_prop (requested_payload i name args n p org m) (js ''toolCallId'') = JStr i"
  "get_prop (requested_payload i name args n p org m) (js ''toolName'') = JStr name"
  "get_prop (requested_payload i name args n p org m) (js ''input'') = args"
  "get_prop (requested_payload i name args n p org m) (js ''stepNumber'') = JNum n"
  "get_prop (requested_payload i name args n p org m) (js ''permission'') = (case p of None \<Rightarrow> JUndef | Some x \<Rightarrow> JObj x)"
  "get_prop (requested_payload i name args n p org m) (js ''origin'') = (case org of None \<Rightarrow> JUndef | Some x \<Rightarrow> JStr x)"
  "get_prop (requested_payload i name args n p org m) (js ''providerMetadata'') = (case m of None \<Rightarrow> JUndef | Some x \<Rightarrow> JObj x)"
  by (cases p; cases org; cases m; simp add: requested_payload_def get_prop_def)+

lemma get_completed [simp]:
  "get_prop (completed_payload i name result kept call) (js ''toolCallId'') = JStr i"
  "get_prop (completed_payload i name result kept call) (js ''output'') = JObj result"
  "get_prop (completed_payload i name result kept call) (js ''retainedMedia'') = (case kept of None \<Rightarrow> JUndef | Some x \<Rightarrow> x)"
  "get_prop (completed_payload i name result kept call) (js ''sdkRefusal'') =
     (case Option.bind call lc_sdkRefusal of None \<Rightarrow> JUndef | Some x \<Rightarrow> JObj x)"
  "get_prop (completed_payload i name result kept call) (js ''derivedDecisions'') =
     (case call of None \<Rightarrow> JUndef | Some l \<Rightarrow> if lc_derivedDecisions l = [] then JUndef else JArr (map JObj (lc_derivedDecisions l)))"
  by (cases kept; cases "Option.bind call lc_sdkRefusal"; cases "Option.bind call lc_permission";
      cases "Option.bind call lc_origin"; cases call; simp add: completed_payload_def get_prop_def)+

definition oc_of :: "live_call \<Rightarrow> obj option \<Rightarrow> open_call" where
  "oc_of l metadata = \<lparr>oc_toolName = lc_toolName l, oc_toolInput = lc_toolInput l, oc_step = Some (lc_step l),
     oc_permission = lc_permission l, oc_providerMetadata = metadata\<rparr>"







type_synonym reservations = "(jstr \<times> jstr \<times> jsval \<times> jstr option) list"

definition ids_known :: "reservations \<Rightarrow> durable \<Rightarrow> jstr list \<Rightarrow> bool" where
  "ids_known h d settled \<longleftrightarrow> set (seenToolCallIds d) \<union> set (startedToolCallIds d) \<union> set settled \<subseteq> fst ` set h"



definition model_call :: "(jstr \<times> live_call) list \<Rightarrow> jstr \<Rightarrow> live_call option" where
  "model_call opens i = (case map_of opens i of None \<Rightarrow> None | Some l \<Rightarrow> if lc_origin l = None then Some l else None)"

definition log_opens :: "durable \<Rightarrow> (jstr \<times> live_call) list \<Rightarrow> (jstr \<times> obj) list \<Rightarrow> bool" where
  "log_opens d opens metadata \<longleftrightarrow>
     (\<forall>i. map_of (openToolCalls d) i = map_option (\<lambda>l. oc_of l (map_of metadata i)) (model_call opens i)) \<and>
     (\<forall>i l. model_call opens i = Some l \<longrightarrow>
        recordedClassification i d = (case lc_classification l of None \<Rightarrow> JNull | Some k \<Rightarrow> k))"



lemma recordedClassification_collector [simp]: "recordedClassification i (d\<lparr>d_collector := c\<rparr>) = recordedClassification i d"
  by (simp add: recordedClassification_def)

lemma tools_collector [simp]:
  "ids_known h (d\<lparr>d_collector := c\<rparr>) settled = ids_known h d settled" "log_opens (d\<lparr>d_collector := c\<rparr>) opens metadata = log_opens d opens metadata"
  by (simp_all add: ids_known_def log_opens_def)












section \<open>Each step of a call\<close>






lemma settle_tool_text [simp]: "textParts (settle_tool i p c) = textParts c"
  by (simp add: settle_tool_def Let_def split: option.splits)








lemma rebuilt_settled [simp]:
  "rebuilt env offset (r\<lparr>r_settledToolCallIds := a, r_pendingToolMetadata := b, r_openToolCalls := c, r_retainedMedia := m, r_retainedBytesUsed := n\<rparr>) =
     rebuilt env offset r"
  by (simp add: rebuilt_def)


















section \<open>A whole attempt\<close>












text \<open>A reply in two steps: text, an allowed call with its result, a refused call, reasoning, and a closing text.\<close>

definition replay_sample_env :: replay_env where
  "replay_sample_env =
     \<lparr>new_URL = \<lambda>_. None, parseRetainedMedia = \<lambda>v. if v = exceeded_json then Some v else None, nearest_num = id\<rparr>"

definition sample_decision :: "string \<Rightarrow> string \<Rightarrow> obj" where
  "sample_decision decision reason =
     [(js ''policyId'', JStr (js ''p1'')), (js ''decision'', JStr (js decision)), (js ''reason'', JStr (js reason)),
      (js ''reference'', JNull)]"








section \<open>Where the log and the live reply part\<close>

text \<open>The events of an attempt, and what is shown of it while it is live.\<close>

definition replayed_parts :: "attempt_event list \<Rightarrow> obj list" where
  "replayed_parts steps = collector_parts (d_collector (rebuilt replay_sample_env (Dec 0 0)
     (flush_both (run_attempt replay_sample_env (Dec 0 0) steps))))"

definition live_parts :: "attempt_event list \<Rightarrow> obj list" where
  "live_parts steps = collector_parts (r_collector (run_attempt replay_sample_env (Dec 0 0) steps))"

definition part_types :: "obj list \<Rightarrow> jsval list" where
  "part_types = map (\<lambda>p. get_prop p (js ''type''))"

text \<open>The cap is logged while text is still buffered, so a replay puts its notice before that text.\<close>

lemma cap_notice_moves:
  "part_types (replayed_parts [S_Text 0 (js ''Hi'') None None, S_Cap (Dec 3 0)]) = [JStr (js ''data-cap-notice''), JStr (js ''text'')]"
  "part_types (collector_parts (r_collector (onFinish replay_sample_env (Dec 0 0) (js ''Hi'') (js ''Hi'') (Some (Dec 3 0))
     (run_attempt replay_sample_env (Dec 0 0) [S_Text 0 (js ''Hi'') None None, S_Cap (Dec 3 0)])))) =
   [JStr (js ''text''), JStr (js ''data-cap-notice'')]"
  by code_simp+

text \<open>A call that is settled between its reservation and its admission is shown live and lost on replay.\<close>

lemma unadmitted_call_lost:
  "part_types (live_parts [S_Call (js ''c1'') (js ''grep'') JNull, S_Terminate T_Cancelled]) = [JStr (js ''tool-grep'')]"
  "replayed_parts [S_Call (js ''c1'') (js ''grep'') JNull, S_Terminate T_Cancelled] = []"
  by code_simp+

text \<open>Metadata of a reasoning block without an id, while later text is buffered.\<close>

definition late_metadata :: "attempt_event list" where
  "late_metadata =
     [S_Reasoning 0 (js ''Hm'') None None, S_Text 1 (js ''So'') None None, S_Reasoning 2 [] None (Some [(js ''k'', JNull)])]"

lemma late_metadata_binds: "replayed_parts late_metadata \<noteq> live_parts late_metadata"
  by code_simp

text \<open>A reply is rebuilt with fewer records than the attempt kept when it consulted an adapter.\<close>

definition kind_decision :: "string \<Rightarrow> derived_decision" where
  "kind_decision kind = \<lparr>dd_decision = sample_decision ''allow'' ''matched_allow'', dd_kind = js kind, dd_count = None\<rparr>"

definition kept_decisions :: "obj list" where
  "kept_decisions = fold (\<lambda>d ds. appendDerivedDecision ds d) (kind_decision ''adapter'' # replicate 26 (kind_decision ''hop'')) []"

lemma kind_record:
  "derivedDecisionRecordFrom (JObj (decision_record (kind_decision ''hop''))) = Some (decision_record (kind_decision ''hop''))"
  "derivedDecisionRecordFrom (JObj (decision_record (kind_decision ''adapter''))) = Some (decision_record (kind_decision ''adapter''))"
  "get_prop (decision_record (kind_decision ''hop'')) (js ''kind'') = JStr (js ''hop'')"
  "get_prop (decision_record (kind_decision ''adapter'')) (js ''kind'') = JStr (js ''adapter'')"
  by code_simp+

lemma kind_groups:
  "kind_group (JStr (js ''hop'')) = 2" "kind_group (JStr (js ''adapter'')) = 1" "group_limit (JStr (js ''hop'')) = 26"
  "js ''hop'' \<noteq> js ''address''" "js ''adapter'' \<noteq> js ''address''" "js ''hop'' \<noteq> js ''adapter''"
  by code_simp+

lemma kind_of_decision: "dd_kind (kind_decision k) = js k"
  by (simp add: kind_decision_def)

lemma append_hop:
  assumes "n < 26"
  shows "appendDerivedDecision (decision_record (kind_decision ''adapter'') # replicate n (decision_record (kind_decision ''hop''))) (kind_decision ''hop'') =
    (decision_record (kind_decision ''adapter'') # replicate n (decision_record (kind_decision ''hop''))) @ [decision_record (kind_decision ''hop'')]"
  using assms unfolding appendDerivedDecision_def Let_def kind_of_decision kind_groups
  by (simp add: kind_record kind_groups filter_replicate)

lemma append_adapter: "appendDerivedDecision [] (kind_decision ''adapter'') = [decision_record (kind_decision ''adapter'')]"
  by code_simp

lemma hops_kept: "n \<le> 26 \<Longrightarrow> fold (\<lambda>d ds. appendDerivedDecision ds d) (replicate n (kind_decision ''hop'')) [decision_record (kind_decision ''adapter'')] =
    decision_record (kind_decision ''adapter'') # replicate n (decision_record (kind_decision ''hop''))"
proof (induction n)
  case (Suc n)
  then have "fold (\<lambda>d ds. appendDerivedDecision ds d) (replicate n (kind_decision ''hop'')) [decision_record (kind_decision ''adapter'')] =
    decision_record (kind_decision ''adapter'') # replicate n (decision_record (kind_decision ''hop''))" by simp
  then have "fold (\<lambda>d ds. appendDerivedDecision ds d) (replicate n (kind_decision ''hop'') @ [kind_decision ''hop'']) [decision_record (kind_decision ''adapter'')] =
    decision_record (kind_decision ''adapter'') # replicate n (decision_record (kind_decision ''hop'')) @ [decision_record (kind_decision ''hop'')]"
    using append_hop [of n] Suc.prems by simp
  then show ?case by (simp only: replicate_Suc replicate_append_same [symmetric] append.simps)
qed simp

lemma hops_taken: "take_decisions (replicate n (JObj (decision_record (kind_decision ''hop'')))) a b =
    replicate (min n (26 - b)) (decision_record (kind_decision ''hop''))"
proof (induction n arbitrary: b)
  case (Suc n)
  show ?case
  proof (cases "b < 26")
    case True
    then have "min (Suc n) (26 - b) = Suc (min n (26 - Suc b))" by linarith
    then show ?thesis using True Suc.IH [of "Suc b"] by (simp add: kind_record kind_groups MAX_DERIVED_DECISIONS_def)
  next
    case False
    then show ?thesis using Suc.IH [of b] by (simp add: kind_record kind_groups MAX_DERIVED_DECISIONS_def)
  qed
qed simp

lemma adapter_crowds_out: "length kept_decisions = 27 \<and> length (take_decisions (map JObj kept_decisions) 0 0) = 26"
proof -
  have k: "kept_decisions = decision_record (kind_decision ''adapter'') # replicate 26 (decision_record (kind_decision ''hop''))"
    unfolding kept_decisions_def fold_simps append_adapter by (rule hops_kept) simp
  show ?thesis unfolding k list.map map_replicate
    by (simp only: take_decisions.simps kind_record option.case if_False kind_groups jsval.inject hops_taken)
      (simp add: MAX_DERIVED_DECISIONS_def)
qed

end
