(* ===== verification/Stream_Bridge.thy ===== *)
theory Stream_Bridge
  imports Run_Recorder
begin

text \<open>
  How a run's events reach the client: the translator of \<^verbatim>\<open>apps/api/src/runs/run-stream-bridge.ts\<close> from run
  events to the chunks of the UI-message stream (\<^verbatim>\<open>run-event-chunks.ts\<close>), the events that stand for the kept parts of a
  continued reply (\<^verbatim>\<open>kept-parts-events.ts\<close>), and the loop that polls the event log. The chunks are checked against the
  client's protocol, against the transcript that a reload shows, and, for the loop, against the log.
\<close>

section \<open>Chunks\<close>

datatype ui_chunk =
    Start_Chunk jstr
  | Text_Start jstr
  | Text_Delta jstr jstr
  | Text_End jstr
  | Reasoning_Start jstr
  | Reasoning_Delta jstr jstr
  | Reasoning_End jstr
  | Message_Metadata jsval
  | Tool_Input_Available jstr jstr jsval
  | Tool_Output_Available jstr jsval
  | Tool_Output_Error jstr jstr bool
  | Cap_Notice_Chunk jsnum jsnum
  | Error_Chunk jstr
  | Finish_Chunk

definition payloadField :: "jsval \<Rightarrow> string \<Rightarrow> jsval" where
  "payloadField payload key = (case isRecord payload of None \<Rightarrow> JUndef | Some r \<Rightarrow> get_prop r (js key))"

definition payloadString :: "jsval \<Rightarrow> string \<Rightarrow> jstr option" where
  "payloadString payload key = isString (payloadField payload key)"

definition payloadNumber :: "jsval \<Rightarrow> string \<Rightarrow> jsnum option" where
  "payloadNumber payload key = isNumber (payloadField payload key)"

section \<open>The kept parts of a continued reply\<close>

definition isCancelledMetadata :: "jsval \<Rightarrow> bool" where
  "isCancelledMetadata v =
     (case isRecord v of None \<Rightarrow> False
      | Some r \<Rightarrow> (case isRecord (get_prop r (js ''llame'')) of None \<Rightarrow> False
                  | Some llame \<Rightarrow> get_prop llame (js ''cancelled'') = JBool True))"

definition TOOL_PART_PREFIX :: jstr where
  "TOOL_PART_PREFIX = js ''tool-''"

definition keptReasoningPartId :: "nat \<Rightarrow> jstr" where
  "keptReasoningPartId i = js ''kept-reasoning-'' @ nat_to_js i"

definition kept_output :: "obj \<Rightarrow> jsval" where
  "kept_output part =
     (if get_prop part (js ''state'') = JStr (js ''output-error'')
      then JObj [(js ''status'', JStr (js ''error'')),
        (js ''type'', JStr (if isCancelledMetadata (get_prop part (js ''resultProviderMetadata'')) then js ''cancelled'' else js ''error'')),
        (js ''message'', JStr (case isString (get_prop part (js ''errorText'')) of Some t \<Rightarrow> t | None \<Rightarrow> js ''The tool failed.''))]
      else get_prop part (js ''output''))"

definition toolEvents :: "obj \<Rightarrow> run_event list" where
  "toolEvents part =
     (case isString (get_prop part (js ''type'')) of
        None \<Rightarrow> []
      | Some t \<Rightarrow>
          if \<not> starts_with t TOOL_PART_PREFIX then []
          else (case isString (get_prop part (js ''toolCallId'')) of
                  None \<Rightarrow> []
                | Some toolCallId \<Rightarrow>
                    (let toolName = drop (length TOOL_PART_PREFIX) t in
                     [\<lparr>ev_type = js ''tool.requested'', ev_payload = JObj
                         [(js ''toolCallId'', JStr toolCallId), (js ''toolName'', JStr toolName),
                          (js ''input'', get_prop part (js ''input''))]\<rparr>,
                      \<lparr>ev_type = js ''tool.completed'', ev_payload = JObj
                         [(js ''toolCallId'', JStr toolCallId), (js ''toolName'', JStr toolName),
                          (js ''status'', JStr (if get_prop part (js ''state'') = JStr (js ''output-error'') then js ''error'' else js ''success'')),
                          (js ''output'', kept_output part)]\<rparr>])))"

definition partEvents :: "jsval \<Rightarrow> nat \<Rightarrow> run_event list" where
  "partEvents v index =
     (case isRecord v of
        None \<Rightarrow> []
      | Some part \<Rightarrow>
          (let t = get_prop part (js ''type''); text = isString (get_prop part (js ''text'')) in
           if t = JStr (js ''text'') \<and> text \<noteq> None
           then [\<lparr>ev_type = js ''model.delta'', ev_payload = JObj [(js ''text'', JStr (the text))]\<rparr>]
           else if t = JStr (js ''reasoning'') \<and> text \<noteq> None
           then [\<lparr>ev_type = js ''reasoning.delta'', ev_payload = JObj
                   [(js ''text'', JStr (the text)), (js ''partId'', JStr (keptReasoningPartId index))]\<rparr>]
           else if t = JStr (js ''data-cap-notice'')
           then (let d = get_prop part (js ''data'') in
                 case (isNumber (eventPayloadField d ''stepsUsed''), isNumber (eventPayloadField d ''maxSteps'')) of
                   (Some a, Some b) \<Rightarrow> [\<lparr>ev_type = js ''run.step_cap_reached'', ev_payload = JObj
                     [(js ''stepsUsed'', JNum a), (js ''maxSteps'', JNum b)]\<rparr>]
                 | _ \<Rightarrow> [])
           else toolEvents part))"

definition keptPartEvents :: "jsval list \<Rightarrow> run_event list" where
  "keptPartEvents parts = concat (map (\<lambda>(i, v). partEvents v i) (enumerate 0 parts))"

section \<open>The translator\<close>

record translator =
  startedStream :: bool
  isFinished :: bool
  textPartCount :: nat
  openTextId :: "jstr option"
  reasoningPartCount :: nat
  openReasoningId :: "jstr option"
  openReasoningPart :: "jstr option"
  openToolCallIds :: "jstr list"
  messageId :: jstr

definition createRunEventTranslator :: "jstr \<Rightarrow> translator" where
  "createRunEventTranslator mid =
     \<lparr>startedStream = False, isFinished = False, textPartCount = 0, openTextId = None, reasoningPartCount = 0,
      openReasoningId = None, openReasoningPart = None, openToolCallIds = [], messageId = mid\<rparr>"

definition prelude :: "translator \<Rightarrow> ui_chunk list \<times> translator" where
  "prelude t = (if startedStream t then ([], t) else ([Start_Chunk (messageId t)], t\<lparr>startedStream := True\<rparr>))"

definition closeText :: "translator \<Rightarrow> ui_chunk list \<times> translator" where
  "closeText t = (case openTextId t of None \<Rightarrow> ([], t) | Some i \<Rightarrow> ([Text_End i], t\<lparr>openTextId := None\<rparr>))"

definition closeReasoning :: "translator \<Rightarrow> ui_chunk list \<times> translator" where
  "closeReasoning t =
     (case openReasoningId t of None \<Rightarrow> ([], t)
      | Some i \<Rightarrow> ([Reasoning_End i], t\<lparr>openReasoningId := None, openReasoningPart := None\<rparr>))"

definition settleOpenTools :: "jstr \<Rightarrow> translator \<Rightarrow> ui_chunk list \<times> translator" where
  "settleOpenTools reason t =
     (map (\<lambda>i. Tool_Output_Error i reason True) (openToolCallIds t), t\<lparr>openToolCallIds := []\<rparr>)"

text \<open>\<^verbatim>\<open>[...a(), ...b()]\<close>: the chunks of two steps, in order.\<close>

definition and_then :: "(translator \<Rightarrow> ui_chunk list \<times> translator) \<Rightarrow> (translator \<Rightarrow> ui_chunk list \<times> translator) \<Rightarrow>
    translator \<Rightarrow> ui_chunk list \<times> translator" where
  "and_then f g t = (case f t of (c1, t1) \<Rightarrow> (case g t1 of (c2, t2) \<Rightarrow> (c1 @ c2, t2)))"

definition emit_chunk :: "ui_chunk \<Rightarrow> translator \<Rightarrow> ui_chunk list \<times> translator" where
  "emit_chunk c t = ([c], t)"

definition close_parts :: "translator \<Rightarrow> ui_chunk list \<times> translator" where
  "close_parts = and_then prelude (and_then closeReasoning closeText)"

definition open_text :: "translator \<Rightarrow> ui_chunk list \<times> translator" where
  "open_text t =
     (case openTextId t of Some _ \<Rightarrow> ([], t)
      | None \<Rightarrow> (let i = js ''text-'' @ nat_to_js (textPartCount t + 1) in
                ([Text_Start i], t\<lparr>textPartCount := textPartCount t + 1, openTextId := Some i\<rparr>)))"

definition onModelDelta :: "run_event \<Rightarrow> translator \<Rightarrow> ui_chunk list \<times> translator" where
  "onModelDelta event t =
     (let text = or_empty (payloadString (ev_payload event) ''text'') in
      if text = [] then ([], t)
      else (case and_then prelude (and_then closeReasoning open_text) t of
              (chunks, t1) \<Rightarrow> (chunks @ [Text_Delta (the (openTextId t1)) text], t1)))"

definition open_reasoning :: "jstr option \<Rightarrow> translator \<Rightarrow> ui_chunk list \<times> translator" where
  "open_reasoning partId t =
     (if openReasoningId t = None \<or> (partId \<noteq> None \<and> openReasoningPart t \<noteq> None \<and> partId \<noteq> openReasoningPart t)
      then (case closeReasoning t of (chunks, t1) \<Rightarrow>
              (let i = js ''reasoning-'' @ nat_to_js (reasoningPartCount t1 + 1) in
               (chunks @ [Reasoning_Start i],
                t1\<lparr>reasoningPartCount := reasoningPartCount t1 + 1, openReasoningId := Some i, openReasoningPart := partId\<rparr>)))
      else if partId \<noteq> None then ([], t\<lparr>openReasoningPart := partId\<rparr>) else ([], t))"

definition onReasoningDelta_event :: "run_event \<Rightarrow> translator \<Rightarrow> ui_chunk list \<times> translator" where
  "onReasoningDelta_event event t =
     (let text = or_empty (payloadString (ev_payload event) ''text'') in
      if text = [] then ([], t)
      else (case and_then prelude (and_then closeText (open_reasoning (payloadString (ev_payload event) ''partId''))) t of
              (chunks, t1) \<Rightarrow> (chunks @ [Reasoning_Delta (the (openReasoningId t1)) text], t1)))"

definition onModelCompleted :: "run_event \<Rightarrow> translator \<Rightarrow> ui_chunk list \<times> translator" where
  "onModelCompleted event t =
     (let telemetry = payloadField (ev_payload event) ''telemetry'' in
      if telemetry = JUndef then ([], t)
      else and_then close_parts (emit_chunk (Message_Metadata (JObj [(js ''usage'', telemetry)]))) t)"

definition onToolRequested :: "run_event \<Rightarrow> translator \<Rightarrow> ui_chunk list \<times> translator" where
  "onToolRequested event t =
     (let p = ev_payload event; toolCallId = or_empty (payloadString p ''toolCallId'');
          toolName = or_empty (payloadString p ''toolName'') in
      if isSystemOriginPayload p \<or> toolCallId = [] \<or> toolName = [] then ([], t)
      else and_then close_parts (emit_chunk (Tool_Input_Available toolCallId toolName (payloadField p ''input'')))
             (t\<lparr>openToolCallIds := (if toolCallId \<in> set (openToolCallIds t) then openToolCallIds t else openToolCallIds t @ [toolCallId])\<rparr>))"

definition onToolCompleted :: "run_event \<Rightarrow> translator \<Rightarrow> ui_chunk list \<times> translator" where
  "onToolCompleted event t =
     (let p = ev_payload event; toolCallId = or_empty (payloadString p ''toolCallId'') in
      if isSystemOriginPayload p \<or> toolCallId = [] \<or> toolCallId \<notin> set (openToolCallIds t) then ([], t)
      else
        (let t1 = t\<lparr>openToolCallIds := filter (\<lambda>i. i \<noteq> toolCallId) (openToolCallIds t)\<rparr>;
             result = payloadField p ''output'' in
         if payloadString p ''status'' \<noteq> Some (js ''error'')
         then and_then prelude (emit_chunk (Tool_Output_Available toolCallId result)) t1
         else and_then prelude (emit_chunk (Tool_Output_Error toolCallId
                (case isString (payloadField result ''message'') of Some m \<Rightarrow> m | None \<Rightarrow> js ''The tool failed.'')
                (payloadField result ''type'' = JStr (js ''cancelled'')))) t1))"

definition onStepCapReached :: "run_event \<Rightarrow> translator \<Rightarrow> ui_chunk list \<times> translator" where
  "onStepCapReached event t =
     (case (payloadNumber (ev_payload event) ''stepsUsed'', payloadNumber (ev_payload event) ''maxSteps'') of
        (Some stepsUsed, Some maxSteps) \<Rightarrow> and_then close_parts (emit_chunk (Cap_Notice_Chunk stepsUsed maxSteps)) t
      | _ \<Rightarrow> ([], t))"

definition onRunTerminated :: "run_event \<Rightarrow> translator \<Rightarrow> ui_chunk list \<times> translator" where
  "onRunTerminated event t =
     and_then close_parts (and_then
       (settleOpenTools (js (toolTerminationMessage (if ev_type event = js ''run.cancelled'' then T_Cancelled else T_Failed))))
       (emit_chunk Finish_Chunk)) (t\<lparr>isFinished := True\<rparr>)"

definition onRunFailed :: "run_event \<Rightarrow> translator \<Rightarrow> ui_chunk list \<times> translator" where
  "onRunFailed event t =
     (let message = (case payloadString (ev_payload event) ''message'' of Some m \<Rightarrow> m | None \<Rightarrow> js ''Run failed.'') in
      and_then close_parts (and_then
        (settleOpenTools (js (toolTerminationMessage (if ev_type event = js ''run.expired'' then T_Expired else T_Failed))))
        (emit_chunk (Error_Chunk message))) (t\<lparr>isFinished := True\<rparr>))"

text \<open>Every event but \<^verbatim>\<open>run.continued\<close>; a kept part is never one.\<close>

definition translate_plain :: "run_event \<Rightarrow> translator \<Rightarrow> ui_chunk list \<times> translator" where
  "translate_plain event t =
     (let k = ev_type event in
      if k = js ''model.delta'' then onModelDelta event t
      else if k = js ''reasoning.delta'' then onReasoningDelta_event event t
      else if k = js ''model.completed'' then onModelCompleted event t
      else if k = js ''tool.requested'' then onToolRequested event t
      else if k = js ''tool.completed'' then onToolCompleted event t
      else if k = js ''run.step_cap_reached'' then onStepCapReached event t
      else if k = js ''run.completed'' \<or> k = js ''run.cancelled'' then onRunTerminated event t
      else if k = js ''run.expired'' \<or> k = js ''run.failed'' then onRunFailed event t
      else ([], t))"

fun translate_list :: "(run_event \<Rightarrow> translator \<Rightarrow> ui_chunk list \<times> translator) \<Rightarrow> run_event list \<Rightarrow> translator \<Rightarrow>
    ui_chunk list \<times> translator" where
  "translate_list f [] t = ([], t)"
| "translate_list f (e # es) t = and_then (f e) (translate_list f es) t"

definition onRunContinued :: "run_event \<Rightarrow> translator \<Rightarrow> ui_chunk list \<times> translator" where
  "onRunContinued event t =
     (case payloadField (ev_payload event) ''parts'' of
        JArr parts \<Rightarrow> and_then prelude (translate_list translate_plain (keptPartEvents parts)) t
      | _ \<Rightarrow> ([], t))"

definition translate :: "run_event \<Rightarrow> translator \<Rightarrow> ui_chunk list \<times> translator" where
  "translate event = (if ev_type event = js ''run.continued'' then onRunContinued event else translate_plain event)"

text \<open>The chunks of a run whose events are translated after the prelude.\<close>

definition bridge_run :: "jstr \<Rightarrow> run_event list \<Rightarrow> ui_chunk list \<times> translator" where
  "bridge_run mid evs = and_then prelude (translate_list translate evs) (createRunEventTranslator mid)"

section \<open>The protocol of the client\<close>

text \<open>What a client of the stream relies on: one \<^verbatim>\<open>start\<close> before anything else; one part open at a time, under an id of
  its own, with deltas for the open part alone; an outcome only for a call that waits for one; and, where the
  stream ends, nothing open and no call waiting.\<close>

datatype open_part = No_Part | In_Text jstr | In_Reasoning jstr

record client =
  c_started :: bool
  c_open :: open_part
  c_used :: "jstr list"
  c_waiting :: "jstr list"

definition new_client :: client where
  "new_client = \<lparr>c_started = False, c_open = No_Part, c_used = [], c_waiting = []\<rparr>"

definition accept_if :: "bool \<Rightarrow> client \<Rightarrow> client option" where
  "accept_if b c = (if b then Some c else None)"

fun client_step :: "ui_chunk \<Rightarrow> client \<Rightarrow> client option" where
  "client_step (Start_Chunk m) c = accept_if (\<not> c_started c) (c\<lparr>c_started := True\<rparr>)"
| "client_step (Text_Start i) c =
     accept_if (c_started c \<and> c_open c = No_Part \<and> i \<notin> set (c_used c)) (c\<lparr>c_open := In_Text i, c_used := i # c_used c\<rparr>)"
| "client_step (Text_Delta i d) c = accept_if (c_open c = In_Text i \<and> d \<noteq> []) c"
| "client_step (Text_End i) c = accept_if (c_open c = In_Text i) (c\<lparr>c_open := No_Part\<rparr>)"
| "client_step (Reasoning_Start i) c =
     accept_if (c_started c \<and> c_open c = No_Part \<and> i \<notin> set (c_used c)) (c\<lparr>c_open := In_Reasoning i, c_used := i # c_used c\<rparr>)"
| "client_step (Reasoning_Delta i d) c = accept_if (c_open c = In_Reasoning i \<and> d \<noteq> []) c"
| "client_step (Reasoning_End i) c = accept_if (c_open c = In_Reasoning i) (c\<lparr>c_open := No_Part\<rparr>)"
| "client_step (Message_Metadata m) c = accept_if (c_started c \<and> c_open c = No_Part) c"
| "client_step (Tool_Input_Available i n x) c = accept_if (c_started c \<and> c_open c = No_Part)
     (c\<lparr>c_waiting := (if i \<in> set (c_waiting c) then c_waiting c else c_waiting c @ [i])\<rparr>)"
| "client_step (Tool_Output_Available i x) c = accept_if (i \<in> set (c_waiting c)) (c\<lparr>c_waiting := filter (\<lambda>j. j \<noteq> i) (c_waiting c)\<rparr>)"
| "client_step (Tool_Output_Error i m b) c = accept_if (i \<in> set (c_waiting c)) (c\<lparr>c_waiting := filter (\<lambda>j. j \<noteq> i) (c_waiting c)\<rparr>)"
| "client_step (Cap_Notice_Chunk a b) c = accept_if (c_started c \<and> c_open c = No_Part) c"
| "client_step (Error_Chunk m) c = accept_if (c_started c \<and> c_open c = No_Part \<and> c_waiting c = []) c"
| "client_step Finish_Chunk c = accept_if (c_started c \<and> c_open c = No_Part \<and> c_waiting c = []) c"

fun client_run :: "ui_chunk list \<Rightarrow> client \<Rightarrow> client option" where
  "client_run [] c = Some c"
| "client_run (x # xs) c = (case client_step x c of None \<Rightarrow> None | Some c' \<Rightarrow> client_run xs c')"

lemma client_run_append: "client_run (xs @ ys) c = (case client_run xs c of None \<Rightarrow> None | Some c' \<Rightarrow> client_run ys c')"
  by (induction xs arbitrary: c) (auto split: option.splits)

text \<open>The ids the translator has given out, and the state of a client that has read what it said.\<close>

definition text_id :: "nat \<Rightarrow> jstr" where
  "text_id n = js ''text-'' @ nat_to_js n"

definition reasoning_id :: "nat \<Rightarrow> jstr" where
  "reasoning_id n = js ''reasoning-'' @ nat_to_js n"

lemma ids_differ [simp]: "text_id n = text_id m \<longleftrightarrow> n = m" "reasoning_id n = reasoning_id m \<longleftrightarrow> n = m"
    "text_id n \<noteq> reasoning_id m" "reasoning_id m \<noteq> text_id n"
proof -
  have inj: "nat_to_js a = nat_to_js b \<longleftrightarrow> a = b" for a b by (metis digits_val_nat_to_js)
  show "text_id n = text_id m \<longleftrightarrow> n = m" "reasoning_id n = reasoning_id m \<longleftrightarrow> n = m"
    by (simp_all add: text_id_def reasoning_id_def inj)
  show "text_id n \<noteq> reasoning_id m" "reasoning_id m \<noteq> text_id n" by (simp_all add: text_id_def reasoning_id_def js_def)
qed

definition shown_part :: "translator \<Rightarrow> open_part" where
  "shown_part t = (case openTextId t of Some i \<Rightarrow> In_Text i
     | None \<Rightarrow> (case openReasoningId t of Some i \<Rightarrow> In_Reasoning i | None \<Rightarrow> No_Part))"

definition agree :: "translator \<Rightarrow> client \<Rightarrow> bool" where
  "agree t c \<longleftrightarrow> c_started c = startedStream t \<and> c_open c = shown_part t \<and> c_waiting c = openToolCallIds t \<and>
     (openTextId t = None \<or> openReasoningId t = None) \<and> distinct (openToolCallIds t) \<and>
     (startedStream t \<or> openTextId t = None \<and> openReasoningId t = None) \<and>
     set (c_used c) \<subseteq> text_id ` {1..textPartCount t} \<union> reasoning_id ` {1..reasoningPartCount t}"

text \<open>From a translator that meets \<open>P\<close>, \<open>f\<close> says what the client accepts and leaves one that meets \<open>Q\<close>.\<close>

definition says :: "(translator \<Rightarrow> bool) \<Rightarrow> (translator \<Rightarrow> ui_chunk list \<times> translator) \<Rightarrow> (translator \<Rightarrow> bool) \<Rightarrow> bool" where
  "says P f Q \<longleftrightarrow> (\<forall>t c. agree t c \<and> P t \<longrightarrow>
     (\<exists>c'. client_run (fst (f t)) c = Some c' \<and> agree (snd (f t)) c' \<and> Q (snd (f t))))"

lemma saysI:
  assumes "\<And>t c. agree t c \<Longrightarrow> P t \<Longrightarrow> \<exists>c'. client_run (fst (f t)) c = Some c' \<and> agree (snd (f t)) c' \<and> Q (snd (f t))"
  shows "says P f Q"
  using assms by (simp add: says_def)

lemma says_and_then:
  assumes "says P f R" "says R g Q"
  shows "says P (and_then f g) Q"
proof (rule saysI)
  fix t c
  assume a: "agree t c" "P t"
  obtain c1 t1 where f: "f t = (c1, t1)" by (cases "f t")
  obtain c2 t2 where g: "g t1 = (c2, t2)" by (cases "g t1")
  obtain c' where c': "client_run c1 c = Some c'" "agree t1 c'" "R t1"
    using assms(1) a f unfolding says_def by (metis fst_conv snd_conv)
  obtain c'' where "client_run c2 c' = Some c''" "agree t2 c''" "Q t2"
    using assms(2) c'(2,3) g unfolding says_def by (metis fst_conv snd_conv)
  then show "\<exists>c'. client_run (fst (and_then f g t)) c = Some c' \<and> agree (snd (and_then f g t)) c' \<and> Q (snd (and_then f g t))"
    by (simp add: and_then_def f g client_run_append c'(1))
qed

lemma says_weaken: "says P f Q \<Longrightarrow> (\<And>t. P' t \<Longrightarrow> P t) \<Longrightarrow> (\<And>t. Q t \<Longrightarrow> Q' t) \<Longrightarrow> says P' f Q'"
  unfolding says_def by blast

abbreviation any_state :: "translator \<Rightarrow> bool" where
  "any_state \<equiv> \<lambda>_. True"

abbreviation no_part :: "translator \<Rightarrow> bool" where
  "no_part \<equiv> \<lambda>t. startedStream t \<and> openTextId t = None \<and> openReasoningId t = None"

lemma says_prelude: "says any_state prelude startedStream"
  by (rule saysI) (auto simp: prelude_def agree_def accept_if_def shown_part_def split: option.splits)

lemma says_closeReasoning: "says startedStream closeReasoning (\<lambda>t. startedStream t \<and> openReasoningId t = None)"
  by (rule saysI) (auto simp: closeReasoning_def agree_def accept_if_def shown_part_def split: option.splits)

lemma says_closeText:
  "says (\<lambda>t. startedStream t \<and> openReasoningId t = None) closeText no_part" "says startedStream closeText (\<lambda>t. startedStream t \<and> openTextId t = None)"
  by (rule saysI, auto simp: closeText_def agree_def accept_if_def shown_part_def split: option.splits)+

lemma says_close_parts: "says any_state close_parts no_part"
  unfolding close_parts_def by (rule says_and_then [OF says_prelude says_and_then [OF says_closeReasoning says_closeText(1)]])

lemma says_open_text:
  "says (\<lambda>t. startedStream t \<and> openReasoningId t = None) open_text (\<lambda>t. startedStream t \<and> openReasoningId t = None \<and> openTextId t \<noteq> None)"
proof (rule saysI)
  fix t c
  assume a: "agree t c" "startedStream t \<and> openReasoningId t = None"
  show "\<exists>c'. client_run (fst (open_text t)) c = Some c' \<and> agree (snd (open_text t)) c' \<and>
      (startedStream (snd (open_text t)) \<and> openReasoningId (snd (open_text t)) = None \<and> openTextId (snd (open_text t)) \<noteq> None)"
  proof (cases "openTextId t")
    case None
    have "text_id (textPartCount t + 1) \<notin> set (c_used c)" using a(1) by (auto simp: agree_def)
    then show ?thesis using a None
      by (auto simp: open_text_def Let_def agree_def accept_if_def shown_part_def text_id_def [symmetric])
  qed (use a in \<open>auto simp: open_text_def\<close>)
qed

lemma says_open_reasoning:
  "says (\<lambda>t. startedStream t \<and> openTextId t = None) (open_reasoning pid)
     (\<lambda>t. startedStream t \<and> openTextId t = None \<and> openReasoningId t \<noteq> None)"
proof (rule saysI)
  fix t c
  assume a: "agree t c" "startedStream t \<and> openTextId t = None"
  let ?new = "openReasoningId t = None \<or> (pid \<noteq> None \<and> openReasoningPart t \<noteq> None \<and> pid \<noteq> openReasoningPart t)"
  have "reasoning_id (reasoningPartCount t + 1) \<notin> set (c_used c)" using a(1) by (auto simp: agree_def)
  then show "\<exists>c'. client_run (fst (open_reasoning pid t)) c = Some c' \<and> agree (snd (open_reasoning pid t)) c' \<and>
      (startedStream (snd (open_reasoning pid t)) \<and> openTextId (snd (open_reasoning pid t)) = None \<and> openReasoningId (snd (open_reasoning pid t)) \<noteq> None)"
    using a by (cases "openReasoningId t"; cases ?new)
      (auto simp: open_reasoning_def closeReasoning_def Let_def agree_def accept_if_def shown_part_def reasoning_id_def [symmetric])
qed

lemma says_chunk:
  "(\<And>t c. agree t c \<Longrightarrow> P t \<Longrightarrow> client_step x c = Some c) \<Longrightarrow> says P (emit_chunk x) P"
  by (rule saysI) (auto simp: emit_chunk_def)

lemma says_nothing: "says P (\<lambda>t. ([], t)) P"
  by (rule saysI) simp

text \<open>A handler that says nothing or goes on, by a test of the state.\<close>

lemma says_if: "says (\<lambda>t. P t \<and> b t) f Q \<Longrightarrow> says (\<lambda>t. P t \<and> \<not> b t) g Q \<Longrightarrow> says P (\<lambda>t. if b t then f t else g t) Q"
  unfolding says_def by (auto split: if_splits)

lemma says_const_if: "(b \<Longrightarrow> says P f Q) \<Longrightarrow> (\<not> b \<Longrightarrow> says P g Q) \<Longrightarrow> says P (\<lambda>t. if b then f t else g t) Q"
  by (cases b) auto

lemma agree_weak: "says P f Q \<Longrightarrow> says P f any_state"
  unfolding says_def by blast

lemma says_onModelDelta: "says any_state (onModelDelta e) any_state"
proof -
  let ?text = "or_empty (payloadString (ev_payload e) ''text'')"
  have o: "says any_state (and_then prelude (and_then closeReasoning open_text))
      (\<lambda>t. startedStream t \<and> openReasoningId t = None \<and> openTextId t \<noteq> None)"
    by (rule says_and_then [OF says_prelude says_and_then [OF says_closeReasoning says_open_text]])
  show ?thesis
  proof (cases "?text = []")
    case True
    then show ?thesis by (simp add: onModelDelta_def says_def)
  next
    case False
    show ?thesis
    proof (rule saysI)
      fix t c
      assume "agree t c"
      then obtain c' where c': "client_run (fst (and_then prelude (and_then closeReasoning open_text) t)) c = Some c'"
          "agree (snd (and_then prelude (and_then closeReasoning open_text) t)) c'"
          "openTextId (snd (and_then prelude (and_then closeReasoning open_text) t)) \<noteq> None"
        using o unfolding says_def by blast
      then show "\<exists>c'. client_run (fst (onModelDelta e t)) c = Some c' \<and> agree (snd (onModelDelta e t)) c' \<and> True"
        using False
        by (auto simp: onModelDelta_def Let_def client_run_append accept_if_def agree_def shown_part_def split: prod.splits)
    qed
  qed
qed

lemma says_onReasoningDelta: "says any_state (onReasoningDelta_event e) any_state"
proof -
  let ?text = "or_empty (payloadString (ev_payload e) ''text'')" and ?p = "payloadString (ev_payload e) ''partId''"
  have o: "says any_state (and_then prelude (and_then closeText (open_reasoning ?p)))
      (\<lambda>t. startedStream t \<and> openTextId t = None \<and> openReasoningId t \<noteq> None)"
    by (rule says_and_then [OF says_prelude says_and_then [OF says_closeText(2) says_open_reasoning]])
  show ?thesis
  proof (cases "?text = []")
    case True
    then show ?thesis by (simp add: onReasoningDelta_event_def says_def)
  next
    case False
    show ?thesis
    proof (rule saysI)
      fix t c
      assume "agree t c"
      then obtain c' where c': "client_run (fst (and_then prelude (and_then closeText (open_reasoning ?p)) t)) c = Some c'"
          "agree (snd (and_then prelude (and_then closeText (open_reasoning ?p)) t)) c'"
          "openTextId (snd (and_then prelude (and_then closeText (open_reasoning ?p)) t)) = None"
          "openReasoningId (snd (and_then prelude (and_then closeText (open_reasoning ?p)) t)) \<noteq> None"
        using o unfolding says_def by blast
      then show "\<exists>c'. client_run (fst (onReasoningDelta_event e t)) c = Some c' \<and> agree (snd (onReasoningDelta_event e t)) c' \<and> True"
        using False
        by (auto simp: onReasoningDelta_event_def Let_def client_run_append accept_if_def agree_def shown_part_def split: prod.splits)
    qed
  qed
qed

lemma no_part_shown: "agree t c \<Longrightarrow> no_part t \<Longrightarrow> c_started c \<and> c_open c = No_Part"
  by (simp add: agree_def shown_part_def)

lemma says_closed_chunk:
  assumes "\<And>c. c_started c \<Longrightarrow> c_open c = No_Part \<Longrightarrow> client_step x c = Some c"
  shows "says any_state (and_then close_parts (emit_chunk x)) any_state"
proof (rule agree_weak)
  show "says any_state (and_then close_parts (emit_chunk x)) no_part"
    by (rule says_and_then [OF says_close_parts says_chunk]) (use no_part_shown assms in blast)
qed

lemma says_onModelCompleted: "says any_state (onModelCompleted e) any_state"
  unfolding onModelCompleted_def Let_def
  by (rule says_const_if [OF says_nothing says_closed_chunk]) (simp add: accept_if_def)

lemma says_onStepCapReached: "says any_state (onStepCapReached e) any_state"
proof -
  have "says any_state (and_then close_parts (emit_chunk (Cap_Notice_Chunk a b))) any_state" for a b
    by (rule says_closed_chunk) (simp add: accept_if_def)
  then show ?thesis unfolding onStepCapReached_def
    by (cases "payloadNumber (ev_payload e) ''stepsUsed''"; cases "payloadNumber (ev_payload e) ''maxSteps''")
      (simp_all add: says_nothing)
qed

text \<open>What closing leaves alone.\<close>

lemma shown_update [simp]: "shown_part (t\<lparr>openToolCallIds := x\<rparr>) = shown_part t" "shown_part (t\<lparr>isFinished := b\<rparr>) = shown_part t"
  by (cases "openTextId t"; cases "openReasoningId t"; simp add: shown_part_def)+

lemma close_keeps [simp]:
  "openToolCallIds (snd (close_parts t)) = openToolCallIds t" "openToolCallIds (snd (prelude t)) = openToolCallIds t"
  "close_parts (t\<lparr>openToolCallIds := x\<rparr>) = (fst (close_parts t), (snd (close_parts t))\<lparr>openToolCallIds := x\<rparr>)"
  "prelude (t\<lparr>openToolCallIds := x\<rparr>) = (fst (prelude t), (snd (prelude t))\<lparr>openToolCallIds := x\<rparr>)"
  "close_parts (t\<lparr>isFinished := b\<rparr>) = (fst (close_parts t), (snd (close_parts t))\<lparr>isFinished := b\<rparr>)"
  by (auto simp: close_parts_def and_then_def prelude_def closeReasoning_def closeText_def split: option.splits)

lemma says_onToolRequested: "says any_state (onToolRequested e) any_state"
proof (rule saysI)
  fix t c
  let ?p = "ev_payload e"
  let ?i = "or_empty (payloadString ?p ''toolCallId'')" and ?n = "or_empty (payloadString ?p ''toolName'')"
  let ?add = "\<lambda>xs. if ?i \<in> set xs then xs else xs @ [?i]"
  assume a: "agree t c"
  obtain c' where c': "client_run (fst (close_parts t)) c = Some c'" "agree (snd (close_parts t)) c'" "no_part (snd (close_parts t))"
    using says_close_parts a unfolding says_def by blast
  have "agree ((snd (close_parts t))\<lparr>openToolCallIds := ?add (openToolCallIds t)\<rparr>) (c'\<lparr>c_waiting := ?add (c_waiting c')\<rparr>)"
    using c'(2) by (cases "?i \<in> set (openToolCallIds t)") (auto simp: agree_def)
  then show "\<exists>c'. client_run (fst (onToolRequested e t)) c = Some c' \<and> agree (snd (onToolRequested e t)) c' \<and> True"
    using a c'(1) no_part_shown [OF c'(2,3)]
    by (auto simp: onToolRequested_def Let_def and_then_def emit_chunk_def client_run_append accept_if_def)
qed

lemma says_onToolCompleted: "says any_state (onToolCompleted e) any_state"
proof (rule saysI)
  fix t c
  let ?p = "ev_payload e"
  let ?i = "or_empty (payloadString ?p ''toolCallId'')"
  assume a: "agree t c"
  obtain c' where c': "client_run (fst (prelude t)) c = Some c'" "agree (snd (prelude t)) c'"
    using says_prelude a unfolding says_def by blast
  have "agree ((snd (prelude t))\<lparr>openToolCallIds := filter (\<lambda>j. j \<noteq> ?i) (openToolCallIds t)\<rparr>) (c'\<lparr>c_waiting := filter (\<lambda>j. j \<noteq> ?i) (c_waiting c')\<rparr>)"
    using c'(2) by (simp add: agree_def)
  moreover have "c_waiting c' = openToolCallIds t" using c'(2) by (simp add: agree_def)
  ultimately show "\<exists>c'. client_run (fst (onToolCompleted e t)) c = Some c' \<and> agree (snd (onToolCompleted e t)) c' \<and> True"
    using a c'(1)
    by (auto simp: onToolCompleted_def Let_def and_then_def emit_chunk_def client_run_append accept_if_def)
qed

lemma outcomes_run:
  "distinct is \<Longrightarrow> c_waiting c = is \<Longrightarrow> client_run (map (\<lambda>i. Tool_Output_Error i reason True) is) c = Some (c\<lparr>c_waiting := []\<rparr>)"
proof (induction "is" arbitrary: c)
  case (Cons i "is")
  then have "filter (\<lambda>j. j \<noteq> i) is = is" by (intro filter_True) auto
  then show ?case using Cons by (simp add: accept_if_def)
qed simp

lemma says_terminal:
  assumes "\<And>c. c_started c \<Longrightarrow> c_open c = No_Part \<Longrightarrow> c_waiting c = [] \<Longrightarrow> client_step x c = Some c"
  shows "says any_state (\<lambda>t. and_then close_parts (and_then (settleOpenTools reason) (emit_chunk x)) (t\<lparr>isFinished := True\<rparr>)) any_state"
proof (rule saysI)
  fix t c
  assume a: "agree t c"
  obtain c' where c': "client_run (fst (close_parts t)) c = Some c'" "agree (snd (close_parts t)) c'" "no_part (snd (close_parts t))"
    using says_close_parts a unfolding says_def by blast
  have w: "c_waiting c' = openToolCallIds t" "distinct (openToolCallIds t)" using c'(2) by (simp_all add: agree_def)
  have "agree ((snd (close_parts t))\<lparr>isFinished := True, openToolCallIds := []\<rparr>) (c'\<lparr>c_waiting := []\<rparr>)"
    using c'(2) by (simp add: agree_def)
  then show "\<exists>c'. client_run (fst (and_then close_parts (and_then (settleOpenTools reason) (emit_chunk x)) (t\<lparr>isFinished := True\<rparr>))) c = Some c' \<and>
      agree (snd (and_then close_parts (and_then (settleOpenTools reason) (emit_chunk x)) (t\<lparr>isFinished := True\<rparr>))) c' \<and> True"
    using c'(1) no_part_shown [OF c'(2,3)] outcomes_run [OF w(2,1)] assms [of "c'\<lparr>c_waiting := []\<rparr>"]
    by (simp add: and_then_def settleOpenTools_def emit_chunk_def client_run_append)
qed

lemma says_onRun: "says any_state (onRunTerminated e) any_state" "says any_state (onRunFailed e) any_state"
  unfolding onRunTerminated_def onRunFailed_def Let_def by (rule says_terminal; simp add: accept_if_def)+

lemma says_translate_plain: "says any_state (translate_plain e) any_state"
  unfolding translate_plain_def Let_def
  by (intro says_const_if says_nothing says_onModelDelta says_onReasoningDelta says_onModelCompleted says_onToolRequested
      says_onToolCompleted says_onStepCapReached says_onRun)

lemma says_list: "(\<And>e. says any_state (f e) any_state) \<Longrightarrow> says any_state (translate_list f es) any_state"
proof (induction es)
  case Nil
  then show ?case using says_nothing by (simp add: says_def)
next
  case (Cons e es)
  then have "says any_state (and_then (f e) (translate_list f es)) any_state" by (intro says_and_then) auto
  then show ?case by (simp add: says_def)
qed

lemma says_translate: "says any_state (translate e) any_state"
proof -
  have "says any_state (onRunContinued e) any_state"
    unfolding onRunContinued_def
    using says_and_then [OF agree_weak [OF says_prelude] says_list [where f = translate_plain, OF says_translate_plain]] says_nothing
    by (cases "payloadField (ev_payload e) ''parts''") simp_all
  then show ?thesis unfolding translate_def using says_translate_plain by simp
qed

lemma agree_new: "agree (createRunEventTranslator mid) new_client"
  by (simp add: agree_def createRunEventTranslator_def new_client_def shown_part_def)

text \<open>C10: whatever a run's log holds, the chunks its stream sends are what the client's protocol allows: \<^verbatim>\<open>start\<close> first
  and once, one text or reasoning part open at a time under an id that no other part has, an outcome only for a
  call that waits for one, and, where the run ends, no part open and no call without an outcome.\<close>

theorem stream_keeps_protocol: "client_run (fst (bridge_run mid evs)) new_client \<noteq> None"
proof -
  have "says any_state (and_then prelude (translate_list translate evs)) any_state"
    by (rule says_and_then [OF agree_weak [OF says_prelude] says_list [OF says_translate]])
  then show ?thesis using agree_new [of mid] unfolding says_def bridge_run_def by (metis option.distinct(1))
qed

section \<open>What the stream shows\<close>

definition chunk_item :: "ui_chunk \<Rightarrow> item list" where
  "chunk_item x = (case x of
     Text_Delta i d \<Rightarrow> map Ch d
   | Reasoning_Delta i d \<Rightarrow> map Think d
   | Tool_Input_Available i name args \<Rightarrow> [Call i]
   | Cap_Notice_Chunk a b \<Rightarrow> [Notice (JObj [(js ''stepsUsed'', JNum a), (js ''maxSteps'', JNum b)])]
   | _ \<Rightarrow> [])"

definition chunk_items :: "ui_chunk list \<Rightarrow> item list" where
  "chunk_items xs = concat (map chunk_item xs)"

lemma chunk_items_simps [simp]: "chunk_items [] = []" "chunk_items (xs @ ys) = chunk_items xs @ chunk_items ys" "chunk_items [x] = chunk_item x"
  by (simp_all add: chunk_items_def)

lemma payload_is_event [simp]:
  "payloadField = eventPayloadField" "payloadString = eventPayloadString" "payloadNumber = eventPayloadNumber"
proof -
  have f: "payloadField p k = eventPayloadField p k" for p k by (cases p) (simp_all add: payloadField_def)
  then show "payloadField = eventPayloadField" by blast
  then show "payloadString = eventPayloadString" "payloadNumber = eventPayloadNumber"
    by (simp_all add: payloadString_def payloadNumber_def eventPayloadString_def eventPayloadNumber_def fun_eq_iff)
qed

lemma chunk_items_and_then [simp]: "chunk_items (fst (and_then f g t)) = chunk_items (fst (f t)) @ chunk_items (fst (g (snd (f t))))"
  by (simp add: and_then_def split: prod.splits)

lemma silent [simp]:
  "chunk_items (fst (prelude t)) = []" "chunk_items (fst (closeReasoning t)) = []" "chunk_items (fst (closeText t)) = []"
  "chunk_items (fst (close_parts t)) = []" "chunk_items (fst (open_text t)) = []" "chunk_items (fst (open_reasoning pid t)) = []"
  "chunk_items (fst (emit_chunk x t)) = chunk_item x" "chunk_items (fst (settleOpenTools reason t)) = []"
proof -
  have c: "chunk_items (fst (prelude t)) = []" "chunk_items (fst (closeReasoning t)) = []" "chunk_items (fst (closeText t)) = []" for t
    by (simp_all add: prelude_def closeReasoning_def closeText_def chunk_item_def split: option.splits)
  then show "chunk_items (fst (prelude t)) = []" "chunk_items (fst (closeReasoning t)) = []" "chunk_items (fst (closeText t)) = []" by simp_all
  show "chunk_items (fst (close_parts t)) = []" by (simp add: close_parts_def c)
  show "chunk_items (fst (open_text t)) = []" by (simp add: open_text_def Let_def chunk_item_def split: option.splits)
  show "chunk_items (fst (open_reasoning pid t)) = []"
    using c(2) [of t] by (cases "closeReasoning t") (simp add: open_reasoning_def Let_def chunk_item_def)
  show "chunk_items (fst (emit_chunk x t)) = chunk_item x" by (simp add: emit_chunk_def)
  show "chunk_items (fst (settleOpenTools reason t)) = []" by (simp add: settleOpenTools_def chunk_items_def chunk_item_def)
qed












section \<open>A continued reply\<close>












section \<open>The poll loop\<close>

definition KEEPALIVE_MS :: int where
  "KEEPALIVE_MS = 15 * 1000"

text \<open>What is written to the response: a chunk as an event, a comment, or the end mark.\<close>

datatype sse_frame = Data_Frame ui_chunk | Keepalive_Frame | Done_Frame

record bridge =
  br_translator :: translator
  br_cursor :: nat
  br_lastWriteAt :: int
  br_out :: "sse_frame list"
  br_closed :: bool

text \<open>\<open>rows\<close> is the stored log of the run at the time of the query, ordered by sequence; \<open>now\<close> the time of the last chunk.\<close>

definition drainAndTranslate :: "(nat \<times> run_event) list \<Rightarrow> int \<Rightarrow> bridge \<Rightarrow> bridge \<times> nat" where
  "drainAndTranslate rows now b =
     (let events = filter (\<lambda>r. fst r > br_cursor b) rows in
      case translate_list translate (map snd events) (br_translator b) of
        (chunks, t) \<Rightarrow>
          (b\<lparr>br_translator := t,
             br_cursor := (if events = [] then br_cursor b else fst (last events)),
             br_lastWriteAt := (if chunks = [] then br_lastWriteAt b else now),
             br_out := br_out b @ map Data_Frame chunks\<rparr>, length events))"

text \<open>What one pass of the loop finds: whether the client has gone at its three checks, the log at its two queries, whether
  the row is absent or terminal, and the clock.\<close>

record poll =
  po_aborted :: bool
  po_log :: "(nat \<times> run_event) list"
  po_emitted :: int
  po_gone :: bool
  po_ended :: bool
  po_log_again :: "(nat \<times> run_event) list"
  po_emitted_again :: int
  po_now :: int
  po_kept :: int
  po_left :: bool

definition close_stream :: "bridge \<Rightarrow> bridge" where
  "close_stream b = b\<lparr>br_closed := True\<rparr>"

definition finish_stream :: "bridge \<Rightarrow> bridge" where
  "finish_stream b = close_stream (if isFinished (br_translator b) then b\<lparr>br_out := br_out b @ [Done_Frame]\<rparr> else b)"

definition keep_alive :: "poll \<Rightarrow> bridge \<Rightarrow> bridge" where
  "keep_alive p b =
     (if po_now p - br_lastWriteAt b \<ge> KEEPALIVE_MS
      then b\<lparr>br_lastWriteAt := po_kept p, br_out := br_out b @ [Keepalive_Frame]\<rparr> else b)"

definition pump_pass :: "poll \<Rightarrow> bridge \<Rightarrow> bridge" where
  "pump_pass p b =
     (if br_closed b then b
      else if po_aborted p then close_stream b
      else (case drainAndTranslate (po_log p) (po_emitted p) b of
        (b1, count) \<Rightarrow>
          if isFinished (br_translator b1) then finish_stream b1
          else if po_gone p then close_stream b1
          else if count = 0 \<and> po_ended p
          then finish_stream (fst (drainAndTranslate (po_log_again p) (po_emitted_again p) b1))
          else
            (let b2 = keep_alive p b1 in if po_left p then close_stream b2 else b2)))"

definition pumpUiMessageEvents :: "jstr \<Rightarrow> int \<Rightarrow> poll list \<Rightarrow> bridge" where
  "pumpUiMessageEvents mid now polls =
     (case prelude (createRunEventTranslator mid) of
        (chunks, t) \<Rightarrow> fold pump_pass polls
          \<lparr>br_translator = t, br_cursor = 0, br_lastWriteAt = now, br_out = map Data_Frame chunks, br_closed = False\<rparr>)"

definition data_chunks :: "sse_frame list \<Rightarrow> ui_chunk list" where
  "data_chunks fs = concat (map (\<lambda>f. case f of Data_Frame c \<Rightarrow> [c] | _ \<Rightarrow> []) fs)"

lemma data_chunks_simps [simp]:
  "data_chunks [] = []" "data_chunks (fs @ gs) = data_chunks fs @ data_chunks gs" "data_chunks (map Data_Frame cs) = cs"
  "data_chunks [Keepalive_Frame] = []" "data_chunks [Done_Frame] = []"
  by (simp_all add: data_chunks_def) (induction cs, simp_all)

text \<open>A log: sequences grow, from 1.\<close>

definition is_log :: "(nat \<times> run_event) list \<Rightarrow> bool" where
  "is_log rows \<longleftrightarrow> sorted_wrt (<) (map fst rows) \<and> 0 \<notin> fst ` set rows"

definition seen :: "nat \<Rightarrow> (nat \<times> run_event) list \<Rightarrow> run_event list" where
  "seen cursor rows = map snd (filter (\<lambda>r. fst r \<le> cursor) rows)"

lemma filter_cut:
  fixes rows :: "(nat \<times> 'a) list"
  assumes "sorted_wrt (<) (map fst rows)" "k \<le> n"
  shows "filter (\<lambda>r. fst r \<le> (if drop k (take n rows) = [] then m else fst (last (drop k (take n rows))))) rows =
    (if drop k (take n rows) = [] then filter (\<lambda>r. fst r \<le> m) rows else take n rows)"
proof (cases "drop k (take n rows) = []")
  case False
  then have n: "k < length rows" "k < n" using assms(2) by auto
  define j where "j = min n (length rows)"
  have j: "0 < j" "j \<le> length rows" "take n rows = take j rows" using n by (auto simp: j_def min_def)
  have l: "last (drop k (take n rows)) = rows ! (j - 1)"
    using False n j by (simp add: last_drop last_conv_nth)
  have s: "fst (rows ! a) < fst (rows ! b)" if "a < b" "b < length rows" for a b
    using assms(1) that by (simp add: sorted_wrt_iff_nth_less)
  have "filter (\<lambda>r. fst r \<le> fst (rows ! (j - 1))) (take j rows) = take j rows"
  proof (rule filter_True, rule ballI)
    fix x assume "x \<in> set (take j rows)"
    then obtain a where "a < j" "x = rows ! a" using j(2) by (auto simp: in_set_conv_nth)
    then show "fst x \<le> fst (rows ! (j - 1))" using s [of a "j - 1"] j by (cases "a = j - 1") (auto intro: less_imp_le)
  qed
  moreover have "filter (\<lambda>r. fst r \<le> fst (rows ! (j - 1))) (drop j rows) = []"
  proof (rule filter_False, rule ballI)
    fix x assume "x \<in> set (drop j rows)"
    then obtain a where "a < length rows - j" "x = rows ! (j + a)" by (auto simp: in_set_conv_nth)
    then show "\<not> fst x \<le> fst (rows ! (j - 1))" using s [of "j - 1" "j + a"] j(1) by (simp add: not_le)
  qed
  ultimately have "filter (\<lambda>r. fst r \<le> fst (rows ! (j - 1))) rows = take j rows"
    using filter_append [of "\<lambda>r. fst r \<le> fst (rows ! (j - 1))" "take j rows" "drop j rows"] by simp
  then show ?thesis using False l j(3) by simp
qed simp

lemma filter_prefix:
  fixes rows :: "(nat \<times> 'a) list"
  assumes "sorted_wrt (<) (map fst rows)"
  shows "filter (\<lambda>r. fst r \<le> (m::nat)) rows = take (length (filter (\<lambda>r. fst r \<le> m) rows)) rows"
    "filter (\<lambda>r. fst r > m) (take n rows) = drop (length (filter (\<lambda>r. fst r \<le> m) rows)) (take n rows)"
proof -
  show "filter (\<lambda>r. fst r \<le> m) rows = take (length (filter (\<lambda>r. fst r \<le> m) rows)) rows"
    using assms
  proof (induction rows)
    case (Cons r rows)
    show ?case
    proof (cases "fst r \<le> m")
      case False
      then have "filter (\<lambda>r. fst r \<le> m) (r # rows) = []" using Cons.prems by (auto simp: filter_empty_conv)
      then show ?thesis by (simp only: list.size take_0)
    qed (use Cons in simp)
  qed simp
  show "filter (\<lambda>r. fst r > m) (take n rows) = drop (length (filter (\<lambda>r. fst r \<le> m) rows)) (take n rows)"
    using assms
  proof (induction rows arbitrary: n)
    case (Cons r rows)
    show ?case
    proof (cases "fst r \<le> m")
      case True
      then show ?thesis using Cons by (cases n) auto
    next
      case False
      then have "\<forall>x\<in>set (r # rows). fst x > m" using Cons.prems by auto
      then have "filter (\<lambda>r. fst r \<le> m) (r # rows) = []" "\<forall>x\<in>set (take n (r # rows)). fst x > m"
        using in_set_takeD by (force intro!: filter_False)+
      then show ?thesis by (simp only: list.size drop_0) (rule filter_True)
    qed
  qed simp
qed

text \<open>A bridge that has written the translation of the log up to its cursor.\<close>

definition bridge_ok :: "jstr \<Rightarrow> (nat \<times> run_event) list \<Rightarrow> bridge \<Rightarrow> bool" where
  "bridge_ok mid rows b \<longleftrightarrow> bridge_run mid (seen (br_cursor b) rows) = (data_chunks (br_out b), br_translator b)"

lemma translate_list_append: "translate_list f (es @ fs) t = and_then (translate_list f es) (translate_list f fs) t"
  by (induction es arbitrary: t) (auto simp: and_then_def split: prod.splits)

lemma bridge_run_append:
  "bridge_run mid es = (cs, t) \<Longrightarrow> translate_list translate fs t = (ds, t') \<Longrightarrow> bridge_run mid (es @ fs) = (cs @ ds, t')"
  by (auto simp: bridge_run_def and_then_def translate_list_append split: prod.splits)

lemma drain_ok:
  assumes "is_log rows" "bridge_ok mid rows b" "drainAndTranslate (take n rows) now b = (b', count)"
  shows "bridge_ok mid rows b'" "seen (br_cursor b') rows = map snd (take (max n (length (seen (br_cursor b) rows))) rows)"
    "br_closed b' = br_closed b"
proof -
  let ?k = "length (filter (\<lambda>r. fst r \<le> br_cursor b) rows)"
  have s: "sorted_wrt (<) (map fst rows)" using assms(1) by (simp add: is_log_def)
  note p = filter_prefix [OF s, of "br_cursor b"]
  let ?new = "drop ?k (take n rows)"
  obtain chunks t where t: "translate_list translate (map snd ?new) (br_translator b) = (chunks, t)" by fastforce
  have b': "br_cursor b' = (if ?new = [] then br_cursor b else fst (last ?new))" "br_translator b' = t"
      "data_chunks (br_out b') = data_chunks (br_out b) @ chunks" "br_closed b' = br_closed b"
    using assms(3) t by (auto simp: drainAndTranslate_def Let_def p(2))
  have seen': "seen (br_cursor b') rows = seen (br_cursor b) rows @ map snd ?new"
  proof (cases "?k \<le> n")
    case True
    then have "take n rows = take ?k rows @ ?new" using append_take_drop_id [of ?k "take n rows"] by (simp add: min_def)
    then show ?thesis using filter_cut [OF s True, of "br_cursor b"] p(1) by (auto simp: seen_def b'(1) simp flip: map_append)
  qed (simp add: seen_def b'(1))
  then show "bridge_ok mid rows b'"
    using assms(2) bridge_run_append [OF _ t] by (simp add: bridge_ok_def b'(2,3))
  show "seen (br_cursor b') rows = map snd (take (max n (length (seen (br_cursor b) rows))) rows)"
  proof (cases "?k \<le> n")
    case True
    then have "take n rows = take ?k rows @ ?new" using append_take_drop_id [of ?k "take n rows"] by (simp add: min_def)
    then show ?thesis using True seen' p(1) by (simp add: seen_def max_def) (metis map_append)
  next
    case False
    then show ?thesis using seen' p(1) by (simp add: seen_def max_def)
  qed
  show "br_closed b' = br_closed b" by (fact b'(4))
qed

lemma bridge_ok_update [simp]:
  "bridge_ok mid rows (b\<lparr>br_lastWriteAt := x\<rparr>) = bridge_ok mid rows b" "bridge_ok mid rows (b\<lparr>br_closed := c\<rparr>) = bridge_ok mid rows b"
  "data_chunks fs = [] \<Longrightarrow> bridge_ok mid rows (b\<lparr>br_out := br_out b @ fs\<rparr>) = bridge_ok mid rows b"
  "data_chunks fs = [] \<Longrightarrow> bridge_ok mid rows (b\<lparr>br_lastWriteAt := x, br_out := br_out b @ fs\<rparr>) = bridge_ok mid rows b"
  by (simp_all add: bridge_ok_def)

lemma poll_ends [simp]:
  "bridge_ok mid rows (close_stream b) = bridge_ok mid rows b" "bridge_ok mid rows (finish_stream b) = bridge_ok mid rows b"
  "bridge_ok mid rows (keep_alive p b) = bridge_ok mid rows b"
  by (simp_all add: close_stream_def finish_stream_def keep_alive_def)

text \<open>The queries of a pass return what was stored of the log by then.\<close>

definition poll_of :: "(nat \<times> run_event) list \<Rightarrow> poll \<Rightarrow> bool" where
  "poll_of rows p \<longleftrightarrow> (\<exists>n m. po_log p = take n rows \<and> po_log_again p = take m rows)"

lemma pump_pass_ok:
  assumes "is_log rows" "poll_of rows p" "bridge_ok mid rows b"
  shows "bridge_ok mid rows (pump_pass p b)"
proof -
  obtain n m where nm: "po_log p = take n rows" "po_log_again p = take m rows" using assms(2) by (auto simp: poll_of_def)
  obtain b1 count where d: "drainAndTranslate (take n rows) (po_emitted p) b = (b1, count)" by fastforce
  have b1: "bridge_ok mid rows b1" using drain_ok(1) [OF assms(1,3) d] .
  obtain b2 count' where d': "drainAndTranslate (take m rows) (po_emitted_again p) b1 = (b2, count')" by fastforce
  have "bridge_ok mid rows b2" using drain_ok(1) [OF assms(1) b1 d'] .
  then show ?thesis using assms(3) b1 by (simp add: pump_pass_def nm d d' Let_def)
qed

lemma pump_start_ok:
  assumes "is_log rows" "prelude (createRunEventTranslator mid) = (chunks, t)"
  shows "bridge_ok mid rows \<lparr>br_translator = t, br_cursor = 0, br_lastWriteAt = now, br_out = map Data_Frame chunks, br_closed = False\<rparr>"
proof -
  have "fst r \<noteq> 0" if "r \<in> set rows" for r
    using assms(1) imageI [OF that, of fst] unfolding is_log_def by metis
  then have "filter (\<lambda>r. fst r \<le> 0) rows = []" unfolding filter_empty_conv by blast
  then have "seen 0 rows = []" by (simp add: seen_def)
  then show ?thesis using assms(2) by (simp add: bridge_ok_def bridge_run_def and_then_def)
qed

lemma pump_ok:
  assumes "is_log rows" "\<forall>p\<in>set polls. poll_of rows p"
  shows "bridge_ok mid rows (pumpUiMessageEvents mid now polls)"
proof -
  obtain chunks t where c: "prelude (createRunEventTranslator mid) = (chunks, t)" by fastforce
  have "bridge_ok mid rows b \<Longrightarrow> bridge_ok mid rows (fold pump_pass polls b)" for b
    using assms(2) by (induction polls arbitrary: b) (simp_all add: pump_pass_ok [OF assms(1)])
  then show ?thesis using pump_start_ok [OF assms(1) c] by (simp add: pumpUiMessageEvents_def c)
qed

text \<open>C19: however the poll loop's queries fall between the writes of the run, the response holds, in order and once each,
  the chunks of exactly the events up to the loop's cursor: none is skipped, repeated or reordered.\<close>

theorem bridge_writes_log_once:
  assumes "is_log rows" "\<forall>p\<in>set polls. poll_of rows p"
  shows "data_chunks (br_out (pumpUiMessageEvents mid now polls)) =
    fst (bridge_run mid (seen (br_cursor (pumpUiMessageEvents mid now polls)) rows))"
  using pump_ok [OF assms] by (simp add: bridge_ok_def)

text \<open>The events that end a run.\<close>

definition is_terminal_event :: "run_event \<Rightarrow> bool" where
  "is_terminal_event e \<longleftrightarrow> ev_type e \<in> js ` {''run.completed'', ''run.cancelled'', ''run.expired'', ''run.failed''}"

lemma finished_and_then: "isFinished (snd (and_then f g t)) = isFinished (snd (g (snd (f t))))"
  by (simp add: and_then_def split: prod.splits)

lemma finished_steps [simp]:
  "isFinished (snd (prelude t)) = isFinished t" "isFinished (snd (closeReasoning t)) = isFinished t" "isFinished (snd (closeText t)) = isFinished t"
  "isFinished (snd (open_text t)) = isFinished t" "isFinished (snd (emit_chunk c t)) = isFinished t"
  "isFinished (snd (settleOpenTools r t)) = isFinished t" "isFinished (snd (open_reasoning pid t)) = isFinished t"
  "isFinished (snd (close_parts t)) = isFinished t"
proof -
  have c: "isFinished (snd (prelude t)) = isFinished t" "isFinished (snd (closeReasoning t)) = isFinished t" "isFinished (snd (closeText t)) = isFinished t" for t
    by (simp_all add: prelude_def closeReasoning_def closeText_def split: option.splits)
  then show "isFinished (snd (prelude t)) = isFinished t" "isFinished (snd (closeReasoning t)) = isFinished t" "isFinished (snd (closeText t)) = isFinished t"
    by simp_all
  show "isFinished (snd (open_text t)) = isFinished t" by (simp add: open_text_def Let_def split: option.splits)
  show "isFinished (snd (emit_chunk c t)) = isFinished t" "isFinished (snd (settleOpenTools r t)) = isFinished t"
    by (simp_all add: emit_chunk_def settleOpenTools_def)
  show "isFinished (snd (open_reasoning pid t)) = isFinished t"
    using c(2) [of t] by (cases "closeReasoning t") (simp add: open_reasoning_def Let_def)
  show "isFinished (snd (close_parts t)) = isFinished t" by (simp add: close_parts_def finished_and_then c)
qed

lemma finished_deltas:
  "isFinished (snd (onModelDelta e t)) = isFinished t" "isFinished (snd (onReasoningDelta_event e t)) = isFinished t"
proof -
  let ?m = "and_then prelude (and_then closeReasoning open_text) t"
  let ?r = "and_then prelude (and_then closeText (open_reasoning (eventPayloadString (ev_payload e) ''partId''))) t"
  obtain m1 m2 r1 r2 where m: "?m = (m1, m2)" and r: "?r = (r1, r2)" by (meson surj_pair)
  have "isFinished (snd ?m) = isFinished t" "isFinished (snd ?r) = isFinished t" by (simp_all add: finished_and_then)
  then have "isFinished m2 = isFinished t" "isFinished r2 = isFinished t" by (simp_all only: m r snd_conv)
  then show "isFinished (snd (onModelDelta e t)) = isFinished t" "isFinished (snd (onReasoningDelta_event e t)) = isFinished t"
    unfolding onModelDelta_def onReasoningDelta_event_def Let_def payload_is_event m r prod.case by simp_all
qed

lemma finished_handlers:
  "isFinished (snd (onModelCompleted e t)) = isFinished t" "isFinished (snd (onToolRequested e t)) = isFinished t"
  "isFinished (snd (onToolCompleted e t)) = isFinished t" "isFinished (snd (onStepCapReached e t)) = isFinished t"
  "isFinished (snd (onRunTerminated e t))" "isFinished (snd (onRunFailed e t))"
  by (simp_all add: onModelCompleted_def onToolRequested_def onToolCompleted_def onStepCapReached_def onRunTerminated_def
      onRunFailed_def Let_def finished_and_then split: option.splits)

lemma terminal_types:
  "js ''run.completed'' \<noteq> js ''model.delta''" "js ''run.completed'' \<noteq> js ''reasoning.delta''" "js ''run.completed'' \<noteq> js ''model.completed''"
  "js ''run.completed'' \<noteq> js ''tool.requested''" "js ''run.completed'' \<noteq> js ''tool.completed''" "js ''run.completed'' \<noteq> js ''run.step_cap_reached''"
  "js ''run.cancelled'' \<noteq> js ''model.delta''" "js ''run.cancelled'' \<noteq> js ''reasoning.delta''" "js ''run.cancelled'' \<noteq> js ''model.completed''"
  "js ''run.cancelled'' \<noteq> js ''tool.requested''" "js ''run.cancelled'' \<noteq> js ''tool.completed''" "js ''run.cancelled'' \<noteq> js ''run.step_cap_reached''"
  "js ''run.expired'' \<noteq> js ''model.delta''" "js ''run.expired'' \<noteq> js ''reasoning.delta''" "js ''run.expired'' \<noteq> js ''model.completed''"
  "js ''run.expired'' \<noteq> js ''tool.requested''" "js ''run.expired'' \<noteq> js ''tool.completed''" "js ''run.expired'' \<noteq> js ''run.step_cap_reached''"
  "js ''run.failed'' \<noteq> js ''model.delta''" "js ''run.failed'' \<noteq> js ''reasoning.delta''" "js ''run.failed'' \<noteq> js ''model.completed''"
  "js ''run.failed'' \<noteq> js ''tool.requested''" "js ''run.failed'' \<noteq> js ''tool.completed''" "js ''run.failed'' \<noteq> js ''run.step_cap_reached''"
  by (simp_all add: js_def)

lemma finished_plain: "isFinished (snd (translate_plain e t)) \<longleftrightarrow> isFinished t \<or> is_terminal_event e"
proof (cases "is_terminal_event e")
  case True
  then have "translate_plain e t = onRunTerminated e t \<or> translate_plain e t = onRunFailed e t"
    using terminal_types by (auto simp: translate_plain_def Let_def is_terminal_event_def)
  then show ?thesis using True by (auto simp: finished_handlers)
next
  case False
  then show ?thesis
    by (simp add: translate_plain_def Let_def is_terminal_event_def finished_deltas finished_handlers)
qed

lemma finished_list:
  "(\<And>e t. isFinished (snd (f e t)) \<longleftrightarrow> isFinished t \<or> P e) \<Longrightarrow> isFinished (snd (translate_list f es t)) \<longleftrightarrow> isFinished t \<or> (\<exists>e\<in>set es. P e)"
  by (induction es arbitrary: t) (auto simp: finished_and_then)

lemma toolEvents_types: "e \<in> set (toolEvents p) \<Longrightarrow> ev_type e = js ''tool.requested'' \<or> ev_type e = js ''tool.completed''"
  by (auto simp: toolEvents_def Let_def split: option.splits if_splits)

lemma partEvents_types:
  assumes "e \<in> set (partEvents v n)"
  shows "ev_type e \<in> {js ''model.delta'', js ''reasoning.delta'', js ''run.step_cap_reached'', js ''tool.requested'', js ''tool.completed''}"
proof (cases "isRecord v")
  case None
  then show ?thesis using assms by (simp add: partEvents_def)
next
  case (Some part)
  let ?t = "get_prop part (js ''type'')" and ?x = "isString (get_prop part (js ''text''))"
  show ?thesis
  proof (cases "?t = JStr (js ''text'') \<and> ?x \<noteq> None")
    case True
    then show ?thesis using assms Some by (simp add: partEvents_def)
  next
    case no: False
    show ?thesis
    proof (cases "?t = JStr (js ''reasoning'') \<and> ?x \<noteq> None")
      case True
      then show ?thesis using assms Some no by (simp add: partEvents_def Let_def split: if_splits)
    next
      case no': False
      show ?thesis
      proof (cases "?t = JStr (js ''data-cap-notice'')")
        case True
        then show ?thesis using assms Some no no' by (auto simp: partEvents_def Let_def split: option.splits if_splits)
      next
        case False
        then have "e \<in> set (toolEvents part)" using assms Some no no' by (simp add: partEvents_def Let_def split: if_splits)
        then show ?thesis using toolEvents_types by auto
      qed
    qed
  qed
qed

lemma kept_not_terminal:
  assumes "e \<in> set (keptPartEvents parts)"
  shows "\<not> is_terminal_event e"
proof -
  obtain v n where "e \<in> set (partEvents v n)" using assms by (auto simp: keptPartEvents_def)
  from partEvents_types [OF this] show ?thesis using terminal_types by (auto simp: is_terminal_event_def)
qed

lemma finished_translate: "isFinished (snd (translate e t)) \<longleftrightarrow> isFinished t \<or> is_terminal_event e"
proof (cases "ev_type e = js ''run.continued''")
  case True
  then have "\<not> is_terminal_event e" by (auto simp: is_terminal_event_def js_def)
  moreover have "isFinished (snd (translate_list translate_plain (keptPartEvents parts) t)) = isFinished t" for parts t
    using finished_list [of translate_plain is_terminal_event, OF finished_plain] kept_not_terminal by blast
  ultimately show ?thesis using True
    by (cases "eventPayloadField (ev_payload e) ''parts''") (simp_all add: translate_def onRunContinued_def finished_and_then)
qed (simp add: translate_def finished_plain)

lemma finished_run: "isFinished (snd (bridge_run mid evs)) \<longleftrightarrow> (\<exists>e\<in>set evs. is_terminal_event e)"
proof -
  have "isFinished (snd (bridge_run mid evs)) = isFinished (snd (translate_list translate evs (snd (prelude (createRunEventTranslator mid)))))"
    by (simp add: bridge_run_def finished_and_then)
  then show ?thesis using finished_list [of translate is_terminal_event, OF finished_translate]
    by (simp add: createRunEventTranslator_def)
qed

text \<open>C20: a run's stream ends: once the log holds the event that ended the run, a pass that finds the client still there
  writes the rest of the log, then the end mark, and closes.\<close>

theorem bridge_ends_with_run:
  assumes "is_log rows" "\<forall>p\<in>set polls. poll_of rows p" "\<not> br_closed (pumpUiMessageEvents mid now polls)"
    "\<exists>r\<in>set rows. is_terminal_event (snd r)" "po_log p = rows" "\<not> po_aborted p"
  shows "let b = pumpUiMessageEvents mid now (polls @ [p]) in
    br_closed b \<and> last (br_out b) = Done_Frame \<and> data_chunks (br_out b) = fst (bridge_run mid (map snd rows))"
proof -
  let ?b = "pumpUiMessageEvents mid now polls"
  have "bridge_ok mid rows ?b" by (rule pump_ok [OF assms(1,2)])
  moreover obtain b1 count where d: "drainAndTranslate (take (length rows) rows) (po_emitted p) ?b = (b1, count)" by fastforce
  ultimately have b1: "bridge_ok mid rows b1" and "seen (br_cursor b1) rows = map snd (take (max (length rows) (length (seen (br_cursor ?b) rows))) rows)"
    using drain_ok(1,2) [OF assms(1) _ d] by blast+
  then have s: "seen (br_cursor b1) rows = map snd rows" by simp
  then have r: "bridge_run mid (map snd rows) = (data_chunks (br_out b1), br_translator b1)" using b1 by (simp add: bridge_ok_def)
  have fin: "isFinished (br_translator b1)" using finished_run [of mid "map snd rows"] assms(4) by (auto simp: r)
  have "pumpUiMessageEvents mid now (polls @ [p]) = pump_pass p ?b"
    by (simp add: pumpUiMessageEvents_def split: prod.splits)
  also have "\<dots> = finish_stream b1" using assms(3,5,6) d fin by (simp add: pump_pass_def)
  finally show ?thesis using fin by (simp add: finish_stream_def close_stream_def r)
qed

text \<open>A log of two events, read by two polls.\<close>

definition sample_rows :: "(nat \<times> run_event) list" where
  "sample_rows = [(1, \<lparr>ev_type = js ''model.delta'', ev_payload = JObj [(js ''text'', JStr (js ''Hi''))]\<rparr>),
     (3, \<lparr>ev_type = js ''run.completed'', ev_payload = JNull\<rparr>)]"

definition sample_poll :: "nat \<Rightarrow> poll" where
  "sample_poll n = \<lparr>po_aborted = False, po_log = take n sample_rows, po_emitted = 1, po_gone = False, po_ended = False,
     po_log_again = [], po_emitted_again = 1, po_now = 1, po_kept = 1, po_left = False\<rparr>"

lemma sample_log: "is_log sample_rows" "poll_of sample_rows (sample_poll n)"
  by (auto simp: is_log_def sample_rows_def poll_of_def sample_poll_def intro: exI [of _ 0])

theorem bridge_writes_log_once_witness:
  "data_chunks (br_out (pumpUiMessageEvents (js ''m'') 0 [sample_poll 1, sample_poll 2])) =
    fst (bridge_run (js ''m'') (seen (br_cursor (pumpUiMessageEvents (js ''m'') 0 [sample_poll 1, sample_poll 2])) sample_rows))"
  by (rule bridge_writes_log_once) (simp_all add: sample_log)

theorem bridge_ends_with_run_witness:
  "let b = pumpUiMessageEvents (js ''m'') 0 ([sample_poll 1] @ [sample_poll 2]) in
    br_closed b \<and> last (br_out b) = Done_Frame \<and> data_chunks (br_out b) = fst (bridge_run (js ''m'') (map snd sample_rows))"
proof (rule bridge_ends_with_run)
  show "\<not> br_closed (pumpUiMessageEvents (js ''m'') 0 [sample_poll 1])" by code_simp
  show "\<exists>r\<in>set sample_rows. is_terminal_event (snd r)" by code_simp
  show "po_log (sample_poll 2) = sample_rows" by code_simp
  show "\<not> po_aborted (sample_poll 2)" by (simp add: sample_poll_def)
qed (simp_all add: sample_log)

section \<open>Where the stream and the transcript are cut apart\<close>

text \<open>The metadata of a block whose text the provider withheld starts a part of the transcript, and none of the stream: what
  follows without an id joins that part when stored, and the part before it when streamed.\<close>

definition withheld_block :: "run_event list" where
  "withheld_block =
     [\<lparr>ev_type = js ''reasoning.delta'', ev_payload = JObj [(js ''text'', JStr (js ''a'')), (js ''partId'', JStr (js ''r1''))]\<rparr>,
      \<lparr>ev_type = js ''reasoning.delta'', ev_payload = JObj [(js ''partId'', JStr (js ''r2'')), (js ''providerMetadata'', JObj [])]\<rparr>,
      \<lparr>ev_type = js ''reasoning.delta'', ev_payload = JObj [(js ''text'', JStr (js ''b''))]\<rparr>]"

lemma withheld_block_cut_apart:
  "map text_of_part (collector_parts (d_collector (reconstructDurableAssistant sample_env withheld_block (Dec 0 0)))) = [js ''a'', js ''b'']"
  "fst (bridge_run (js ''m'') withheld_block) =
     [Start_Chunk (js ''m''), Reasoning_Start (js ''reasoning-1''), Reasoning_Delta (js ''reasoning-1'') (js ''a''),
      Reasoning_Delta (js ''reasoning-1'') (js ''b'')]"
  by code_simp+

end
