(* ===== verification/Read_Selectors.thy ===== *)
theory Read_Selectors
  imports Run_Payload
begin

text \<open>
  The line selectors of a native file read (\<^verbatim>\<open>packages/native-file-tools/src/path.ts\<close>): the grammar of
  a \<^verbatim>\<open>path:selector\<close> suffix, its split from the path, the members placed as absolute intervals, their
  merge and context growth, the resolution of end-relative members against a line count, and the
  choice between a literal path and a selector. The window a directory listing takes from a selector
  (\<^verbatim>\<open>listing-slice.ts\<close>) is at the end.

  Line numbers are safe integers and every sum formed from two of them that passes the checks stays
  within \<open>2 ^ 53\<close>, so they are \<open>int\<close>; the file system's answers are a record of functions.
\<close>

section \<open>Errors and targets\<close>

datatype file_error_type =
    Invalid_Path | Invalid_Selector | Not_Found | Not_Regular_File | Invalid_Utf8 | Invalid_Input | File_Exists
  | Old_Text_Not_Found | Old_Text_Ambiguous | Outcome_Unknown | Executor_Unavailable | Directory_Too_Large
  | Representation_Too_Large | Media_Too_Large | Unsupported_Media_Type

text \<open>A thrown \<^verbatim>\<open>NativeFileError\<close>; without wording of its own the message is the type.\<close>

record native_file_error =
  fe_type :: file_error_type
  fe_message :: "jstr option"

definition SELECTOR_FORMS :: jstr where
  "SELECTOR_FORMS =
     js ''A line selector is :N, :N-M, :N+K, :N-, or :-K, or a comma-separated list of them; :raw is the whole '' @
     js ''file, or :raw: followed by a list of them; and :outline takes one of them after the colon. A line number '' @
     js ''starts at 1.''"

definition invalidSelectorMessage :: "jstr option \<Rightarrow> jstr" where
  "invalidSelectorMessage encodedSpelling =
     (case encodedSpelling of None \<Rightarrow> SELECTOR_FORMS | Some e \<Rightarrow> SELECTOR_FORMS @ [32] @ e)"

definition file_error :: "file_error_type \<Rightarrow> native_file_error" where
  "file_error t = \<lparr>fe_type = t, fe_message = None\<rparr>"

definition selector_error :: native_file_error where
  "selector_error = \<lparr>fe_type = Invalid_Selector, fe_message = Some (invalidSelectorMessage None)\<rparr>"

record line_interval =
  in_offset :: int
  in_limit :: int

record placed_window =
  pw_offset :: int
  pw_limit :: "int option"
  pw_ranges :: "line_interval list option"
  pw_expandedRanges :: "line_interval list option"

record read_target =
  rt_path :: jstr
  rt_realPath :: "jstr option"
  rt_offset :: int
  rt_limit :: "int option"
  rt_raw :: bool
  rt_outline :: bool
  rt_directory :: bool
  rt_reserveCodeUnits :: "int option"
  rt_lineCount :: "int option"
  rt_linkTargets :: "bool option"
  rt_ranges :: "line_interval list option"
  rt_expandedRanges :: "line_interval list option"
  rt_pending :: "jstr option"

definition plain_target :: "jstr \<Rightarrow> bool \<Rightarrow> read_target" where
  "plain_target path raw =
     \<lparr>rt_path = path, rt_realPath = None, rt_offset = 0, rt_limit = None, rt_raw = raw, rt_outline = False,
      rt_directory = False, rt_reserveCodeUnits = None, rt_lineCount = None, rt_linkTargets = None,
      rt_ranges = None, rt_expandedRanges = None, rt_pending = None\<rparr>"

definition assertResolvedTarget :: "read_target \<Rightarrow> native_file_error + unit" where
  "assertResolvedTarget target = (if rt_pending target \<noteq> None then Inl (file_error Invalid_Selector) else Inr ())"

section \<open>Intervals\<close>

definition MAX_SELECTOR_RANGES :: nat where
  "MAX_SELECTOR_RANGES = 64"

definition interval_end :: "line_interval \<Rightarrow> int" where
  "interval_end i = in_offset i + in_limit i"

text \<open>One turn of the merge loop.\<close>

definition merge_interval :: "line_interval list \<Rightarrow> line_interval \<Rightarrow> line_interval list" where
  "merge_interval merged current =
     (if merged \<noteq> [] \<and> in_offset current \<le> interval_end (last merged)
      then butlast merged @
             [(last merged)\<lparr>in_limit := max (interval_end (last merged)) (interval_end current) - in_offset (last merged)\<rparr>]
      else merged @ [current])"

definition mergeLineIntervals :: "line_interval list \<Rightarrow> line_interval list" where
  "mergeLineIntervals intervals = foldl merge_interval [] (sort_key in_offset intervals)"

definition expandRanges :: "line_interval list \<Rightarrow> line_interval list" where
  "expandRanges ranges =
     mergeLineIntervals (map (\<lambda>r. \<lparr>in_offset = max 0 (in_offset r - 1),
                              in_limit = in_limit r + (if in_offset r > 0 then 1 else 0) + 1\<rparr>) ranges)"

section \<open>Members\<close>

definition MAX_SAFE_INTEGER :: int where
  "MAX_SAFE_INTEGER = 2 ^ 53 - 1"

text \<open>\<^verbatim>\<open>Number\<close> of a text of digits is exact up to \<open>2 ^ 53\<close> and not below \<open>2 ^ 53\<close> (or infinite) above
  it, so the check for a safe integer is the comparison of the exact value.\<close>

definition bound :: "jstr \<Rightarrow> native_file_error + int" where
  "bound text =
     (let n = int (digits_val text) in if n > MAX_SAFE_INTEGER \<or> n < 1 then Inl selector_error else Inr n)"

definition digit_text :: "jstr \<Rightarrow> bool" where
  "digit_text s \<longleftrightarrow> s \<noteq> [] \<and> list_all is_digit s"

text \<open>\<^verbatim>\<open>^(\d+)(?:([-+])(\d+))?$\<close>, \<^verbatim>\<open>^(\d+)-$\<close> and \<^verbatim>\<open>^-(\d+)$\<close>.\<close>

definition range_match :: "jstr \<Rightarrow> (jstr \<times> (code_unit \<times> jstr) option) option" where
  "range_match v =
     (let ds = takeWhile is_digit v in
      if ds = [] then None
      else (case dropWhile is_digit v of
              [] \<Rightarrow> Some (ds, None)
            | c # e \<Rightarrow> if (c = 43 \<or> c = 45) \<and> digit_text e then Some (ds, Some (c, e)) else None))"

definition THROUGH_END :: "jstr \<Rightarrow> jstr option" where
  "THROUGH_END v =
     (let ds = takeWhile is_digit v in if ds \<noteq> [] \<and> dropWhile is_digit v = [45] then Some ds else None)"

definition LAST_LINES :: "jstr \<Rightarrow> jstr option" where
  "LAST_LINES v = (case v of c # ds \<Rightarrow> if c = 45 \<and> digit_text ds then Some ds else None | [] \<Rightarrow> None)"

definition parseRange :: "jstr \<Rightarrow> native_file_error + line_interval" where
  "parseRange v =
     (case range_match v of
        None \<Rightarrow> Inl selector_error
      | Some (a, m) \<Rightarrow>
          bind_res (bound a) (\<lambda>start.
          bind_res (case m of None \<Rightarrow> Inr start | Some (_, b) \<Rightarrow> bound b) (\<lambda>operand.
            let stop = (case m of Some (c, _) \<Rightarrow> if c = 43 then start + (operand - 1) else operand | None \<Rightarrow> operand) in
            if stop > MAX_SAFE_INTEGER \<or> stop < start then Inl selector_error
            else Inr \<lparr>in_offset = start - 1, in_limit = stop - start + 1\<rparr>)))"

definition parseMember :: "jstr \<Rightarrow> int \<Rightarrow> native_file_error + line_interval" where
  "parseMember v count =
     (case THROUGH_END v of
        Some ds \<Rightarrow> bind_res (bound ds) (\<lambda>start. Inr \<lparr>in_offset = start - 1, in_limit = max 0 (count - start + 1)\<rparr>)
      | None \<Rightarrow>
          (case LAST_LINES v of
             Some ds \<Rightarrow> bind_res (bound ds) (\<lambda>k.
               let start = max 1 (count - k + 1) in Inr \<lparr>in_offset = start - 1, in_limit = count - start + 1\<rparr>)
           | None \<Rightarrow> parseRange v))"

definition splitMembers :: "jstr \<Rightarrow> native_file_error + jstr list" where
  "splitMembers v =
     (let members = split_on 44 v in
      if length members > MAX_SELECTOR_RANGES then Inl selector_error else Inr members)"

section \<open>Placing\<close>

text \<open>The first interval of a merge, which \<^verbatim>\<open>placeMembers\<close> reads without a check: \<open>None\<close> is the value
  \<^verbatim>\<open>undefined\<close> (or the \<^verbatim>\<open>TypeError\<close> of reading its offset), and \<open>placing_succeeds\<close> below shows
  that no call meets it.\<close>

definition placeMembers :: "line_interval list \<Rightarrow> bool \<Rightarrow> bool \<Rightarrow> placed_window option" where
  "placeMembers members comma raw =
     (let ranges = mergeLineIntervals members in
      case ranges of
        [] \<Rightarrow> None
      | r # _ \<Rightarrow>
          Some (if \<not> comma
                then \<lparr>pw_offset = in_offset r, pw_limit = Some (in_limit r), pw_ranges = None, pw_expandedRanges = None\<rparr>
                else \<lparr>pw_offset = in_offset r, pw_limit = None, pw_ranges = Some ranges,
                      pw_expandedRanges = Some (if raw then ranges else expandRanges ranges)\<rparr>))"

definition resolvePendingSelector :: "jstr \<Rightarrow> int \<Rightarrow> bool \<Rightarrow> native_file_error + placed_window option" where
  "resolvePendingSelector pending count raw =
     (let comma = 44 \<in> set pending in
      bind_res (map_res (\<lambda>m. parseMember m count) (split_on 44 pending)) (\<lambda>placed.
        let first = Min (in_offset ` set placed) in
        Inr (if \<exists>m\<in>set placed. in_limit m = 0 \<and> in_offset m = first
             then Some (if comma
                        then \<lparr>pw_offset = first, pw_limit = None, pw_ranges = Some [], pw_expandedRanges = Some []\<rparr>
                        else \<lparr>pw_offset = first, pw_limit = None, pw_ranges = None, pw_expandedRanges = None\<rparr>)
             else placeMembers (filter (\<lambda>m. in_limit m > 0) placed) comma raw)))"

text \<open>Object spread: the fields a window has replace those of the target.\<close>

definition override :: "'a option \<Rightarrow> 'a option \<Rightarrow> 'a option" where
  "override new old = (case new of None \<Rightarrow> old | Some _ \<Rightarrow> new)"

definition with_window :: "read_target \<Rightarrow> placed_window option \<Rightarrow> read_target" where
  "with_window t w =
     (case w of
        None \<Rightarrow> t
      | Some p \<Rightarrow> t\<lparr>rt_offset := pw_offset p, rt_limit := override (pw_limit p) (rt_limit t),
                    rt_ranges := override (pw_ranges p) (rt_ranges t),
                    rt_expandedRanges := override (pw_expandedRanges p) (rt_expandedRanges t)\<rparr>)"

definition resolveEndRelativeSelector :: "read_target \<Rightarrow> int \<Rightarrow> native_file_error + read_target" where
  "resolveEndRelativeSelector target count =
     (case rt_pending target of
        None \<Rightarrow> Inr target
      | Some pending \<Rightarrow>
          bind_res (resolvePendingSelector pending count (rt_raw target))
            (\<lambda>w. Inr (with_window (target\<lparr>rt_pending := None\<rparr>) w)))"

text \<open>Validated members applied to a path.\<close>

definition applyMembers :: "jstr \<Rightarrow> jstr \<Rightarrow> bool \<Rightarrow> native_file_error + read_target" where
  "applyMembers path v raw =
     bind_res (splitMembers v) (\<lambda>members.
     bind_res (map_res (\<lambda>m. parseMember m 0) members) (\<lambda>intervals.
       Inr (if \<exists>m\<in>set intervals. in_limit m = 0 then (plain_target path raw)\<lparr>rt_pending := Some v\<rparr>
            else with_window (plain_target path raw) (placeMembers intervals (length members > 1) raw))))"

section \<open>The grammar\<close>

definition MEMBER :: "jstr \<Rightarrow> bool" where
  "MEMBER v \<longleftrightarrow> range_match v \<noteq> None \<or> THROUGH_END v \<noteq> None \<or> LAST_LINES v \<noteq> None"

definition MEMBER_LIST :: "jstr \<Rightarrow> bool" where
  "MEMBER_LIST v \<longleftrightarrow> list_all MEMBER (split_on 44 v)"

text \<open>The text before a suffix, and after a prefix.\<close>

definition before_suffix :: "jstr \<Rightarrow> jstr \<Rightarrow> jstr option" where
  "before_suffix s p =
     (if length p \<le> length s \<and> drop (length s - length p) s = p then Some (take (length s - length p) s) else None)"

definition after_prefix :: "jstr \<Rightarrow> jstr \<Rightarrow> jstr option" where
  "after_prefix s p = (if starts_with s p then Some (drop (length p) s) else None)"

definition holds_in :: "('a \<Rightarrow> bool) \<Rightarrow> 'a option \<Rightarrow> bool" where
  "holds_in P x \<longleftrightarrow> (case x of None \<Rightarrow> False | Some y \<Rightarrow> P y)"

definition isSelectorSuffix :: "jstr \<Rightarrow> bool" where
  "isSelectorSuffix v \<longleftrightarrow>
     v = js ''raw'' \<or> holds_in MEMBER_LIST (after_prefix v (js ''raw:'')) \<or>
     v = js ''outline'' \<or> holds_in MEMBER (after_prefix v (js ''outline:'')) \<or>
     holds_in MEMBER_LIST (before_suffix v (js '':raw'')) \<or> MEMBER_LIST v"

definition applySelectorSuffix :: "jstr \<Rightarrow> jstr option \<Rightarrow> native_file_error + read_target" where
  "applySelectorSuffix path selector =
     (case selector of
        None \<Rightarrow> Inr (plain_target path False)
      | Some v \<Rightarrow>
          if v = js ''raw'' then Inr (plain_target path True)
          else if v = js ''outline'' then Inr ((plain_target path False)\<lparr>rt_outline := True\<rparr>)
          else if \<not> isSelectorSuffix v then Inl selector_error
          else if holds_in MEMBER_LIST (before_suffix v (js '':raw''))
          then applyMembers path (the (before_suffix v (js '':raw''))) True
          else (case after_prefix v (js ''outline:'') of
                  Some l \<Rightarrow> bind_res (applyMembers path l False) (\<lambda>t. Inr (t\<lparr>rt_outline := True\<rparr>))
                | None \<Rightarrow>
                    (case after_prefix v (js ''raw:'') of
                       Some l \<Rightarrow> applyMembers path l True
                     | None \<Rightarrow> applyMembers path v False)))"

text \<open>\<^verbatim>\<open>/:raw(?::([^:/]*))?$/\<close> and its \<^verbatim>\<open>:outline\<close> twin, matched leftmost: the text before the marker
  and what follows its second colon. That text has no colon, so the colon is the last of the input.\<close>

definition marker_match :: "jstr \<Rightarrow> jstr \<Rightarrow> (jstr \<times> jstr option) option" where
  "marker_match marker input =
     (case last_index_of input [58] of
        None \<Rightarrow> None
      | Some c \<Rightarrow>
          (let before = take c input; rest = drop (c + 1) input in
           case before_suffix before (58 # marker) of
             Some p \<Rightarrow> if 47 \<notin> set rest then Some (p, Some rest) else None
           | None \<Rightarrow> if rest = marker then Some (before, None) else None))"

definition last_index :: "jstr \<Rightarrow> code_unit \<Rightarrow> int" where
  "last_index s c = (case last_index_of s [c] of None \<Rightarrow> -1 | Some i \<Rightarrow> int i)"

definition rawSplit :: "jstr \<Rightarrow> jstr \<times> jstr option" where
  "rawSplit before =
     (let colon = last_index before 58 in
      if colon \<le> last_index before 47 then (before, Some (js ''raw''))
      else (let l = drop (nat colon + 1) before in
            if MEMBER_LIST l then (take (nat colon) before, Some (js ''raw:'' @ l)) else (before, Some (js ''raw''))))"

definition splitSelectorSuffix :: "jstr \<Rightarrow> jstr \<times> jstr option" where
  "splitSelectorSuffix input =
     (case marker_match (js ''raw'') input of
        Some (before, Some l) \<Rightarrow> (before, Some (js ''raw:'' @ l))
      | Some (before, None) \<Rightarrow> rawSplit before
      | None \<Rightarrow>
          (case marker_match (js ''outline'') input of
             Some (before, Some l) \<Rightarrow> (before, Some (js ''outline:'' @ l))
           | Some (before, None) \<Rightarrow> (before, Some (js ''outline''))
           | None \<Rightarrow>
               (let colon = last_index input 58 in
                if colon > last_index input 47 then (take (nat colon) input, Some (drop (nat colon + 1) input))
                else (input, None))))"

definition parseSelector :: "jstr \<Rightarrow> native_file_error + read_target" where
  "parseSelector input = (case splitSelectorSuffix input of (path, selector) \<Rightarrow> applySelectorSuffix path selector)"

section \<open>Literal path or selector\<close>

datatype entry_kind = Regular | Directory | Symlink | Other_Entry

text \<open>What the file system answers: \<^verbatim>\<open>lstat\<close> and \<^verbatim>\<open>stat\<close> fail with a code, \<^verbatim>\<open>realpath\<close> may fail;
  \<^verbatim>\<open>normalize\<close> is the platform's.\<close>

record file_system =
  fs_lstat :: "jstr \<Rightarrow> jstr + entry_kind"
  fs_stat :: "jstr \<Rightarrow> jstr + entry_kind"
  fs_realpath :: "jstr \<Rightarrow> jstr option"
  fs_normalize :: "jstr \<Rightarrow> jstr"

datatype read_failure = Native native_file_error | Node jstr

definition isDirectoryTarget :: "file_system \<Rightarrow> jstr \<Rightarrow> jstr + bool" where
  "isDirectoryTarget fs path =
     bind_res (fs_lstat fs path) (\<lambda>k.
       if k = Directory then Inr True
       else if k = Symlink then bind_res (fs_stat fs path) (\<lambda>k'. Inr (k' = Directory))
       else Inr False)"

definition realPathField :: "file_system \<Rightarrow> jstr \<Rightarrow> jstr option" where
  "realPathField fs path =
     (case fs_realpath fs path of
        None \<Rightarrow> None
      | Some canonical \<Rightarrow> if canonical = fs_normalize fs path then None else Some canonical)"

definition classifyParsedTarget :: "file_system \<Rightarrow> read_target \<Rightarrow> read_target" where
  "classifyParsedTarget fs target =
     (if isDirectoryTarget fs (rt_path target) = Inr True then target\<lparr>rt_directory := True\<rparr>
      else target\<lparr>rt_realPath := override (realPathField fs (rt_path target)) (rt_realPath target)\<rparr>)"

definition resolveReadTarget :: "file_system \<Rightarrow> jstr \<Rightarrow> read_failure + read_target" where
  "resolveReadTarget fs input =
     (if parsePathScheme input \<noteq> None \<or> \<not> starts_with input [47] \<or> 0 \<in> set input
      then Inl (Native (file_error Invalid_Path))
      else
        (let hasTrailingSep = length input > 1 \<and> last input = 47;
             cleanPath = (if hasTrailingSep then butlast input else input);
             parsed = (case parseSelector input of
                         Inl e \<Rightarrow> Inl (Native e)
                       | Inr t \<Rightarrow> Inr (classifyParsedTarget fs t)) in
         case isDirectoryTarget fs cleanPath of
           Inr True \<Rightarrow> Inr ((plain_target cleanPath False)\<lparr>rt_directory := True\<rparr>)
         | Inr False \<Rightarrow>
             if hasTrailingSep then Inl (Native (file_error Not_Found))
             else Inr ((plain_target cleanPath False)\<lparr>rt_realPath := realPathField fs cleanPath\<rparr>)
         | Inl code \<Rightarrow>
             if code = js ''ENOTDIR'' then Inl (Native (file_error Not_Found))
             else if code \<noteq> js ''ENOENT'' \<and> code \<noteq> js ''ENAMETOOLONG'' then Inl (Node code)
             else if hasTrailingSep then Inl (Native (file_error Not_Found))
             else parsed))"

section \<open>The window of a listing\<close>

record slice_options =
  so_offset :: "int option"
  so_limit :: "int option"
  so_pending :: "jstr option"

text \<open>The window is a pair of offset and end.\<close>

definition pendingSliceWindow :: "jstr \<Rightarrow> int \<Rightarrow> native_file_error + (int \<times> int) option" where
  "pendingSliceWindow pending count =
     bind_res (resolvePendingSelector pending count False) (\<lambda>w.
       case w of
         None \<Rightarrow> Inr None
       | Some placed \<Rightarrow>
           if pw_ranges placed \<noteq> None then Inl selector_error
           else Inr (Some (pw_offset placed,
                           min (pw_offset placed + (case pw_limit placed of None \<Rightarrow> count | Some l \<Rightarrow> l)) count)))"

definition sliceWindow :: "slice_options \<Rightarrow> int \<Rightarrow> native_file_error + (int \<times> int) option" where
  "sliceWindow options count =
     (case so_pending options of
        Some pending \<Rightarrow> pendingSliceWindow pending count
      | None \<Rightarrow>
          (let offset = (case so_offset options of None \<Rightarrow> 0 | Some n \<Rightarrow> n) in
           Inr (Some (offset, min (offset + (case so_limit options of None \<Rightarrow> count | Some l \<Rightarrow> l)) count))))"

section \<open>Merging\<close>

text \<open>The lines of an interval, counted from one as a selector writes them, and intervals in order with a
  line between each and the next.\<close>

definition interval_lines :: "line_interval \<Rightarrow> int set" where
  "interval_lines i = {in_offset i + 1..interval_end i}"

definition all_lines :: "line_interval list \<Rightarrow> int set" where
  "all_lines is = (\<Union>i\<in>set is. interval_lines i)"

definition separated :: "line_interval list \<Rightarrow> bool" where
  "separated is \<longleftrightarrow> sorted_wrt (\<lambda>a b. interval_end a < in_offset b) is"

definition sound :: "line_interval list \<Rightarrow> bool" where
  "sound is \<longleftrightarrow> (\<forall>i\<in>set is. 0 \<le> in_offset i \<and> 0 < in_limit i)"

named_theorems interval_defs

lemmas [interval_defs] = interval_lines_def interval_end_def all_lines_def separated_def sound_def

lemma all_lines_append: "all_lines (a @ b) = all_lines a \<union> all_lines b"
  by (auto simp: all_lines_def)

lemma merge_interval_step:
  assumes "separated ms" "sound ms" "sound [c]" "ms \<noteq> [] \<Longrightarrow> in_offset (last ms) \<le> in_offset c"
  shows "separated (merge_interval ms c) \<and> sound (merge_interval ms c) \<and>
    all_lines (merge_interval ms c) = all_lines (ms @ [c]) \<and> in_offset (last (merge_interval ms c)) \<le> in_offset c"
proof (cases "ms \<noteq> [] \<and> in_offset c \<le> interval_end (last ms)")
  case True
  then obtain as l where ms: "ms = as @ [l]" by (metis append_butlast_last_id)
  with True assms show ?thesis
    by (auto simp: merge_interval_def interval_defs sorted_wrt_append max_def)
next
  case False
  then show ?thesis
  proof (cases ms rule: rev_cases)
    case (snoc as l)
    with False assms show ?thesis
      by (fastforce simp: merge_interval_def interval_defs sorted_wrt_append)
  qed (use assms in \<open>simp add: merge_interval_def interval_defs\<close>)
qed

lemma merge_fold:
  "sorted (map in_offset cs) \<Longrightarrow> sound cs \<Longrightarrow> separated ms \<Longrightarrow> sound ms \<Longrightarrow>
   (\<forall>c\<in>set cs. ms \<noteq> [] \<longrightarrow> in_offset (last ms) \<le> in_offset c) \<Longrightarrow>
   separated (foldl merge_interval ms cs) \<and> sound (foldl merge_interval ms cs) \<and>
   all_lines (foldl merge_interval ms cs) = all_lines (ms @ cs)"
proof (induction cs arbitrary: ms)
  case (Cons c cs)
  have s: "sound [c]" "sound cs" using Cons.prems(2) by (auto simp: sound_def)
  note step = merge_interval_step [OF Cons.prems(3,4) s(1)]
  have m: "separated (merge_interval ms c)" "sound (merge_interval ms c)"
    "all_lines (merge_interval ms c) = all_lines (ms @ [c])" "in_offset (last (merge_interval ms c)) \<le> in_offset c"
    using step Cons.prems(5) by auto
  have "\<forall>d\<in>set cs. merge_interval ms c \<noteq> [] \<longrightarrow> in_offset (last (merge_interval ms c)) \<le> in_offset d"
    using m(4) Cons.prems(1) by fastforce
  from Cons.IH [OF _ s(2) m(1,2) this] Cons.prems(1) m(3) show ?case by (simp add: all_lines_append Un_assoc [symmetric] all_lines_def)
qed (simp add: all_lines_def)

text \<open>For intervals of at least one line, the merge returns intervals in order, separated by at least one line,
  that cover exactly the lines of the input.\<close>

lemma merged_exact:
  assumes "sound intervals"
  shows "separated (mergeLineIntervals intervals) \<and> sound (mergeLineIntervals intervals) \<and>
    all_lines (mergeLineIntervals intervals) = all_lines intervals"
proof -
  have "sound (sort_key in_offset intervals)" using assms by (simp add: sound_def)
  from merge_fold [OF _ this, of "[]"] show ?thesis
    by (simp add: mergeLineIntervals_def separated_def sound_def all_lines_def)
qed

text \<open>Context growth adds exactly the lines next to a requested line, clips at the first line, and the grown
  intervals are again in order and separated.\<close>

lemma context_grows_by_one:
  assumes "sound ranges"
  shows "separated (expandRanges ranges) \<and>
    all_lines (expandRanges ranges) = {l. 1 \<le> l \<and> (\<exists>x\<in>all_lines ranges. \<bar>l - x\<bar> \<le> 1)}"
proof -
  define g where "g r = \<lparr>in_offset = max 0 (in_offset r - 1), in_limit = in_limit r + (if in_offset r > 0 then 1 else 0) + 1\<rparr>"
    for r :: line_interval
  have e: "expandRanges ranges = mergeLineIntervals (map g ranges)" by (simp add: expandRanges_def g_def [abs_def])
  have s: "sound (map g ranges)" using assms by (auto simp: sound_def g_def)
  have one: "interval_lines (g r) = {l. 1 \<le> l \<and> (\<exists>x\<in>interval_lines r. \<bar>l - x\<bar> \<le> 1)}" if "r \<in> set ranges" for r
  proof -
    have r: "0 \<le> in_offset r" "0 < in_limit r" using assms that by (auto simp: sound_def)
    have "(\<exists>x\<in>interval_lines r. \<bar>l - x\<bar> \<le> 1) \<longleftrightarrow> in_offset r \<le> l \<and> l \<le> interval_end r + 1" for l
    proof
      assume "in_offset r \<le> l \<and> l \<le> interval_end r + 1"
      then show "\<exists>x\<in>interval_lines r. \<bar>l - x\<bar> \<le> 1" using r
        by (intro bexI [of _ "max (in_offset r + 1) (min l (interval_end r))"]) (auto simp: interval_defs)
    qed (auto simp: interval_defs)
    then show ?thesis using r by (auto simp: g_def interval_defs)
  qed
  have "all_lines (map g ranges) = {l. 1 \<le> l \<and> (\<exists>x\<in>all_lines ranges. \<bar>l - x\<bar> \<le> 1)}"
    using one unfolding all_lines_def by auto
  then show ?thesis using merged_exact [OF s] by (simp add: e)
qed

theorem context_grows_by_one_witness:
  "separated (expandRanges [\<lparr>in_offset = 0, in_limit = 1\<rparr>, \<lparr>in_offset = 2, in_limit = 1\<rparr>]) \<and>
   expandRanges [\<lparr>in_offset = 0, in_limit = 1\<rparr>, \<lparr>in_offset = 2, in_limit = 1\<rparr>] = [\<lparr>in_offset = 0, in_limit = 4\<rparr>]"
  using context_grows_by_one [of "[\<lparr>in_offset = 0, in_limit = 1\<rparr>, \<lparr>in_offset = 2, in_limit = 1\<rparr>]"]
  by (simp add: sound_def expandRanges_def mergeLineIntervals_def merge_interval_def interval_end_def)

section \<open>What a member names\<close>

text \<open>The lines a member names of a source of \<open>count\<close> lines, from its text.\<close>

definition num :: "jstr \<Rightarrow> int" where
  "num ds = int (digits_val ds)"

definition requested_member :: "int \<Rightarrow> jstr \<Rightarrow> int set" where
  "requested_member count v =
     (case THROUGH_END v of
        Some n \<Rightarrow> {num n..count}
      | None \<Rightarrow>
          (case LAST_LINES v of
             Some k \<Rightarrow> {l. 1 \<le> l \<and> count - num k < l \<and> l \<le> count}
           | None \<Rightarrow>
               (case range_match v of
                  Some (n, None) \<Rightarrow> {num n}
                | Some (n, Some (c, k)) \<Rightarrow> if c = 43 then {num n..num n + num k - 1} else {num n..num k}
                | None \<Rightarrow> {})))"

definition requested_lines :: "int \<Rightarrow> jstr \<Rightarrow> int set" where
  "requested_lines count members = (\<Union>m\<in>set (split_on 44 members). requested_member count m)"

lemma bound_Inr [simp]: "bound t = Inr n \<longleftrightarrow> n = num t \<and> 1 \<le> n \<and> n \<le> MAX_SAFE_INTEGER"
  by (auto simp: bound_def num_def Let_def)

lemma parseRange_Inr:
  "parseRange v = Inr i \<Longrightarrow> range_match v \<noteq> None \<and> 0 \<le> in_offset i \<and> 0 < in_limit i \<and> interval_end i \<le> MAX_SAFE_INTEGER \<and>
     (\<forall>count. THROUGH_END v = None \<longrightarrow> LAST_LINES v = None \<longrightarrow> interval_lines i = requested_member count v)"
  by (auto simp: parseRange_def Let_def requested_member_def interval_lines_def interval_end_def split: option.splits if_splits)

text \<open>What parsing a member gives: its lines, and no lines exactly when it starts past the end.\<close>

lemma parseMember_Inr:
  assumes "parseMember v count = Inr i" "0 \<le> count"
  shows "0 \<le> in_offset i \<and> 0 \<le> in_limit i \<and> (in_limit i = 0 \<longrightarrow> count \<le> in_offset i) \<and>
    interval_lines i = requested_member count v"
proof (cases "THROUGH_END v = None \<and> LAST_LINES v = None")
  case True
  then have "parseRange v = Inr i" using assms by (simp add: parseMember_def)
  from parseRange_Inr [OF this] True show ?thesis by auto
next
  case False
  then show ?thesis using assms
    by (auto simp: parseMember_def requested_member_def interval_lines_def interval_end_def Let_def split: option.splits)
qed

text \<open>Whether a member is well formed does not depend on the count.\<close>

lemma parseMember_count: "(\<exists>i. parseMember v a = Inr i) \<longleftrightarrow> (\<exists>i. parseMember v b = Inr i)"
  by (auto simp: parseMember_def Let_def split: option.splits)

section \<open>What a resolved target reads\<close>

text \<open>The lines of a source of \<open>count\<close> lines that a target without pending members names, before context growth.\<close>

definition target_lines :: "read_target \<Rightarrow> int \<Rightarrow> int set" where
  "target_lines t count =
     (case rt_ranges t of
        Some ranges \<Rightarrow> all_lines ranges
      | None \<Rightarrow> {rt_offset t + 1..(case rt_limit t of None \<Rightarrow> count | Some n \<Rightarrow> rt_offset t + n)}) \<inter> {1..count}"

lemma split_on_single: "c \<notin> set s \<longleftrightarrow> length (split_on c s) = 1"
proof
  assume "length (split_on c s) = 1"
  then obtain w where w: "split_on c s = [w]" by (metis One_nat_def length_0_conv length_Suc_conv)
  then have "w = s" using join_split_on [of c s] by simp
  then show "c \<notin> set s" using split_on_clean [of w c s] w by simp
qed (simp add: split_on_plain)

lemma placed_lines:
  assumes "list_all2 (\<lambda>m i. parseMember m count = Inr i) ms placed" "0 \<le> count"
  shows "(\<forall>i\<in>set placed. 0 \<le> in_offset i \<and> 0 \<le> in_limit i \<and> (in_limit i = 0 \<longrightarrow> count \<le> in_offset i)) \<and>
    all_lines placed = (\<Union>m\<in>set ms. requested_member count m)"
  using assms(1)
proof (induction rule: list_all2_induct)
  case (Cons m ms i placed)
  with parseMember_Inr [OF Cons.hyps(1) assms(2)] show ?case by (auto simp: all_lines_def)
qed (simp add: all_lines_def)

lemma merge_single: "mergeLineIntervals [i] = [i]"
  by (simp add: mergeLineIntervals_def merge_interval_def)

lemma place_members:
  assumes s: "sound ms" and ne: "ms \<noteq> []" and c: "\<not> comma \<Longrightarrow> length ms = 1"
  shows "\<exists>w. placeMembers ms comma raw = Some w \<and> (pw_ranges w = None \<longleftrightarrow> \<not> comma) \<and>
    (\<forall>t count. rt_ranges t = None \<longrightarrow> rt_limit t = None \<longrightarrow> target_lines (with_window t (Some w)) count = all_lines ms \<inter> {1..count}) \<and>
    pw_ranges w = (if comma then Some (mergeLineIntervals ms) else None) \<and>
    pw_expandedRanges w = (if comma then Some (if raw then mergeLineIntervals ms else expandRanges (mergeLineIntervals ms)) else None)"
proof -
  have "all_lines ms \<noteq> {}" using s ne by (cases ms) (auto simp: interval_defs)
  then obtain r rs where m: "mergeLineIntervals ms = r # rs"
    using merged_exact [OF s] by (cases "mergeLineIntervals ms") (auto simp: all_lines_def)
  show ?thesis
  proof (cases comma)
    case True
    then show ?thesis using merged_exact [OF s]
      by (cases raw) (simp_all add: placeMembers_def Let_def m with_window_def override_def target_lines_def)
  next
    case False
    then obtain i where "ms = [i]" using c by (metis One_nat_def length_0_conv length_Suc_conv)
    then show ?thesis using False m
      by (auto simp: placeMembers_def Let_def merge_single with_window_def override_def target_lines_def all_lines_def
          interval_lines_def interval_end_def)
  qed
qed

text \<open>Placing never meets an empty merge, and the window it returns names the requested lines.\<close>

lemma placing_succeeds:
  assumes p: "list_all2 (\<lambda>m i. parseMember m count = Inr i) (split_on 44 l) placed" and c: "0 \<le> count"
  shows "\<exists>w. resolvePendingSelector l count raw = Inr (Some w) \<and>
    (\<forall>t. rt_ranges t = None \<longrightarrow> rt_limit t = None \<longrightarrow>
       target_lines (with_window t (Some w)) count = requested_lines count l \<inter> {1..count})"
proof -
  have mr: "map_res (\<lambda>m. parseMember m count) (split_on 44 l) = Inr placed" using p by (simp add: map_res_Inr)
  note pl = placed_lines [OF p c]
  have ne: "placed \<noteq> []" using p by auto
  define first where "first = Min (in_offset ` set placed)"
  have least: "first \<le> in_offset i" if "i \<in> set placed" for i using that by (simp add: first_def)
  have al: "all_lines placed = requested_lines count l" using pl by (simp add: requested_lines_def)
  show ?thesis
  proof (cases "\<exists>m\<in>set placed. in_limit m = 0 \<and> in_offset m = first")
    case True
    then have "count \<le> first" using pl by auto
    then have "requested_lines count l \<inter> {1..count} = {}" using least
      by (fastforce simp: al [symmetric] all_lines_def interval_lines_def)
    with True \<open>count \<le> first\<close> show ?thesis
      by (auto simp: resolvePendingSelector_def mr first_def [symmetric] with_window_def override_def
          target_lines_def all_lines_def)
  next
    case False
    let ?ms = "filter (\<lambda>m. in_limit m > 0) placed"
    have "Min (in_offset ` set placed) \<in> in_offset ` set placed" using ne by (intro Min_in) auto
    then obtain m where m: "m \<in> set placed" "in_offset m = first" unfolding first_def by auto
    then have "in_limit m > 0" using False pl by fastforce
    then have fne: "?ms \<noteq> []" using m by (auto simp: filter_empty_conv)
    have s: "sound ?ms" using pl by (auto simp: sound_def)
    have lines: "all_lines ?ms = all_lines placed"
      using pl by (fastforce simp: all_lines_def interval_lines_def interval_end_def)
    have one: "length ?ms = 1" if "\<not> 44 \<in> set l"
    proof -
      have "length placed = 1" using that p by (simp add: split_on_single [of 44 l] list_all2_lengthD)
      moreover have "length ?ms \<le> length placed" by simp
      ultimately show ?thesis using fne by (cases ?ms) auto
    qed
    obtain w where w: "placeMembers ?ms (44 \<in> set l) raw = Some w"
      "\<forall>t count. rt_ranges t = None \<longrightarrow> rt_limit t = None \<longrightarrow> target_lines (with_window t (Some w)) count = all_lines ?ms \<inter> {1..count}"
      using place_members [OF s fne, of "44 \<in> set l" raw] one by blast
    have "resolvePendingSelector l count raw = Inr (Some w)"
      using False w(1) by (auto simp: resolvePendingSelector_def Let_def mr first_def [symmetric])
    then show ?thesis using w(2) lines al by simp
  qed
qed

lemma plain_member_fixed:
  assumes "parseMember v 0 = Inr i" "in_limit i \<noteq> 0"
  shows "requested_member 0 v = requested_member count v"
proof -
  have "THROUGH_END v = None \<and> LAST_LINES v = None"
    using assms by (auto simp: parseMember_def Let_def split: option.splits)
  then show ?thesis by (simp add: requested_member_def)
qed

lemma map_res_parse_count:
  "map_res (\<lambda>m. parseMember m a) ms = Inr ivs \<Longrightarrow> \<exists>jvs. list_all2 (\<lambda>m j. parseMember m b = Inr j) ms jvs"
proof -
  assume "map_res (\<lambda>m. parseMember m a) ms = Inr ivs"
  then have "list_all2 (\<lambda>m i. parseMember m a = Inr i) ms ivs" by (simp add: map_res_Inr)
  then show ?thesis
  proof (induction rule: list_all2_induct)
    case (Cons m ms i ivs)
    then obtain j jvs where "parseMember m b = Inr j" "list_all2 (\<lambda>m j. parseMember m b = Inr j) ms jvs"
      using parseMember_count [of m a b] by blast
    then show ?case by (intro exI [of _ "j # jvs"]) simp
  qed simp
qed

lemma plain_target_fields [simp]:
  "rt_ranges (plain_target p r) = None" "rt_limit (plain_target p r) = None" "rt_pending (plain_target p r) = None"
  "rt_raw (plain_target p r) = r" "rt_path (plain_target p r) = p" "rt_outline (plain_target p r) = False"
  "rt_offset (plain_target p r) = 0" "rt_realPath (plain_target p r) = None" "rt_directory (plain_target p r) = False"
  "(plain_target p r)\<lparr>rt_pending := None\<rparr> = plain_target p r"
  by (simp_all add: plain_target_def)

lemma with_window_fields [simp]:
  "rt_pending (with_window t w) = rt_pending t" "rt_raw (with_window t w) = rt_raw t" "rt_path (with_window t w) = rt_path t"
  "rt_outline (with_window t w) = rt_outline t" "rt_realPath (with_window t w) = rt_realPath t"
  "rt_directory (with_window t w) = rt_directory t"
  by (simp_all add: with_window_def split: option.split)

text \<open>Members applied to a path and then resolved against the source's count name the requested lines.\<close>

lemma apply_members_lines:
  assumes a: "applyMembers path l raw = Inr t" and c: "0 \<le> count"
  shows "\<exists>t'. resolveEndRelativeSelector t count = Inr t' \<and> target_lines t' count = requested_lines count l \<inter> {1..count} \<and>
    rt_raw t' = raw \<and> rt_path t' = path \<and> rt_pending t' = None \<and> rt_outline t' = rt_outline t"
proof -
  have sm: "splitMembers l = Inr (split_on 44 l)" using a by (auto simp: applyMembers_def splitMembers_def Let_def split: if_splits)
  then obtain ivs where mr: "map_res (\<lambda>m. parseMember m 0) (split_on 44 l) = Inr ivs"
    using a by (auto simp: applyMembers_def)
  have t: "t = (if \<exists>m\<in>set ivs. in_limit m = 0 then (plain_target path raw)\<lparr>rt_pending := Some l\<rparr>
      else with_window (plain_target path raw) (placeMembers ivs (length (split_on 44 l) > 1) raw))"
    using a by (simp only: applyMembers_def sm mr bind_res_simps sum.inject)
  show ?thesis
  proof (cases "\<exists>m\<in>set ivs. in_limit m = 0")
    case True
    from map_res_parse_count [OF mr, of count] obtain jvs where jvs: "list_all2 (\<lambda>m j. parseMember m count = Inr j) (split_on 44 l) jvs"
      by blast
    from placing_succeeds [OF jvs c, of raw] obtain w where w: "resolvePendingSelector l count raw = Inr (Some w)"
      "\<forall>t. rt_ranges t = None \<longrightarrow> rt_limit t = None \<longrightarrow>
         target_lines (with_window t (Some w)) count = requested_lines count l \<inter> {1..count}" by blast
    have "resolveEndRelativeSelector t count = Inr (with_window (plain_target path raw) (Some w))"
      using True t w(1) by (simp add: resolveEndRelativeSelector_def)
    then show ?thesis using w(2) t True by simp
  next
    case False
    have l2: "list_all2 (\<lambda>m i. parseMember m 0 = Inr i) (split_on 44 l) ivs" using mr by (simp add: map_res_Inr)
    note pl = placed_lines [OF l2]
    have s: "sound ivs" using pl False by (fastforce simp: sound_def)
    have len: "length ivs = length (split_on 44 l)" "ivs \<noteq> []" using list_all2_lengthD [OF l2] by auto
    have "\<forall>m\<in>set (split_on 44 l). requested_member 0 m = requested_member count m"
    proof
      fix m assume "m \<in> set (split_on 44 l)"
      then obtain i where "parseMember m 0 = Inr i" "i \<in> set ivs" using l2 by (fastforce simp: list_all2_conv_all_nth in_set_conv_nth)
      with False plain_member_fixed show "requested_member 0 m = requested_member count m" by blast
    qed
    then have al: "all_lines ivs = requested_lines count l" using pl by (simp add: requested_lines_def)
    have one: "length ivs = 1" if "\<not> length (split_on 44 l) > 1"
      proof -
      have "0 < length ivs" using len(2) by blast
      then show ?thesis using that len(1) by linarith
    qed
    obtain w where w: "placeMembers ivs (length (split_on 44 l) > 1) raw = Some w"
      "\<forall>t count. rt_ranges t = None \<longrightarrow> rt_limit t = None \<longrightarrow> target_lines (with_window t (Some w)) count = all_lines ivs \<inter> {1..count}"
      using place_members [OF s len(2), of "length (split_on 44 l) > 1" raw, OF one] by blast
    have "t = with_window (plain_target path raw) (Some w)" using False t w(1) by simp
    then show ?thesis using w(2) al by (simp add: resolveEndRelativeSelector_def)
  qed
qed

section \<open>The spellings of a selector\<close>

definition selector_char :: "code_unit \<Rightarrow> bool" where
  "selector_char c \<longleftrightarrow> is_digit c \<or> c \<in> {43, 44, 45}"

lemma member_chars:
  assumes "MEMBER v"
  shows "v \<noteq> [] \<and> list_all selector_char v"
proof -
  let ?a = "takeWhile is_digit v" and ?b = "dropWhile is_digit v"
  have d: "list_all selector_char ds" if "list_all is_digit ds" for ds
    using that by (auto simp: list_all_iff selector_char_def)
  have a: "list_all selector_char ?a" by (rule d) (auto simp: list_all_iff dest: set_takeWhileD)
  consider "THROUGH_END v \<noteq> None" | "range_match v \<noteq> None" | "LAST_LINES v \<noteq> None" using assms by (auto simp: MEMBER_def)
  then have "v \<noteq> [] \<and> (list_all selector_char ?b \<or> list_all selector_char v)"
  proof cases
    case 1
    then show ?thesis by (auto simp: THROUGH_END_def Let_def selector_char_def split: if_splits)
  next
    case 2
    then show ?thesis
      by (auto simp: range_match_def Let_def digit_text_def split: if_splits list.splits intro: d)
         (auto simp: selector_char_def list_all_iff)
  next
    case 3
    then show ?thesis by (cases v) (auto simp: LAST_LINES_def digit_text_def selector_char_def split: if_splits intro: d)
  qed
  then show ?thesis using a by (metis list_all_append takeWhile_dropWhile_id)
qed

lemma join_chars: "list_all P (join_with c ws) \<longleftrightarrow> (\<forall>w\<in>set ws. list_all P w) \<and> (length ws > 1 \<longrightarrow> P c)"
  by (induction c ws rule: join_with.induct) auto

lemma member_list_chars:
  assumes "MEMBER_LIST l"
  shows "l \<noteq> [] \<and> list_all selector_char l"
proof -
  have m: "\<forall>w\<in>set (split_on 44 l). w \<noteq> [] \<and> list_all selector_char w"
  proof
    fix w assume "w \<in> set (split_on 44 l)"
    then have "MEMBER w" using assms by (simp add: MEMBER_LIST_def list_all_iff)
    then show "w \<noteq> [] \<and> list_all selector_char w" by (rule member_chars)
  qed
  have "list_all selector_char (join_with 44 (split_on 44 l))"
    using m by (simp only: join_chars) (simp add: selector_char_def)
  then show ?thesis using m by (auto simp: split_on_plain)
qed

lemma selector_char_letters: "selector_char c \<Longrightarrow> c \<noteq> 58 \<and> c \<noteq> 47 \<and> c \<noteq> 119 \<and> c \<noteq> 114 \<and> c \<noteq> 111 \<and> c \<noteq> 101"
  by (auto simp: selector_char_def is_digit_def)

lemma member_list_plain:
  assumes "MEMBER_LIST l"
  shows "l \<noteq> []" "58 \<notin> set l" "47 \<notin> set l" "hd l \<noteq> 114" "hd l \<noteq> 111" "last l \<noteq> 119" "last l \<noteq> 101"
  using member_list_chars [OF assms] selector_char_letters by (auto simp: list_all_iff)

lemma marks: "js ''raw'' = [114, 97, 119]" "js ''outline'' = [111, 117, 116, 108, 105, 110, 101]"
  "js ''raw:'' = [114, 97, 119, 58]" "js ''outline:'' = [111, 117, 116, 108, 105, 110, 101, 58]" "js '':raw'' = [58, 114, 97, 119]"
  by (simp_all add: js.simps)

lemma before_suffix_Some [simp]: "before_suffix s p = Some a \<longleftrightarrow> s = a @ p"
  by (auto simp: before_suffix_def) (metis append_take_drop_id)

lemma after_prefix_Some [simp]: "after_prefix s p = Some a \<longleftrightarrow> s = p @ a"
  by (auto simp: after_prefix_def starts_with_def) (metis append_take_drop_id)

lemma holds_in_iff: "holds_in P x \<longleftrightarrow> (\<exists>y. x = Some y \<and> P y)"
  by (auto simp: holds_in_def split: option.split)

lemma apply_list:
  assumes "MEMBER_LIST l"
  shows "applySelectorSuffix p (Some l) = applyMembers p l False"
    "applySelectorSuffix p (Some (js ''raw:'' @ l)) = applyMembers p l True"
    "applySelectorSuffix p (Some (l @ js '':raw'')) = applyMembers p l True"
    "applySelectorSuffix p (Some (js ''outline:'' @ l)) =
       (if MEMBER l then bind_res (applyMembers p l False) (\<lambda>t. Inr (t\<lparr>rt_outline := True\<rparr>)) else Inl selector_error)"
proof -
  note l = member_list_plain [OF assms]
  have end_l: "a @ [58, 114, 97, 119] \<noteq> b @ l" for a b
  proof
    assume "a @ [58, 114, 97, 119] = b @ l"
    then have "last (a @ [58, 114, 97, 119 :: code_unit]) = last (b @ l)" by simp
    with l show False by simp
  qed
  have n: "after_prefix l (js ''outline:'') = None" "after_prefix l (js ''raw:'') = None"
    "before_suffix l (js '':raw'') = None" "before_suffix (js ''raw:'' @ l) (js '':raw'') = None"
    "before_suffix (js ''outline:'' @ l) (js '':raw'') = None" "after_prefix (js ''raw:'' @ l) (js ''outline:'') = None"
    "before_suffix (l @ js '':raw'') (js '':raw'') = Some l"
    "after_prefix (js ''outline:'' @ l) (js ''raw:'') = None" "after_prefix (js ''raw:'' @ l) (js ''raw:'') = Some l"
    "after_prefix (js ''outline:'' @ l) (js ''outline:'') = Some l"
    using l end_l [of _ "[]"] end_l [of _ "js ''raw:''"] end_l [of _ "js ''outline:''"]
    by (auto simp: marks option.expand simp flip: not_Some_eq dest: sym)
  have not_list: "\<not> MEMBER_LIST (js ''outline:'' @ l)" using member_list_plain(2) by (fastforce simp: marks)
  have ne: "l \<noteq> js ''raw''" "l \<noteq> js ''outline''" "js ''raw:'' @ l \<noteq> js ''raw''" "js ''raw:'' @ l \<noteq> js ''outline''"
    "l @ js '':raw'' \<noteq> js ''raw''" "l @ js '':raw'' \<noteq> js ''outline''" "js ''outline:'' @ l \<noteq> js ''raw''"
    "js ''outline:'' @ l \<noteq> js ''outline''"
    using l by (auto simp: marks append_eq_Cons_conv)
  show "applySelectorSuffix p (Some l) = applyMembers p l False"
    "applySelectorSuffix p (Some (js ''raw:'' @ l)) = applyMembers p l True"
    "applySelectorSuffix p (Some (l @ js '':raw'')) = applyMembers p l True"
    "applySelectorSuffix p (Some (js ''outline:'' @ l)) =
       (if MEMBER l then bind_res (applyMembers p l False) (\<lambda>t. Inr (t\<lparr>rt_outline := True\<rparr>)) else Inl selector_error)"
    using assms by (simp_all add: applySelectorSuffix_def isSelectorSuffix_def n ne holds_in_def not_list)
qed

lemma resolve_outline:
  "resolveEndRelativeSelector (t\<lparr>rt_outline := True\<rparr>) count =
     bind_res (resolveEndRelativeSelector t count) (\<lambda>t'. Inr (t'\<lparr>rt_outline := True\<rparr>))"
proof (cases "rt_pending t")
  case (Some pending)
  then show ?thesis
    by (cases "resolvePendingSelector pending count (rt_raw t)")
      (auto simp: resolveEndRelativeSelector_def with_window_def split: option.split)
qed (simp add: resolveEndRelativeSelector_def)

text \<open>C12: A selector that is accepted, in any of its spellings, resolves against the line count of the source
  to a target that names exactly the lines the members ask for, of the path it was given for.\<close>

theorem selector_names_requested_lines:
  assumes l: "MEMBER_LIST l" and c: "0 \<le> count"
    and s: "selector \<in> {l, js ''raw:'' @ l, l @ js '':raw'', js ''outline:'' @ l}"
    and a: "applySelectorSuffix path (Some selector) = Inr t"
  shows "\<exists>t'. resolveEndRelativeSelector t count = Inr t' \<and> rt_path t' = path \<and>
    target_lines t' count = requested_lines count l \<inter> {1..count}"
proof (cases "selector = js ''outline:'' @ l")
  case True
  with a obtain t1 where t1: "applyMembers path l False = Inr t1" "t = t1\<lparr>rt_outline := True\<rparr>"
    by (auto simp: apply_list [OF l] split: if_splits)
  from apply_members_lines [OF t1(1) c] obtain t' where "resolveEndRelativeSelector t1 count = Inr t'" "rt_path t' = path"
    "target_lines t' count = requested_lines count l \<inter> {1..count}" by blast
  then show ?thesis by (simp add: t1(2) resolve_outline target_lines_def cong: option.case_cong)
next
  case False
  with s a obtain raw where "applyMembers path l raw = Inr t" by (auto simp: apply_list [OF l])
  from apply_members_lines [OF this c] show ?thesis by blast
qed

theorem selector_names_requested_lines_witness:
  "\<exists>t t'. applySelectorSuffix (js ''/a'') (Some (js ''raw:2,-3'')) = Inr t \<and>
     resolveEndRelativeSelector t 9 = Inr t' \<and> target_lines t' 9 = {2, 7, 8, 9}"
proof -
  have l: "MEMBER_LIST (js ''2,-3'')" by code_simp
  have "applySelectorSuffix (js ''/a'') (Some (js ''raw:'' @ js ''2,-3'')) =
    Inr ((plain_target (js ''/a'') True)\<lparr>rt_pending := Some (js ''2,-3'')\<rparr>)" by code_simp
  moreover from selector_names_requested_lines [OF l _ _ this, of 9] obtain t' where
    "resolveEndRelativeSelector ((plain_target (js ''/a'') True)\<lparr>rt_pending := Some (js ''2,-3'')\<rparr>) 9 = Inr t'"
    "target_lines t' 9 = requested_lines 9 (js ''2,-3'') \<inter> {1..9}" by auto
  moreover have "split_on 44 (js ''2,-3'') = [[50], [45, 51]]" by (simp add: js.simps)
  then have "requested_lines 9 (js ''2,-3'') = {2} \<union> {l. 1 \<le> l \<and> 6 < l \<and> l \<le> 9}"
    by (simp add: requested_lines_def requested_member_def THROUGH_END_def LAST_LINES_def range_match_def digit_text_def
        is_digit_def num_def digits_val_def)
  moreover have "({2} \<union> {l. 1 \<le> l \<and> 6 < l \<and> l \<le> 9}) \<inter> {1..9} = {2, 7, 8, 9 :: int}" by auto
  moreover have "js ''raw:'' @ js ''2,-3'' = js ''raw:2,-3''" by (simp add: js.simps)
  ultimately show ?thesis by metis
qed

section \<open>Splitting the suffix\<close>

lemma last_index_of_snoc: "last_index_of (s @ [x]) [c] = (if x = c then Some (length s) else last_index_of s [c])"
proof -
  have "find (occurs_at (s @ [x]) [c]) (rev [0..<length s]) = find (occurs_at s [c]) (rev [0..<length s])"
    by (rule find_cong) (auto simp: occurs_at_single nth_append)
  then show ?thesis by (simp add: last_index_of_def occurs_at_single nth_append)
qed

lemma last_index_of_free: "c \<notin> set b \<Longrightarrow> last_index_of (a @ b) [c] = last_index_of a [c]"
  by (induction b rule: rev_induct) (auto simp: last_index_of_snoc simp flip: append_assoc)

lemma last_index_of_mid: "c \<notin> set b \<Longrightarrow> last_index_of (a @ c # b) [c] = Some (length a)"
  using last_index_of_free [of c b "a @ [c]"] by (simp add: last_index_of_snoc)

lemma last_index_of_SomeD: "last_index_of s [c] = Some i \<Longrightarrow> \<exists>a b. s = a @ c # b \<and> c \<notin> set b \<and> length a = i"
proof (induction s rule: rev_induct)
  case Nil
  then show ?case by (simp add: last_index_of_def occurs_at_def)
next
  case (snoc x s)
  show ?case
  proof (cases "x = c")
    case True
    with snoc.prems show ?thesis by (intro exI [of _ s] exI [of _ "[]"]) (simp add: last_index_of_snoc)
  next
    case False
    with snoc obtain a b where "s = a @ c # b" "c \<notin> set b" "length a = i" by (auto simp: last_index_of_snoc)
    with False show ?thesis by (intro exI [of _ a] exI [of _ "b @ [x]"]) simp
  qed
qed

lemma last_index_of_None: "last_index_of s [c] = None \<longleftrightarrow> c \<notin> set s"
proof (induction s rule: rev_induct)
  case Nil
  then show ?case by (simp add: last_index_of_def occurs_at_def)
qed (auto simp: last_index_of_snoc)

lemma last_index_append: "c \<notin> set b \<Longrightarrow> last_index (a @ b) c = last_index a c"
  by (simp add: last_index_def last_index_of_free)

lemma last_index_mid: "c \<notin> set b \<Longrightarrow> last_index (a @ c # b) c = int (length a)"
  by (simp add: last_index_def last_index_of_mid)

lemma last_index_less: "last_index s c < int (length s)"
  by (auto simp: last_index_def split: option.split dest!: last_index_of_SomeD)

text \<open>A path that has no colon in its last segment does not end in a marker.\<close>

lemma no_marker_end:
  assumes "last_index path 58 \<le> last_index path 47" "47 \<notin> set m" "58 \<notin> set m"
  shows "before_suffix path (58 # m) = None"
proof (rule ccontr)
  assume "before_suffix path (58 # m) \<noteq> None"
  then obtain a where "path = a @ 58 # m" by auto
  then have "last_index path 58 = int (length a)" "last_index path 47 = last_index a 47"
    using assms(2,3) last_index_append [of 47 "58 # m" a] by (simp_all add: last_index_mid)
  with assms(1) last_index_less [of a 47] show False by simp
qed

lemma marker_plain:
  assumes "58 \<notin> set r" "before_suffix path (58 # m) = None"
  shows "marker_match m (path @ 58 # r) = (if r = m then Some (path, None) else None)"
  using assms by (simp add: marker_match_def last_index_of_mid Let_def)

lemma marker_list:
  assumes "58 \<notin> set r" "47 \<notin> set r"
  shows "marker_match m (path @ 58 # m @ 58 # r) = Some (path, Some r)"
proof -
  have "last_index_of (path @ 58 # m @ 58 # r) [58] = Some (length (path @ 58 # m))"
    using last_index_of_mid [OF assms(1), of "path @ 58 # m"] by simp
  moreover have "before_suffix (path @ 58 # m) (58 # m) = Some path" by simp
  ultimately show ?thesis using assms(2) by (simp add: marker_match_def Let_def del: before_suffix_Some)
qed

lemma marker_other:
  assumes "58 \<notin> set r" "r \<noteq> m" "\<And>a. path @ 58 # k \<noteq> a @ 58 # m"
  shows "marker_match m (path @ 58 # k @ 58 # r) = None"
proof -
  have "last_index_of (path @ 58 # k @ 58 # r) [58] = Some (length (path @ 58 # k))"
    using last_index_of_mid [OF assms(1), of "path @ 58 # k"] by simp
  moreover have "before_suffix (path @ 58 # k) (58 # m) = None" using assms(3) by (auto simp flip: not_Some_eq)
  ultimately show ?thesis using assms(2) by (simp add: marker_match_def Let_def)
qed

lemma raw_split_list:
  assumes "MEMBER_LIST l"
  shows "rawSplit (path @ 58 # l) = (path, Some (js ''raw:'' @ l))"
proof -
  note l = member_list_plain [OF assms]
  have "last_index (path @ 58 # l) 58 = int (length path)" "last_index (path @ 58 # l) 47 = last_index path 47"
    using l last_index_append [of 47 "58 # l" path] by (simp_all add: last_index_mid)
  then show ?thesis using assms last_index_less [of path 47] by (simp add: rawSplit_def Let_def)
qed

lemma marks_plain: "58 \<notin> set (js ''raw'')" "58 \<notin> set (js ''outline'')"
  by (simp_all add: marks)

lemma marks_colon: "js ''raw:'' = js ''raw'' @ [58]" "js ''outline:'' = js ''outline'' @ [58]"
  by (simp_all add: marks)

lemma outline_no_raw: "path @ 58 # js ''outline'' \<noteq> a @ 58 # js ''raw''"
proof
  assume "path @ 58 # js ''outline'' = a @ 58 # js ''raw''"
  then have "last (path @ 58 # js ''outline'') = last (a @ 58 # js ''raw'')" by simp
  then show False by (simp add: marks)
qed

lemma list_then_raw:
  assumes "MEMBER_LIST l"
  shows "marker_match (js ''raw'') ((path @ 58 # l) @ 58 # js ''raw'') = Some (path @ 58 # l, None)"
proof -
  have "before_suffix (path @ 58 # l) (58 # js ''raw'') = None"
  proof (rule ccontr)
    assume "before_suffix (path @ 58 # l) (58 # js ''raw'') \<noteq> None"
    then obtain a where "path @ 58 # l = a @ 58 # js ''raw''" by auto
    then have "last (path @ 58 # l) = last (a @ 58 # js ''raw'')" by simp
    then show False using member_list_plain [OF assms] by (simp add: marks)
  qed
  then show ?thesis by (subst marker_plain) (simp_all add: marks)
qed

text \<open>C26: The split undoes writing a selector after a path: for a path with no colon in its last segment and a
  text of the selector grammar, reading the joined text is applying the selector to the path.\<close>

theorem split_recovers_selector:
  assumes p: "last_index path 58 \<le> last_index path 47" and s: "isSelectorSuffix selector"
  shows "parseSelector (path @ 58 # selector) = applySelectorSuffix path (Some selector)"
proof -
  have np: "before_suffix path (58 # js ''raw'') = None" "before_suffix path (58 # js ''outline'') = None"
    by (rule no_marker_end [OF p]; simp add: marks)+
  have len: "last_index (path @ 58 # r) 58 = int (length path) \<and> last_index path 47 < int (length path) \<and>
    last_index (path @ 58 # r) 47 = last_index path 47" if "58 \<notin> set r" "47 \<notin> set r" for r
    using that last_index_append [of 47 "58 # r" path] last_index_less [of path 47] by (simp add: last_index_mid)
  consider (raw) "selector = js ''raw''" | (rawlist) l where "selector = js ''raw'' @ 58 # l" "MEMBER_LIST l"
    | (outline) "selector = js ''outline''" | (member) l where "selector = js ''outline'' @ 58 # l" "MEMBER l"
    | (listraw) l where "selector = l @ 58 # js ''raw''" "MEMBER_LIST l" | (plain) "MEMBER_LIST selector"
    using s by (auto simp: isSelectorSuffix_def holds_in_iff marks)
  then show ?thesis
  proof cases
    case raw
    have "rawSplit path = (path, Some (js ''raw''))" using p by (simp add: rawSplit_def Let_def)
    with raw show ?thesis by (simp add: parseSelector_def splitSelectorSuffix_def marker_plain np marks_plain)
  next
    case rawlist
    with member_list_plain [OF rawlist(2)] show ?thesis
      by (simp add: parseSelector_def splitSelectorSuffix_def marker_list marks_colon)
  next
    case outline
    then show ?thesis by (simp add: parseSelector_def splitSelectorSuffix_def marker_plain np marks_plain)
  next
    case member
    have l: "58 \<notin> set l" "47 \<notin> set l" "l \<noteq> js ''raw''"
      using member_chars [OF member(2)] selector_char_letters by (fastforce simp: list_all_iff marks)+
    show ?thesis using member(1) l outline_no_raw
      by (simp add: parseSelector_def splitSelectorSuffix_def marker_other marker_list marks_colon)
  next
    case listraw
    note list_then_raw [OF listraw(2), of path]
    then have "parseSelector (path @ 58 # selector) = applySelectorSuffix path (Some (js ''raw:'' @ l))"
      by (simp add: parseSelector_def splitSelectorSuffix_def listraw(1) raw_split_list [OF listraw(2)])
    moreover have "selector = l @ js '':raw''" by (simp add: listraw(1) marks)
    ultimately show ?thesis using apply_list [OF listraw(2)] by simp
  next
    case plain
    note l = member_list_plain [OF plain]
    have "selector \<noteq> js ''raw''" "selector \<noteq> js ''outline''" using l by (auto simp: marks)
    then show ?thesis using l len [OF l(2,3)]
      by (simp add: parseSelector_def splitSelectorSuffix_def marker_plain np Let_def)
  qed
qed

theorem split_recovers_selector_witness:
  "parseSelector (js ''/a:b/c'' @ 58 # js ''5-9:raw'') = applySelectorSuffix (js ''/a:b/c'') (Some (js ''5-9:raw'')) \<and>
   map_sum (\<lambda>e. ()) rt_limit (applySelectorSuffix (js ''/a:b/c'') (Some (js ''5-9:raw''))) = Inr (Some 5)"
proof -
  have "last_index (js ''/a:b/c'') 58 \<le> last_index (js ''/a:b/c'') 47" "isSelectorSuffix (js ''5-9:raw'')" by code_simp+
  from split_recovers_selector [OF this] have "parseSelector (js ''/a:b/c'' @ 58 # js ''5-9:raw'') =
    applySelectorSuffix (js ''/a:b/c'') (Some (js ''5-9:raw''))" .
  moreover have "map_sum (\<lambda>e. ()) rt_limit (applySelectorSuffix (js ''/a:b/c'') (Some (js ''5-9:raw''))) = Inr (Some 5)"
    by code_simp
  ultimately show ?thesis by simp
qed

section \<open>Literal paths and listings\<close>

text \<open>A selector is read off a path only when nothing exists under the whole text: a result that is not the
  plain target of the (trimmed) input comes from an input the file system does not know.\<close>

lemma selector_only_if_absent:
  assumes "resolveReadTarget fs input = Inr t"
    and "rt_path t \<noteq> (if length input > 1 \<and> last input = 47 then butlast input else input) \<or> rt_limit t \<noteq> None \<or>
      rt_offset t \<noteq> 0 \<or> rt_raw t \<or> rt_outline t \<or> rt_pending t \<noteq> None \<or> rt_ranges t \<noteq> None"
  shows "isDirectoryTarget fs input \<in> {Inl (js ''ENOENT''), Inl (js ''ENAMETOOLONG'')}"
proof -
  let ?sep = "length input > 1 \<and> last input = 47"
  let ?clean = "if ?sep then butlast input else input"
  have bad: "\<not> (parsePathScheme input \<noteq> None \<or> \<not> starts_with input [47] \<or> 0 \<in> set input)"
    using assms(1) unfolding resolveReadTarget_def by (metis sum.distinct(1))
  show ?thesis
  proof (cases "isDirectoryTarget fs ?clean")
    case (Inr b)
    then have "t = (plain_target ?clean False)\<lparr>rt_directory := True\<rparr> \<or>
      t = (plain_target ?clean False)\<lparr>rt_realPath := realPathField fs ?clean\<rparr>"
      using assms(1) bad by (cases b) (auto simp: resolveReadTarget_def Let_def split: if_split_asm)
    with assms(2) show ?thesis by (auto simp: plain_target_def)
  next
    case (Inl code)
    then show ?thesis
      using assms(1) bad by (simp add: resolveReadTarget_def Let_def split: if_split_asm)
  qed
qed

text \<open>A listing takes one member: its window is the requested entries that exist, whatever the form of the member, and a
  list of members is refused.\<close>

lemma listing_window_as_requested:
  assumes m: "parseMember m count = Inr i" and plain: "44 \<notin> set m" and c: "0 \<le> count"
  shows "\<exists>a b. pendingSliceWindow m count = Inr (Some (a, b)) \<and> {a + 1..b} = requested_member count m \<inter> {1..count}"
proof -
  note i = parseMember_Inr [OF m c]
  have r: "requested_member count m = {in_offset i + 1..in_offset i + in_limit i}"
    using i by (simp add: interval_lines_def interval_end_def)
  have sp: "map_res (\<lambda>m. parseMember m count) (split_on 44 m) = Inr [i]"
    using plain m by (simp add: split_on_plain)
  show ?thesis
  proof (cases "in_limit i = 0")
    case True
    then have "resolvePendingSelector m count False =
      Inr (Some \<lparr>pw_offset = in_offset i, pw_limit = None, pw_ranges = None, pw_expandedRanges = None\<rparr>)"
      using plain by (simp add: resolvePendingSelector_def sp)
    then have "pendingSliceWindow m count = Inr (Some (in_offset i, min (in_offset i + count) count))"
      by (simp add: pendingSliceWindow_def)
    moreover have "{in_offset i + 1..min (in_offset i + count) count} = requested_member count m \<inter> {1..count}"
      using i True by (simp add: r)
    ultimately show ?thesis by blast
  next
    case False
    then have "0 < in_limit i" using i by simp
    then have "resolvePendingSelector m count False =
      Inr (Some \<lparr>pw_offset = in_offset i, pw_limit = Some (in_limit i), pw_ranges = None, pw_expandedRanges = None\<rparr>)"
      using plain by (simp add: resolvePendingSelector_def sp placeMembers_def merge_single)
    then have "pendingSliceWindow m count = Inr (Some (in_offset i, min (in_offset i + in_limit i) count))"
      by (simp add: pendingSliceWindow_def)
    moreover have "{in_offset i + 1..min (in_offset i + in_limit i) count} = requested_member count m \<inter> {1..count}"
      unfolding r using i by (simp add: Int_atLeastAtMost max_def)
    ultimately show ?thesis by blast
  qed
qed

lemma listing_refuses_lists:
  assumes l: "44 \<in> set l" and p: "list_all2 (\<lambda>m i. parseMember m count = Inr i) (split_on 44 l) placed" and c: "0 \<le> count"
  shows "pendingSliceWindow l count = Inl selector_error"
proof -
  obtain w where w: "resolvePendingSelector l count False = Inr (Some w)" using placing_succeeds [OF p c] by blast
  then have "pw_ranges w \<noteq> None"
    using l p by (auto simp: resolvePendingSelector_def placeMembers_def Let_def map_res_Inr [THEN iffD2, OF p]
        split: if_split_asm list.split_asm)
  with w show ?thesis by (simp add: pendingSliceWindow_def)
qed

end
