(* ===== verification/Read_Rendering.thy ===== *)
theory Read_Rendering
  imports Read_Selectors Reserved_Delimiters
begin

text \<open>
  The model-facing text of a native read, edit or write
  (\<^verbatim>\<open>packages/native-file-tools/src/model-text.ts\<close>): one header line, the attribution lines, the
  content, and the notice that names the read which continues it. A result is an object of properties,
  since it is also read back from storage; its numbers are whole (line numbers and counts), and a
  stored number that is not whole is not modelled. \<^verbatim>\<open>oneLine\<close> has the body of the function of the same name in
  the artifact notice and is the definition of \<open>Result_Truncation\<close>.
\<close>

section \<open>Fields\<close>

definition prop_of :: "obj \<Rightarrow> string \<Rightarrow> jsval" where
  "prop_of r key = get_prop r (js key)"

definition int_prop :: "obj \<Rightarrow> string \<Rightarrow> int option" where
  "int_prop r key = (case prop_of r key of JNum n \<Rightarrow> Some (int_of_num n) | _ \<Rightarrow> None)"

definition isNonEmptyString :: "jsval \<Rightarrow> jstr option" where
  "isNonEmptyString v = (case v of JStr s \<Rightarrow> if s = [] then None else Some s | _ \<Rightarrow> None)"

definition path_line :: "obj \<Rightarrow> jstr" where
  "path_line r = (case isNonEmptyString (prop_of r ''path'') of Some p \<Rightarrow> oneLine p | None \<Rightarrow> [])"

type_synonym line_range = "int \<times> int"

definition asRange :: "jsval \<Rightarrow> line_range option" where
  "asRange v =
     (case v of
        JObj r \<Rightarrow> (case (int_prop r ''startLine'', int_prop r ''endLine'') of
                    (Some a, Some b) \<Rightarrow> Some (a, b) | _ \<Rightarrow> None)
      | _ \<Rightarrow> None)"

definition asRanges :: "jsval \<Rightarrow> line_range list" where
  "asRanges v = (case v of JArr vs \<Rightarrow> List.map_filter asRange vs | _ \<Rightarrow> [])"

definition formatRange :: "line_range \<Rightarrow> jstr" where
  "formatRange r = int_to_js (fst r) @ [45] @ int_to_js (snd r)"

section \<open>Attribution\<close>

definition ATTRIBUTION_FIELDS :: "string list" where
  "ATTRIBUTION_FIELDS =
     [''realPath'', ''finalUrl'', ''method'', ''adapter'', ''notes'', ''knowledgeSpaceName'', ''knowledgeSpaceId'',
      ''notice'', ''locator'', ''sourceDirectory'', ''resolvedPath'', ''skillDirectory'', ''realSkillDirectory'',
      ''skillPathInstruction'']"

text \<open>\<^verbatim>\<open>ws.join(sep)\<close>.\<close>

fun join_text :: "jstr \<Rightarrow> jstr list \<Rightarrow> jstr" where
  "join_text sep [] = []"
| "join_text sep [w] = w"
| "join_text sep (w # v # ws) = w @ sep @ join_text sep (v # ws)"

definition adapterLines :: "jsval \<Rightarrow> jstr list" where
  "adapterLines v =
     (case v of
        JObj r \<Rightarrow>
          (let parts = map oneLine (List.map_filter isNonEmptyString [prop_of r ''id'', prop_of r ''route'', prop_of r ''origin'']) in
           if parts = [] then [] else [js ''adapter: '' @ join_text [32] parts])
      | _ \<Rightarrow> [])"

definition noteLines :: "jsval \<Rightarrow> jstr list" where
  "noteLines v =
     (case v of JArr vs \<Rightarrow> map (\<lambda>e. js ''notes: '' @ oneLine e) (List.map_filter isNonEmptyString vs) | _ \<Rightarrow> [])"

definition attribution_of :: "obj \<Rightarrow> string \<Rightarrow> jstr list" where
  "attribution_of r field =
     (if field = ''adapter'' then adapterLines (prop_of r field)
      else if field = ''notes'' then noteLines (prop_of r field)
      else (case isNonEmptyString (prop_of r field) of Some v \<Rightarrow> [js field @ js '': '' @ oneLine v] | None \<Rightarrow> []))"

definition renderAttributionLines :: "obj \<Rightarrow> jstr list" where
  "renderAttributionLines r = concat (map (attribution_of r) ATTRIBUTION_FIELDS)"

section \<open>The header\<close>

datatype counted_noun = Line_Noun | Entry_Noun

definition noun :: "int \<Rightarrow> counted_noun \<Rightarrow> jstr" where
  "noun count singular =
     (if count = 1 then (case singular of Line_Noun \<Rightarrow> js ''line'' | Entry_Noun \<Rightarrow> js ''entry'')
      else (case singular of Entry_Noun \<Rightarrow> js ''entries'' | Line_Noun \<Rightarrow> js ''lines''))"

definition counted :: "int \<Rightarrow> counted_noun \<Rightarrow> jstr" where
  "counted count singular = int_to_js count @ [32] @ noun count singular"

definition is_directory :: "obj \<Rightarrow> bool" where
  "is_directory r \<longleftrightarrow> prop_of r ''kind'' = JStr (js ''directory'')"

definition has_form :: "obj \<Rightarrow> string \<Rightarrow> bool" where
  "has_form r form \<longleftrightarrow> prop_of r ''representation'' = JStr (js form)"

definition is_truncated :: "obj \<Rightarrow> bool" where
  "is_truncated r \<longleftrightarrow> prop_of r ''truncated'' = JBool True"

definition header_total :: "obj \<Rightarrow> jstr" where
  "header_total r =
     (if has_form r ''outline'' then []
      else (case int_prop r ''lineCount'' of None \<Rightarrow> [] | Some n \<Rightarrow> js '' of '' @ counted n Line_Noun))"

definition fileHeader :: "obj \<Rightarrow> jstr" where
  "fileHeader r =
     (let path = path_line r; total = header_total r; ranges = asRanges (prop_of r ''shownRanges'') in
      if ranges \<noteq> []
      then path @ [58] @ (if has_form r ''raw'' then js ''raw:'' else []) @ join_text [44] (map formatRange ranges) @ total
      else (case asRange (prop_of r ''shownRange'') of
              Some shown \<Rightarrow>
                path @ [58] @ (if has_form r ''raw'' then js ''raw:''
                               else if has_form r ''outline'' then js ''outline:'' else []) @ formatRange shown @ total
            | None \<Rightarrow>
                (case int_prop r ''nextOffset'' of
                   Some n \<Rightarrow>
                     if is_truncated r then path @ js '': line '' @ int_to_js n @ js '' exceeds the result bound and was skipped''
                     else if prop_of r ''shownRange'' = JNull then path @ js '': empty'' else path @ total
                 | None \<Rightarrow>
                     if prop_of r ''shownRange'' = JNull \<and> \<not> is_truncated r then path @ js '': empty'' else path @ total)))"

section \<open>The read that continues\<close>

definition rangeSelector :: "int \<Rightarrow> int option \<Rightarrow> jstr" where
  "rangeSelector nextOffset endLine =
     (case endLine of
        None \<Rightarrow> int_to_js (nextOffset + 1) @ [45]
      | Some e \<Rightarrow>
          if nextOffset \<ge> e then int_to_js (nextOffset + 1) @ [45]
          else int_to_js (nextOffset + 1) @ [45] @ int_to_js e)"

text \<open>The ranges from the first whose end is not behind the line to resume at.\<close>

definition multiSelector :: "line_range list \<Rightarrow> int \<Rightarrow> jstr" where
  "multiSelector ranges nextOffset =
     (let line = nextOffset + 1 in
      case dropWhile (\<lambda>r. \<not> line \<le> snd r) ranges of
        [] \<Rightarrow> int_to_js line @ [45]
      | member # later \<Rightarrow>
          join_text [44]
            ((if line \<ge> fst member then rangeSelector nextOffset (Some (snd member)) else formatRange member) #
             map formatRange later))"

definition resumeSelector :: "obj \<Rightarrow> int \<Rightarrow> jstr" where
  "resumeSelector r nextOffset =
     (if is_directory r then int_to_js (nextOffset + 1) @ [45]
      else
        (let lineCount = int_prop r ''lineCount'';
             requested = map_option snd (asRange (prop_of r ''requestedRange''));
             requestedEnd = (case (lineCount, requested) of
                               (Some n, Some e) \<Rightarrow> if e \<ge> n then None else requested
                             | _ \<Rightarrow> requested);
             ranges = asRanges (prop_of r ''requestedRanges'');
             requestedRanges = (case lineCount of
                                  Some n \<Rightarrow> map (\<lambda>(a, b). (a, min b n)) ranges
                                | None \<Rightarrow> ranges) in
         if has_form r ''outline'' then js ''outline:'' @ rangeSelector nextOffset requestedEnd
         else
           (let selector = (if requestedRanges \<noteq> [] then multiSelector requestedRanges nextOffset
                            else rangeSelector nextOffset requestedEnd) in
            if has_form r ''raw'' then js ''raw:'' @ selector else selector)))"

text \<open>\<^verbatim>\<open>/^https?:\/\//iu\<close>; under the two flags \<^verbatim>\<open>s\<close> also matches the long s.\<close>

definition is_web_locator :: "jstr \<Rightarrow> bool" where
  "is_web_locator path \<longleftrightarrow>
     (let p = map (\<lambda>c. if c = 0x17f then 115 else ascii_lower c) (take 8 path) in
      starts_with p (js ''http://'') \<or> starts_with p (js ''https://''))"

definition continuationLine :: "obj \<Rightarrow> jstr option" where
  "continuationLine r =
     (case int_prop r ''nextOffset'' of
        None \<Rightarrow> None
      | Some n \<Rightarrow>
          if \<not> is_truncated r then None
          else if \<not> is_directory r \<and> (case int_prop r ''lineCount'' of Some c \<Rightarrow> n \<ge> c | None \<Rightarrow> False) then None
          else
            (let label = (case (if is_directory r then int_prop r ''entryCount'' else int_prop r ''lineCount'') of
                            None \<Rightarrow> []
                          | Some c \<Rightarrow> int_to_js (c - n) @ js '' more '' @
                              noun (c - n) (if is_directory r then Entry_Noun else Line_Noun) @ js ''. '');
                 path = path_line r in
             if \<not> is_directory r \<and> is_web_locator path \<and> (63 \<in> set path \<or> 35 \<in> set path)
             then (let stated = (case int_prop r ''lineCount'' of
                                   Some c \<Rightarrow> int_to_js (c - n) @ js '' more '' @ noun (c - n) Line_Noun @ js '' not shown''
                                 | None \<Rightarrow> js ''more lines not shown'') in
                   Some ([91] @ stated @ js ''; this locator takes no line selector]''))
             else Some ([91] @ label @ js ''Use '' @ path @ [58] @ resumeSelector r n @ js '' to continue]'')))"

section \<open>The whole text\<close>

definition chop_line :: "jstr \<Rightarrow> jstr" where
  "chop_line s = (if s \<noteq> [] \<and> last s = 10 then butlast s else s)"

definition body_of :: "obj \<Rightarrow> jstr list" where
  "body_of r =
     (case isNonEmptyString (prop_of r ''content'') of
        None \<Rightarrow> []
      | Some content \<Rightarrow> if chop_line content = [] then [] else [chop_line content])"

definition cap_notice_lines :: "obj \<Rightarrow> jstr list" where
  "cap_notice_lines r =
     (case isNonEmptyString (prop_of r ''truncationNotice'') of Some n \<Rightarrow> [[91] @ oneLine n @ [93]] | None \<Rightarrow> [])"

definition opt_list :: "'a option \<Rightarrow> 'a list" where
  "opt_list x = (case x of None \<Rightarrow> [] | Some v \<Rightarrow> [v])"

definition renderReadText :: "obj \<Rightarrow> jstr" where
  "renderReadText r =
     join_text [10]
       ((if is_directory r then body_of r @ renderAttributionLines r
         else fileHeader r # renderAttributionLines r @ body_of r) @
        opt_list (continuationLine r) @ cap_notice_lines r)"

definition REGION_CUT_MARKER :: jstr where
  "REGION_CUT_MARKER = js ''[region cut at the bound]''"

definition mutationLocator :: "obj \<Rightarrow> jstr" where
  "mutationLocator r = path_line r"

text \<open>\<^verbatim>\<open>match(/[^\n]*\n|[^\n]+$/g) ?? []\<close>.\<close>

fun source_lines :: "jstr \<Rightarrow> jstr list" where
  "source_lines [] = []"
| "source_lines (c # s) =
     (if c = 10 then [10] # source_lines s
      else (case source_lines s of [] \<Rightarrow> [[c]] | l # ls \<Rightarrow> (c # l) # ls))"

definition blockLineCount :: "jstr \<Rightarrow> int" where
  "blockLineCount s = int (length (source_lines s))"

definition editDisplay :: "obj \<Rightarrow> (int \<times> jstr \<times> jstr) option" where
  "editDisplay r =
     (case prop_of r ''display'' of
        JObj d \<Rightarrow>
          (case (int_prop d ''startLine'', prop_of d ''oldText'', prop_of d ''newText'') of
             (Some n, JStr a, JStr b) \<Rightarrow> Some (n, a, b)
           | _ \<Rightarrow> None)
      | _ \<Rightarrow> None)"

definition editHeader :: "obj \<Rightarrow> int \<times> jstr \<times> jstr \<Rightarrow> jstr" where
  "editHeader r display =
     (case display of (startLine, oldText, newText) \<Rightarrow>
        js ''edited '' @ mutationLocator r @ js '': line '' @ int_to_js startLine @ js '', '' @
        int_to_js (blockLineCount oldText) @ js '' -> '' @ counted (blockLineCount newText) Line_Noun @
        (case int_prop r ''lineCount'' of None \<Rightarrow> [] | Some n \<Rightarrow> js '' ('' @ counted n Line_Noun @ js '' total)''))"

definition legacyEditHeader :: "obj \<Rightarrow> jstr" where
  "legacyEditHeader r =
     (case asRange (prop_of r ''shownRange'') of
        None \<Rightarrow> js ''edited '' @ mutationLocator r
      | Some shown \<Rightarrow> js ''edited '' @ mutationLocator r @ js '': region from line '' @ int_to_js (fst shown))"

definition renderEditText :: "obj \<Rightarrow> jstr" where
  "renderEditText r =
     join_text [10]
       ((case editDisplay r of None \<Rightarrow> legacyEditHeader r | Some d \<Rightarrow> editHeader r d) #
        renderAttributionLines r @ body_of r @
        (if prop_of r ''cut'' = JBool True \<or> (is_truncated r \<and> cap_notice_lines r = []) then [REGION_CUT_MARKER] else []) @
        cap_notice_lines r)"

definition renderWriteText :: "obj \<Rightarrow> jstr" where
  "renderWriteText r =
     join_text [10]
       (((if prop_of r ''replaced'' = JBool True then js ''replaced'' else js ''created'') @ [32] @ mutationLocator r @
         (case int_prop r ''lineCount'' of None \<Rightarrow> [] | Some n \<Rightarrow> js '' ('' @ counted n Line_Noun @ js '')'')) #
        renderAttributionLines r)"

definition measureEditRendering :: "obj \<Rightarrow> int" where
  "measureEditRendering r = int (length (neutralizeReservedDelimiters (renderEditText r)))"

section \<open>The framing is one line each\<close>

definition unbroken :: "jstr \<Rightarrow> bool" where
  "unbroken s \<longleftrightarrow> (\<forall>c\<in>set s. \<not> is_line_break c)"

named_theorems unbroken_text

lemma unbroken_Nil [unbroken_text]: "unbroken []"
  by (simp add: unbroken_def)

lemma unbroken_append [unbroken_text]: "unbroken (a @ b) \<longleftrightarrow> unbroken a \<and> unbroken b"
  by (auto simp: unbroken_def)

lemma unbroken_Cons [unbroken_text]: "unbroken (c # s) \<longleftrightarrow> \<not> is_line_break c \<and> unbroken s"
  by (simp add: unbroken_def)

lemma unbroken_join [unbroken_text]: "unbroken sep \<Longrightarrow> \<forall>w\<in>set ws. unbroken w \<Longrightarrow> unbroken (join_text sep ws)"
  by (induction sep ws rule: join_text.induct) (auto simp: unbroken_text)

lemma unbroken_js [unbroken_text]: "unbroken (js s) \<longleftrightarrow> (\<forall>c\<in>set s. c \<noteq> CHR 10 \<and> c \<noteq> CHR 13)"
proof (induction s)
  case (Cons c s)
  have "is_line_break (of_char c :: code_unit) \<longleftrightarrow> c = CHR 10 \<or> c = CHR 13"
  proof -
    have "(of_char c :: code_unit) = of_char (CHR 10) \<longleftrightarrow> c = CHR 10" "(of_char c :: code_unit) = of_char (CHR 13) \<longleftrightarrow> c = CHR 13"
      using of_char_inject [of c "CHR 10"] of_char_inject [of c "CHR 13"] by (simp_all del: of_char_inject)
    moreover have "unat (of_char c :: code_unit) < 256" by (simp add: unat_of_char)
    then have "(of_char c :: code_unit) \<noteq> 0x2028" "(of_char c :: code_unit) \<noteq> 0x2029" by auto
    ultimately show ?thesis by (auto simp: is_line_break_def)
  qed
  with Cons show ?case by (simp add: js.simps unbroken_text)
qed (simp add: js.simps unbroken_text)

lemma digit_no_break: "is_digit c \<Longrightarrow> \<not> is_line_break c"
  by (auto simp: is_digit_def is_line_break_def)

lemma unbroken_int [unbroken_text]: "unbroken (int_to_js i)"
  using digit_no_break nat_to_js_digits by (auto simp: int_to_js_def unbroken_def is_line_break_def js.simps)

lemma unbroken_oneLine [unbroken_text]: "unbroken (oneLine v)"
proof -
  have "unbroken (collapse_breaks run v)" for run
    by (induction v arbitrary: run) (auto simp: unbroken_text is_line_break_def)
  then show ?thesis by (simp add: oneLine_def)
qed

lemma unbroken_path_line [unbroken_text]: "unbroken (path_line r)"
  by (auto simp: path_line_def unbroken_text split: option.split)

lemma unbroken_range [unbroken_text]: "unbroken (formatRange r)"
  by (simp add: formatRange_def unbroken_text is_line_break_def)

lemma unbroken_counted [unbroken_text]: "unbroken (noun n k)" "unbroken (counted n k)"
  by (auto simp: counted_def noun_def unbroken_text is_line_break_def split: counted_noun.split)

lemma unbroken_rangeSelector [unbroken_text]: "unbroken (rangeSelector n e)"
  by (auto simp: rangeSelector_def unbroken_text is_line_break_def split: option.split)

lemma unbroken_multiSelector [unbroken_text]: "unbroken (multiSelector ranges n)"
  by (auto simp: multiSelector_def Let_def unbroken_text is_line_break_def split: list.split intro!: unbroken_join)

lemma unbroken_resume [unbroken_text]: "unbroken (resumeSelector r n)"
  by (simp add: resumeSelector_def Let_def unbroken_text is_line_break_def)

lemma unbroken_total [unbroken_text]: "unbroken (header_total r)"
  by (auto simp: header_total_def unbroken_text split: option.split)

lemma unbroken_header [unbroken_text]: "unbroken (fileHeader r)"
  by (auto simp: fileHeader_def Let_def unbroken_text is_line_break_def split: option.split intro!: unbroken_join)

lemma unbroken_continuation [unbroken_text]:
  assumes "continuationLine r = Some l"
  shows "unbroken l"
proof -
  have ends: "unbroken (js ''Use '')" "unbroken (js '' to continue]'')" "unbroken (js ''; this locator takes no line selector]'')"
    "unbroken (js ''more lines not shown'')" "unbroken (js '' more '')" "unbroken (js ''. '')" "unbroken (js '' not shown'')"
    "\<not> is_line_break 91" "\<not> is_line_break 58"
    by (simp_all add: unbroken_text is_line_break_def)
  show ?thesis
    using assms ends unbroken_path_line unbroken_resume unbroken_int unbroken_counted(1)
    unfolding continuationLine_def Let_def
    by (auto simp only: unbroken_append unbroken_Cons unbroken_Nil option.distinct option.inject simp_thms split: option.split_asm if_split_asm)
qed

lemma map_filter_set: "set (List.map_filter f xs) = {y. \<exists>x\<in>set xs. f x = Some y}"
  by (force simp: List.map_filter_def)

lemma unbroken_adapter: "l \<in> set (adapterLines v) \<Longrightarrow> unbroken l"
proof -
  have "unbroken (js ''adapter: '')" by (simp add: unbroken_text)
  moreover have "unbroken (join_text [32] (map oneLine ws))" for ws
    by (rule unbroken_join) (auto simp: unbroken_text is_line_break_def)
  ultimately show "l \<in> set (adapterLines v) \<Longrightarrow> unbroken l"
    by (cases v) (simp_all add: adapterLines_def Let_def unbroken_append split: if_split_asm)
qed

lemma unbroken_note: "l \<in> set (noteLines v) \<Longrightarrow> unbroken l"
proof -
  have "unbroken (js ''notes: '')" by (simp add: unbroken_text)
  then show "l \<in> set (noteLines v) \<Longrightarrow> unbroken l"
    by (cases v) (auto simp: noteLines_def unbroken_append unbroken_oneLine)
qed

lemma unbroken_attribution [unbroken_text]:
  assumes "l \<in> set (renderAttributionLines r)"
  shows "unbroken l"
proof -
  have f: "unbroken (js field)" if "field \<in> set ATTRIBUTION_FIELDS" for field
    using that by (auto simp: ATTRIBUTION_FIELDS_def unbroken_text)
  have sep: "unbroken (js '': '')" by (simp add: unbroken_text)
  obtain field where "field \<in> set ATTRIBUTION_FIELDS" "l \<in> set (attribution_of r field)"
    using assms by (auto simp: renderAttributionLines_def)
  with f [OF this(1)] sep show ?thesis
    by (auto simp: attribution_of_def unbroken_append unbroken_oneLine dest: unbroken_adapter unbroken_note
        split: if_split_asm option.split_asm)
qed

text \<open>C27: Whatever a stored result holds, each line of the framing (the header, every attribution line, the
  continuation and the cap notice) is one line of the text: none contains a line break, so no stored value
  adds a line that could pass for another.\<close>

theorem framing_is_one_line_each:
  "list_all unbroken (fileHeader r # renderAttributionLines r @ opt_list (continuationLine r) @ cap_notice_lines r)"
proof -
  have "\<forall>l\<in>set (cap_notice_lines r). unbroken l"
    by (auto simp: cap_notice_lines_def unbroken_text is_line_break_def split: option.split)
  moreover have "\<forall>l\<in>set (opt_list (continuationLine r)). unbroken l"
    by (auto simp: opt_list_def unbroken_text split: option.split)
  ultimately show ?thesis using unbroken_attribution unbroken_header by (auto simp: list_all_iff)
qed

section \<open>The continuation asks for the rest\<close>

lemma int_text: "0 \<le> k \<Longrightarrow> int_to_js k = nat_to_js (nat k)"
  by (simp add: int_to_js_def)

lemma int_text_digits: "0 \<le> k \<Longrightarrow> digit_text (int_to_js k) \<and> num (int_to_js k) = k"
  using nat_to_js_digits by (simp add: int_text digit_text_def num_def list_all_iff)

lemma digits_then:
  assumes "digit_text ds" "\<not> is_digit c"
  shows "takeWhile is_digit (ds @ c # s) = ds" "dropWhile is_digit (ds @ c # s) = c # s"
  using assms by (simp_all add: digit_text_def list_all_iff takeWhile_append dropWhile_append)

lemma minus_no_digit [simp]: "\<not> is_digit 45"
  by (simp add: is_digit_def)

lemma digit_text_head: "digit_text ds \<Longrightarrow> ds \<noteq> [] \<and> hd ds \<noteq> 45 \<and> 44 \<notin> set ds"
  by (cases ds) (auto simp: digit_text_def list_all_iff is_digit_def)


lemma open_member:
  assumes "1 \<le> a" "a \<le> MAX_SAFE_INTEGER"
  shows "\<exists>i. parseMember (int_to_js a @ [45]) count = Inr i" "requested_member count (int_to_js a @ [45]) = {a..count}"
    "44 \<notin> set (int_to_js a @ [45])" "MEMBER (int_to_js a @ [45])"
proof -
  have A: "digit_text (int_to_js a)" "num (int_to_js a) = a" using assms int_text_digits by auto
  have t: "THROUGH_END (int_to_js a @ [45]) = Some (int_to_js a)"
    using digit_text_head [OF A(1)] by (simp add: THROUGH_END_def digits_then [OF A(1) minus_no_digit] Let_def)
  have "bound (int_to_js a) = Inr a" using A assms by simp
  then show "\<exists>i. parseMember (int_to_js a @ [45]) count = Inr i" by (simp add: parseMember_def t)
  show "requested_member count (int_to_js a @ [45]) = {a..count}" by (simp add: requested_member_def t A)
  show "44 \<notin> set (int_to_js a @ [45])" using digit_text_head A by auto
  show "MEMBER (int_to_js a @ [45])" by (simp add: MEMBER_def t)
qed








text \<open>A requested range behind the last line is clipped to the line count, which turns it round: the
  continuation then names a selector that the grammar's bounds refuse.\<close>

lemma clipped_continuation_refused:
  "resumeSelector
     [(js ''lineCount'', JNum (num_of_int 4)),
      (js ''requestedRanges'', JArr [JObj [(js ''startLine'', JNum (num_of_int 1)), (js ''endLine'', JNum (num_of_int 3))],
                                     JObj [(js ''startLine'', JNum (num_of_int 7)), (js ''endLine'', JNum (num_of_int 8))]])] 1
     = js ''2-3,7-4'' \<and>
   applySelectorSuffix path (Some (js ''2-3,7-4'')) = Inl selector_error"
proof
  have "MEMBER_LIST (js ''2-3,7-4'')" "splitMembers (js ''2-3,7-4'') = Inr [js ''2-3'', js ''7-4'']"
    "map_res (\<lambda>m. parseMember m 0) [js ''2-3'', js ''7-4''] = Inl selector_error" by code_simp+
  then show "applySelectorSuffix path (Some (js ''2-3,7-4'')) = Inl selector_error"
    by (simp add: apply_list(1) applyMembers_def)
qed code_simp

end
