(* ===== verification/Source_Lines.thy ===== *)
theory Source_Lines
  imports Read_Rendering
begin

text \<open>
  The text window of a native read: the result a read builds line by line under the shared bound
  (\<^verbatim>\<open>packages/native-file-tools/src/source-lines.ts\<close>), the lines of a file read in pieces, and the single and
  multi-range walks over them (\<^verbatim>\<open>stream-read.ts\<close>). The bytes of a file are the decoded pieces that arrive; the
  Markdown readers, which take a window's place for Markdown sources, are an argument.
\<close>

section \<open>Results\<close>

definition MAX_READ_LINES :: int where
  "MAX_READ_LINES = 2000"

definition MAX_RESULT_CODE_UNITS :: int where
  "MAX_RESULT_CODE_UNITS = RESULT_TRUNCATE_CHARS"

definition resultBudget :: "read_target \<Rightarrow> int" where
  "resultBudget target = MAX_RESULT_CODE_UNITS - (case rt_reserveCodeUnits target of None \<Rightarrow> 0 | Some n \<Rightarrow> n)"

text \<open>The width of a read, or of the read with the offset it would continue at.\<close>

definition measureReadRendering :: "obj \<Rightarrow> int option \<Rightarrow> int" where
  "measureReadRendering r nextOffset =
     int (length (neutralizeReservedDelimiters (renderReadText
       (case nextOffset of
          None \<Rightarrow> r
        | Some n \<Rightarrow> map_set (map_set r (js ''truncated'') (JBool True)) (js ''nextOffset'') (JNum (num_of_int n))))))"

record read_base =
  rb_path :: jstr
  rb_realPath :: "jstr option"
  rb_raw :: bool
  rb_content :: jstr
  rb_nextOffset :: "int option"
  rb_truncated :: bool
  rb_lineCount :: "int option"

record single_read = read_base +
  sr_requested :: "line_range option"
  sr_shown :: "line_range option"


text \<open>The objects they are: absent properties are left out.\<close>

definition range_object :: "line_range \<Rightarrow> jsval" where
  "range_object r = JObj [(js ''startLine'', JNum (num_of_int (fst r))), (js ''endLine'', JNum (num_of_int (snd r)))]"

definition base_object :: "'a read_base_scheme \<Rightarrow> obj" where
  "base_object r =
     [(js ''status'', JStr (js ''success'')), (js ''kind'', JStr (js ''file'')), (js ''path'', JStr (rb_path r)),
      (js ''representation'', JStr (if rb_raw r then js ''raw'' else js ''text'')), (js ''content'', JStr (rb_content r)),
      (js ''truncated'', JBool (rb_truncated r))] @
     opt_prop ''realPath'' JStr (rb_realPath r) @
     opt_prop ''lineCount'' (\<lambda>n. JNum (num_of_int n)) (rb_lineCount r) @
     opt_prop ''nextOffset'' (\<lambda>n. JNum (num_of_int n)) (rb_nextOffset r)"

definition range_or_null :: "line_range option \<Rightarrow> jsval" where
  "range_or_null r = (case r of None \<Rightarrow> JNull | Some x \<Rightarrow> range_object x)"

definition single_object :: "single_read \<Rightarrow> obj" where
  "single_object r =
     base_object r @ [(js ''requestedRange'', range_or_null (sr_requested r)), (js ''shownRange'', range_or_null (sr_shown r))]"


section \<open>Appending a line\<close>

definition boundedReadLineCount :: "int option \<Rightarrow> int" where
  "boundedReadLineCount requested = min (case requested of None \<Rightarrow> MAX_READ_LINES | Some n \<Rightarrow> n) MAX_READ_LINES"

definition renderSourceLine :: "jstr \<Rightarrow> int \<Rightarrow> bool \<Rightarrow> jstr" where
  "renderSourceLine source index raw = (if raw then source else int_to_js (index + 1) @ js '': '' @ source)"

definition retryOffset :: "read_target \<Rightarrow> int \<Rightarrow> int" where
  "retryOffset target index =
     max (rt_offset target) (min index (rt_offset target + boundedReadLineCount (rt_limit target)))"

text \<open>The line as it is rendered; a line too long for any result arrives as \<open>None\<close>.\<close>

definition appendReadLine :: "single_read \<Rightarrow> jstr option \<Rightarrow> int \<Rightarrow> read_target \<Rightarrow> bool \<times> single_read" where
  "appendReadLine result text index target =
     (let line = map_option (\<lambda>t. renderSourceLine t index (rt_raw target)) text;
          candidate = result\<lparr>rb_content := rb_content result @ (case line of None \<Rightarrow> [] | Some l \<Rightarrow> l),
            sr_shown := Some (case sr_shown result of Some s \<Rightarrow> fst s | None \<Rightarrow> index + 1, index + 1)\<rparr>;
          isFirstLineOfResult = (rb_content result = []);
          overflows = (line = None \<or>
            measureReadRendering (single_object candidate) (Some (retryOffset target (index + 1))) > resultBudget target) in
      if overflows \<and> isFirstLineOfResult \<and> index < rt_offset target then (True, result)
      else if overflows
      then (False, result\<lparr>rb_truncated := True,
              rb_nextOffset := Some (if line = None \<or> isFirstLineOfResult then index + 1 else retryOffset target index)\<rparr>)
      else (True, candidate))"

definition emptyReadResult :: "read_target \<Rightarrow> int \<Rightarrow> native_file_error + single_read" where
  "emptyReadResult target endLine =
     (let requestedEnd = (if endLine \<noteq> 0 \<and> rt_limit target = None
                          then (case rt_lineCount target of Some n \<Rightarrow> n | None \<Rightarrow> endLine) else endLine);
          result = \<lparr>rb_path = rt_path target, rb_realPath = rt_realPath target, rb_raw = rt_raw target, rb_content = [],
            rb_nextOffset = None, rb_truncated = False, rb_lineCount = rt_lineCount target,
            sr_requested = (if requestedEnd = 0 then None else Some (rt_offset target + 1, requestedEnd)), sr_shown = None\<rparr> in
      if measureReadRendering (single_object result) (Some (rt_offset target)) > resultBudget target
      then Inl (file_error Invalid_Path) else Inr result)"

section \<open>A window of text in hand\<close>

text \<open>The loop of \<^verbatim>\<open>renderSelection\<close> over the lines of its window with their indices.\<close>

primrec append_lines :: "read_target \<Rightarrow> (int \<times> jstr) list \<Rightarrow> single_read \<Rightarrow> single_read" where
  "append_lines target [] result = result"
| "append_lines target (l # ls) result =
     (case appendReadLine result (Some (snd l)) (fst l) target of
        (goOn, r) \<Rightarrow> if goOn then append_lines target ls r else r)"

definition window_of :: "jstr list \<Rightarrow> int \<Rightarrow> int \<Rightarrow> (int \<times> jstr) list" where
  "window_of lines start stop = map (\<lambda>i. (int i, lines ! i)) [nat start..<nat stop]"

definition renderSelection :: "jstr list \<Rightarrow> read_target \<Rightarrow> single_read \<Rightarrow> int \<Rightarrow> int \<Rightarrow> single_read" where
  "renderSelection lines target result start stop = append_lines target (window_of lines start stop) result"

definition selectSourceLines ::
  "(jstr \<Rightarrow> read_target \<Rightarrow> native_file_error + single_read) \<Rightarrow> jstr \<Rightarrow> read_target \<Rightarrow> jstr option \<Rightarrow>
     native_file_error + single_read" where
  "selectSourceLines markdown source target mediaType =
     (if rt_ranges target \<noteq> None then Inl (file_error Invalid_Input)
      else bind_res (assertResolvedTarget target) (\<lambda>_.
        let lines = source_lines source; count = int (length lines); placed = target\<lparr>rt_lineCount := Some count\<rparr>;
            offset = rt_offset placed; raw = rt_raw placed in
        if mediaType = Some (js ''text/markdown'') \<and> offset > 0 \<and> \<not> raw then markdown source placed
        else if offset \<ge> count \<and> (count > 0 \<or> offset \<noteq> 0) then Inl (file_error Invalid_Selector)
        else
          (let requestedEnd = offset + (case rt_limit placed of None \<Rightarrow> MAX_READ_LINES | Some n \<Rightarrow> n);
               boundedEnd = min count (offset + boundedReadLineCount (rt_limit placed));
               start = (if raw then offset else max 0 (offset - 1));
               stop = (if raw then boundedEnd else min count (boundedEnd + 1)) in
           bind_res (emptyReadResult placed (if count = 0 then 0 else requestedEnd)) (\<lambda>result.
             Inr (renderSelection lines placed
               (result\<lparr>rb_truncated := (boundedEnd < min requestedEnd count \<or> (rt_limit placed = None \<and> boundedEnd < count)),
                       rb_nextOffset := (if boundedEnd < count then Some boundedEnd else rb_nextOffset result)\<rparr>)
               start stop)))))"

section \<open>The lines of a file read in pieces\<close>

record line_state =
  ls_partial :: jstr
  ls_oversized :: bool

definition ends_line :: "jstr \<Rightarrow> bool" where
  "ends_line fragment \<longleftrightarrow> fragment \<noteq> [] \<and> last fragment = 10"

text \<open>One fragment of a line: the state it leaves and the line it completes, \<open>Some None\<close> for one past the bound. What
  the Markdown scanner is told of a long line is left out.\<close>

definition takeSourceFragment :: "jstr \<Rightarrow> line_state \<Rightarrow> line_state \<times> jstr option option" where
  "takeSourceFragment fragment s =
     (let fresh = \<lparr>ls_partial = [], ls_oversized = False\<rparr> in
      if ls_oversized s then (if ends_line fragment then (fresh, Some None) else (s, None))
      else if int (length (ls_partial s)) + int (length fragment) \<le> MAX_RESULT_CODE_UNITS
      then (let line = ls_partial s @ fragment in
            if ends_line fragment then (fresh, Some (Some line)) else (s\<lparr>ls_partial := line\<rparr>, None))
      else if ends_line fragment then (fresh, Some None)
      else (\<lparr>ls_partial = take (nat MAX_RESULT_CODE_UNITS) (ls_partial s @ fragment), ls_oversized = True\<rparr>, None))"

primrec take_fragments :: "jstr list \<Rightarrow> line_state \<Rightarrow> line_state \<times> jstr option list" where
  "take_fragments [] s = (s, [])"
| "take_fragments (f # fs) s =
     (case takeSourceFragment f s of (s1, out) \<Rightarrow>
        case take_fragments fs s1 of (s2, outs) \<Rightarrow> (s2, opt_list out @ outs))"

text \<open>The generator over the decoded pieces, and the line a source without a final terminator ends with.\<close>

primrec sourceLines_from :: "jstr list \<Rightarrow> line_state \<Rightarrow> jstr option list" where
  "sourceLines_from [] s = (if ls_oversized s then [None] else if ls_partial s \<noteq> [] then [Some (ls_partial s)] else [])"
| "sourceLines_from (piece # pieces) s =
     (case take_fragments (source_lines piece) s of (s1, out) \<Rightarrow> out @ sourceLines_from pieces s1)"

definition sourceLines :: "jstr list \<Rightarrow> jstr option list" where
  "sourceLines pieces = sourceLines_from pieces \<lparr>ls_partial = [], ls_oversized = False\<rparr>"

section \<open>A window of a file\<close>

fun collect_from ::
  "read_target \<Rightarrow> int \<Rightarrow> int \<Rightarrow> int \<Rightarrow> int \<Rightarrow> jstr option list \<Rightarrow> single_read \<Rightarrow> native_file_error + single_read" where
  "collect_from target start requestedEnd boundedEnd count [] result =
     (if rt_offset target \<ge> count \<and> (count > 0 \<or> rt_offset target \<noteq> 0) then Inl (file_error Invalid_Selector)
      else Inr (if count = 0 then result\<lparr>sr_requested := None\<rparr> else result))"
| "collect_from target start requestedEnd boundedEnd index (text # rest) result =
     (if index < start then collect_from target start requestedEnd boundedEnd (index + 1) rest result
      else if index \<ge> boundedEnd
      then (let r = result\<lparr>rb_nextOffset := Some boundedEnd,
                           rb_truncated := (rt_limit target = None \<or> requestedEnd > boundedEnd)\<rparr> in
            Inr (if rt_raw target then r else snd (appendReadLine r text index target)))
      else (case appendReadLine result text index target of
              (goOn, r) \<Rightarrow>
                if goOn then collect_from target start requestedEnd boundedEnd (index + 1) rest r else Inr r))"

definition collectWindow :: "jstr list \<Rightarrow> read_target \<Rightarrow> native_file_error + single_read" where
  "collectWindow pieces target =
     (let requestedEnd = rt_offset target + (case rt_limit target of None \<Rightarrow> MAX_READ_LINES | Some n \<Rightarrow> n) in
      bind_res (emptyReadResult target requestedEnd) (\<lambda>result.
        collect_from target (if rt_raw target then rt_offset target else max 0 (rt_offset target - 1)) requestedEnd
          (rt_offset target + boundedReadLineCount (rt_limit target)) 0 (sourceLines pieces) result))"

section \<open>Several ranges\<close>






















section \<open>Pieces do not matter\<close>

lemma source_lines_empty [simp]: "[] \<notin> set (source_lines s)"
  by (induction s) (auto split: list.splits)

lemma source_lines_Nil [simp]: "source_lines s = [] \<longleftrightarrow> s = []"
  by (cases s) (auto split: list.splits)

lemma concat_source_lines [simp]: "concat (source_lines s) = s"
  by (induction s) (auto split: list.splits)


lemma source_lines_first: "10 \<notin> set q \<Longrightarrow> source_lines (q @ 10 # rest) = (q @ [10]) # source_lines rest"
  by (induction q) auto

lemma source_lines_last: "10 \<notin> set q \<Longrightarrow> source_lines q = (if q = [] then [] else [q])"
  by (induction q) auto














section \<open>What a single read shows\<close>

definition shown_text :: "jstr list \<Rightarrow> bool \<Rightarrow> line_range \<Rightarrow> jstr" where
  "shown_text lines raw r = concat (map (\<lambda>i. renderSourceLine (lines ! i) (int i) raw) [nat (fst r - 1)..<nat (snd r)])"

text \<open>A result holds the lines it says it shows, up to the line before index \<open>k\<close>.\<close>

definition shows_lines :: "jstr list \<Rightarrow> bool \<Rightarrow> int \<Rightarrow> single_read \<Rightarrow> int \<Rightarrow> bool" where
  "shows_lines lines raw low r k \<longleftrightarrow>
     (case sr_shown r of
        None \<Rightarrow> rb_content r = []
      | Some (a, b) \<Rightarrow> rb_content r \<noteq> [] \<and> rb_content r = shown_text lines raw (a, b) \<and> low < a \<and> a \<le> b \<and> b \<le> k)"

lemma rendered_line_nonempty: "source \<noteq> [] \<Longrightarrow> renderSourceLine source i raw \<noteq> []"
  by (simp add: renderSourceLine_def)

lemma append_shows:
  assumes i: "shows_lines lines (rt_raw target) low r (int k)" "sr_shown r \<noteq> None \<Longrightarrow> snd (the (sr_shown r)) = int k"
    and l: "lines ! k \<noteq> []" "low \<le> int k"
    and a: "appendReadLine r (Some (lines ! k)) (int k) target = (True, r')"
    and d: "rb_content r = [] \<Longrightarrow> int k < rt_offset target \<Longrightarrow> sr_shown r = None"
  shows "shows_lines lines (rt_raw target) low r' (int (Suc k)) \<and>
    (r' = r \<and> sr_shown r = None \<or> snd (the (sr_shown r')) = int (Suc k) \<and> sr_shown r' \<noteq> None)"
proof -
  let ?line = "renderSourceLine (lines ! k) (int k) (rt_raw target)"
  let ?c = "r\<lparr>rb_content := rb_content r @ ?line,
     sr_shown := Some (case sr_shown r of Some s \<Rightarrow> fst s | None \<Rightarrow> int k + 1, int k + 1)\<rparr>"
  have "r' = r \<and> sr_shown r = None \<or> r' = ?c"
    using a d by (auto simp: appendReadLine_def Let_def split: if_splits)
  then show ?thesis
  proof
    assume "r' = r \<and> sr_shown r = None"
    with i show ?thesis by (simp add: shows_lines_def)
  next
    assume r': "r' = ?c"
    show ?thesis
    proof (cases "sr_shown r")
      case None
      then show ?thesis using i(1) l rendered_line_nonempty [OF l(1)]
        by (simp add: r' shows_lines_def shown_text_def nat_add_distrib)
    next
      case (Some s)
      obtain x y where s: "s = (x, y)" by (cases s)
      have y: "y = int k" using i(2) Some s by simp
      have "shown_text lines (rt_raw target) (x, int k + 1) = shown_text lines (rt_raw target) (x, int k) @ ?line"
      proof -
        have "x \<le> int k" using i(1) Some s y by (simp add: shows_lines_def)
        then have "nat (x - 1) \<le> k" by linarith
        then show ?thesis by (simp add: shown_text_def nat_add_distrib)
      qed
      then show ?thesis using i(1) Some s y rendered_line_nonempty [OF l(1)]
        by (simp add: r' shows_lines_def)
    qed
  qed
qed

text \<open>The invariant of the loop at index \<open>k\<close>: what is shown, that it ends at \<open>k\<close>, and that it fits with the offset a
  failure would store.\<close>

definition with_next :: "single_read \<Rightarrow> int \<Rightarrow> single_read" where
  "with_next r n = r\<lparr>rb_truncated := True, rb_nextOffset := Some n\<rparr>"

definition loop_inv :: "jstr list \<Rightarrow> read_target \<Rightarrow> int \<Rightarrow> single_read \<Rightarrow> nat \<Rightarrow> bool" where
  "loop_inv lines target start r k \<longleftrightarrow>
     shows_lines lines (rt_raw target) start r (int k) \<and>
     (sr_shown r \<noteq> None \<longrightarrow> snd (the (sr_shown r)) = int k \<and> fst (the (sr_shown r)) \<le> rt_offset target + 1 \<and>
        measureReadRendering (single_object (with_next r (retryOffset target (int k)))) None \<le> resultBudget target) \<and>
     (sr_shown r = None \<longrightarrow> int k \<le> rt_offset target)"

text \<open>A rendering reads the properties of its object and nothing else.\<close>

lemma prop_of_eq: "map_of a = map_of b \<Longrightarrow> prop_of a = prop_of b"
  by (simp add: fun_eq_iff prop_of_def get_prop_def)

lemma render_props:
  assumes "map_of a = map_of b"
  shows "renderReadText a = renderReadText b"
proof -
  note p = prop_of_eq [OF assms]
  have i: "int_prop a = int_prop b" by (simp add: fun_eq_iff int_prop_def p)
  have "attribution_of a = attribution_of b" by (simp add: fun_eq_iff attribution_of_def p)
  note p = p i this
  note f = path_line_def has_form_def is_truncated_def is_directory_def header_total_def resumeSelector_def
  show ?thesis
    by (simp only: renderReadText_def fileHeader_def renderAttributionLines_def continuationLine_def
        body_of_def cap_notice_lines_def f p)
qed

lemma opt_prop_map: "map_of (opt_prop k f v) = (case v of None \<Rightarrow> Map.empty | Some x \<Rightarrow> [js k \<mapsto> f x])"
  by (auto simp: opt_prop_def split: option.split)

lemma measure_with_next: "measureReadRendering (single_object r) (Some n) = measureReadRendering (single_object (with_next r n)) None"
proof -
  have "map_of (map_set (map_set (single_object r) (js ''truncated'') (JBool True)) (js ''nextOffset'') (JNum (num_of_int n))) =
    map_of (single_object (with_next r n))"
    by (auto simp: single_object_def base_object_def with_next_def opt_prop_map fun_eq_iff map_add_def split: option.split)
  from render_props [OF this] show ?thesis by (simp add: measureReadRendering_def)
qed

lemma measure_append_True:
  assumes "appendReadLine r (Some t) i target = (True, r')" "\<not> (rb_content r = [] \<and> i < rt_offset target \<and> r' = r)"
  shows "measureReadRendering (single_object (with_next r' (retryOffset target (i + 1)))) None \<le> resultBudget target \<and>
    r' = r\<lparr>rb_content := rb_content r @ renderSourceLine t i (rt_raw target),
           sr_shown := Some (case sr_shown r of Some s \<Rightarrow> fst s | None \<Rightarrow> i + 1, i + 1)\<rparr>"
  using assms by (auto simp: appendReadLine_def Let_def measure_with_next split: if_splits)

text \<open>One line of the loop keeps the invariant, or ends it with the offset it stores.\<close>

lemma loop_step:
  assumes inv: "loop_inv lines target start r k" and l: "lines ! k \<noteq> []" and k: "start \<le> int k" "rt_offset target - 1 \<le> start"
    and a: "appendReadLine r (Some (lines ! k)) (int k) target = (True, r')"
  shows "loop_inv lines target start r' (Suc k)"
proof -
  have n: "snd (the (sr_shown r)) = int k" if "sr_shown r \<noteq> None" using inv that by (simp add: loop_inv_def)
  have sh: "shows_lines lines (rt_raw target) start r (int k)" using inv by (simp add: loop_inv_def)
  have e: "sr_shown r = None" if "rb_content r = []" using sh that by (auto simp: shows_lines_def split: option.splits)
  note s = append_shows [OF sh n l k(1) a e]
  show ?thesis
  proof (cases "rb_content r = [] \<and> int k < rt_offset target \<and> r' = r")
    case True
    then show ?thesis using s e by (simp add: loop_inv_def)
  next
    case False
    note m = measure_append_True [OF a False]
    have "fst (the (sr_shown r')) \<le> rt_offset target + 1"
    proof (cases "sr_shown r")
      case None
      then have "int k \<le> rt_offset target" using inv by (simp add: loop_inv_def)
      then show ?thesis using m None by simp
    next
      case (Some x)
      then show ?thesis using m inv by (simp add: loop_inv_def)
    qed
    then show ?thesis using s m by (auto simp: loop_inv_def add.commute)
  qed
qed

text \<open>How the loop ends: with every line of the window taken, or at a line \<open>j\<close> that did not fit.\<close>

lemma append_True_keeps:
  "appendReadLine r t i target = (True, r') \<Longrightarrow> rb_truncated r' = rb_truncated r \<and> rb_nextOffset r' = rb_nextOffset r"
  by (auto simp: appendReadLine_def Let_def split: if_splits)

lemma append_False:
  "appendReadLine r (Some t) i target = (False, r') \<Longrightarrow>
   r' = with_next r (if rb_content r = [] then i + 1 else retryOffset target i) \<and> (rb_content r = [] \<longrightarrow> rt_offset target \<le> i)"
  by (auto simp: appendReadLine_def Let_def with_next_def split: if_splits)

lemma loop_outcome:
  assumes l: "\<forall>j < stop. lines ! j \<noteq> []" and o: "rt_offset target - 1 \<le> start"
  shows "loop_inv lines target start r k \<Longrightarrow> start \<le> int k \<Longrightarrow> k \<le> stop \<Longrightarrow>
    r' = append_lines target (map (\<lambda>i. (int i, lines ! i)) [k..<stop]) r \<Longrightarrow>
    (loop_inv lines target start r' stop \<and> rb_truncated r' = rb_truncated r \<and> rb_nextOffset r' = rb_nextOffset r) \<or>
    (\<exists>j r1. j < stop \<and> loop_inv lines target start r1 j \<and> (rb_content r1 = [] \<longrightarrow> rt_offset target \<le> int j) \<and>
       r' = with_next r1 (if rb_content r1 = [] then int j + 1 else retryOffset target (int j)))"
proof (induction "stop - k" arbitrary: r k)
  case 0
  then show ?case by simp
next
  case (Suc d)
  then have k: "k < stop" "[k..<stop] = k # [Suc k..<stop]" by (simp_all add: upt_conv_Cons)
  obtain goOn r1 where a: "appendReadLine r (Some (lines ! k)) (int k) target = (goOn, r1)" by fastforce
  show ?case
  proof (cases goOn)
    case True
    with a have a: "appendReadLine r (Some (lines ! k)) (int k) target = (True, r1)" by simp
    have i: "loop_inv lines target start r1 (Suc k)" by (rule loop_step [OF Suc.prems(1) l [rule_format, OF k(1)] Suc.prems(2) o a])
    have "r' = append_lines target (map (\<lambda>i. (int i, lines ! i)) [Suc k..<stop]) r1" using Suc.prems(4) a k by simp
    from Suc.hyps(1) [OF _ i _ _ this] Suc.hyps(2) Suc.prems(2) k(1) append_True_keeps [OF a] show ?thesis by simp
  next
    case False
    with a have a: "appendReadLine r (Some (lines ! k)) (int k) target = (False, r1)" by simp
    have "r' = r1" using Suc.prems(4) a k by simp
    with append_False [OF a] Suc.prems(1) k(1) show ?thesis by blast
  qed
qed

text \<open>The window of a selection and what its result is preset to.\<close>

definition requested_end :: "read_target \<Rightarrow> int" where
  "requested_end t = rt_offset t + (case rt_limit t of None \<Rightarrow> MAX_READ_LINES | Some n \<Rightarrow> n)"

definition bounded_end :: "read_target \<Rightarrow> int \<Rightarrow> int" where
  "bounded_end t count = min count (rt_offset t + boundedReadLineCount (rt_limit t))"

definition window_start :: "read_target \<Rightarrow> int" where
  "window_start t = (if rt_raw t then rt_offset t else max 0 (rt_offset t - 1))"

definition window_stop :: "read_target \<Rightarrow> int \<Rightarrow> int" where
  "window_stop t count = (if rt_raw t then bounded_end t count else min count (bounded_end t count + 1))"

definition preset :: "read_target \<Rightarrow> int \<Rightarrow> single_read \<Rightarrow> single_read" where
  "preset t count r =
     r\<lparr>rb_truncated := (bounded_end t count < min (requested_end t) count \<or> (rt_limit t = None \<and> bounded_end t count < count)),
       rb_nextOffset := (if bounded_end t count < count then Some (bounded_end t count) else rb_nextOffset r)\<rparr>"

definition counted_target :: "jstr \<Rightarrow> read_target \<Rightarrow> read_target" where
  "counted_target source t = t\<lparr>rt_lineCount := Some (int (length (source_lines source)))\<rparr>"

lemma counted_target_fields [simp]:
  "rt_offset (counted_target s t) = rt_offset t" "rt_limit (counted_target s t) = rt_limit t"
  "rt_raw (counted_target s t) = rt_raw t" "resultBudget (counted_target s t) = resultBudget t"
  by (simp_all add: counted_target_def resultBudget_def)

lemma counted_target_windows [simp]:
  "retryOffset (counted_target s t) i = retryOffset t i" "window_start (counted_target s t) = window_start t"
  by (simp_all add: retryOffset_def window_start_def)

lemma select_eq:
  fixes source :: jstr
  assumes "\<not> (mediaType = Some (js ''text/markdown'') \<and> rt_offset target > 0 \<and> \<not> rt_raw target)"
  defines "count \<equiv> int (length (source_lines source))"
  shows "selectSourceLines markdown source target mediaType =
    (if rt_ranges target \<noteq> None then Inl (file_error Invalid_Input)
     else if rt_pending target \<noteq> None then Inl (file_error Invalid_Selector)
     else if rt_offset target \<ge> count \<and> (count > 0 \<or> rt_offset target \<noteq> 0) then Inl (file_error Invalid_Selector)
     else bind_res (emptyReadResult (counted_target source target) (if count = 0 then 0 else requested_end target))
       (\<lambda>r. Inr (append_lines (counted_target source target)
          (window_of (source_lines source) (window_start target) (window_stop target count)) (preset target count r))))"
proof -
  have nm: "(mediaType = Some (js ''text/markdown'') \<and> 0 < rt_offset target \<and> \<not> rt_raw target) = False" using assms by simp
  have ct: "target\<lparr>rt_lineCount := Some count\<rparr> = counted_target source target" by (simp add: counted_target_def count_def)
  show ?thesis
    unfolding selectSourceLines_def assertResolvedTarget_def renderSelection_def Let_def count_def [symmetric] ct
      requested_end_def bounded_end_def window_start_def window_stop_def preset_def counted_target_fields nm if_False
    by simp
qed

lemma select_outcome:
  fixes source :: jstr
  assumes sel: "selectSourceLines markdown source target mediaType = Inr r"
    and nm: "\<not> (mediaType = Some (js ''text/markdown'') \<and> rt_offset target > 0 \<and> \<not> rt_raw target)"
  defines "count \<equiv> int (length (source_lines source))"
  obtains r0 where "r = append_lines (counted_target source target)
      (window_of (source_lines source) (window_start target) (window_stop target count)) (preset target count r0)"
    "sr_shown r0 = None" "rb_content r0 = []" "rb_nextOffset r0 = None" "\<not> rb_truncated r0"
    "rt_offset target < count \<or> count = 0 \<and> rt_offset target = 0"
proof -
  from sel obtain r0 where r0: "emptyReadResult (counted_target source target) (if count = 0 then 0 else requested_end target) = Inr r0"
    and r: "r = append_lines (counted_target source target)
      (window_of (source_lines source) (window_start target) (window_stop target count)) (preset target count r0)"
    unfolding select_eq [OF nm] count_def [symmetric] by (auto split: if_split_asm)
  have o: "rt_offset target < count \<or> count = 0 \<and> rt_offset target = 0"
    using sel unfolding select_eq [OF nm] count_def [symmetric] by (auto simp: count_def split: if_split_asm)
  have "sr_shown r0 = None" "rb_content r0 = []" "rb_nextOffset r0 = None" "\<not> rb_truncated r0"
    using r0 by (auto simp: emptyReadResult_def Let_def split: if_split_asm)
  with r o show thesis by (intro that)
qed

text \<open>Where a selection ends.\<close>

lemma single_outcome:
  fixes source :: jstr
  assumes sel: "selectSourceLines markdown source target mediaType = Inr r"
    and nm: "\<not> (mediaType = Some (js ''text/markdown'') \<and> rt_offset target > 0 \<and> \<not> rt_raw target)"
    and o: "0 \<le> rt_offset target" and pos: "0 < boundedReadLineCount (rt_limit target)"
  defines "lines \<equiv> source_lines source"
  defines "count \<equiv> int (length lines)"
  defines "stop \<equiv> window_stop target count"
  shows "(loop_inv lines (counted_target source target) (window_start target) r (nat stop) \<and> 0 \<le> stop \<and>
      (rb_truncated r \<longrightarrow> bounded_end target count < count) \<and>
      rb_nextOffset r = (if bounded_end target count < count then Some (bounded_end target count) else None)) \<or>
    (\<exists>j r1. int j < stop \<and> loop_inv lines (counted_target source target) (window_start target) r1 j \<and>
      (rb_content r1 = [] \<longrightarrow> rt_offset target \<le> int j) \<and>
      r = with_next r1 (if rb_content r1 = [] then int j + 1 else retryOffset target (int j)))" (is ?goal)
    and "stop \<le> count" and "rt_offset target < count \<or> count = 0 \<and> rt_offset target = 0"
proof -
  obtain r0 where r: "r = append_lines (counted_target source target)
      (window_of lines (window_start target) stop) (preset target count r0)"
    and r0: "sr_shown r0 = None" "rb_content r0 = []" "rb_nextOffset r0 = None" "\<not> rb_truncated r0"
    and c: "rt_offset target < count \<or> count = 0 \<and> rt_offset target = 0"
    using select_outcome [OF sel nm] unfolding count_def lines_def stop_def by metis
  show "rt_offset target < count \<or> count = 0 \<and> rt_offset target = 0" by (rule c)
  have s: "0 \<le> window_start target" "window_start target \<le> rt_offset target" "rt_offset target - 1 \<le> window_start target"
    using o by (auto simp: window_start_def)
  have b: "0 \<le> bounded_end target count" "bounded_end target count \<le> count" "window_start target \<le> bounded_end target count"
    using c pos s o by (auto simp: bounded_end_def)
  have st: "bounded_end target count \<le> stop" "stop \<le> count"
    using b by (auto simp: stop_def window_stop_def)
  show "stop \<le> count" by (rule st(2))
  have ne: "\<forall>j < nat stop. lines ! j \<noteq> []"
  proof (intro allI impI)
    fix j assume "j < nat stop"
    then have "j < length lines" using st(2) by (simp add: count_def)
    then have "lines ! j \<in> set lines" by simp
    then show "lines ! j \<noteq> []" using source_lines_empty [of source] by (metis lines_def)
  qed
  have inv: "loop_inv lines (counted_target source target) (window_start target) (preset target count r0) (nat (window_start target))"
    using r0 s by (simp add: loop_inv_def shows_lines_def preset_def)
  have w: "r = append_lines (counted_target source target) (map (\<lambda>i. (int i, lines ! i)) [nat (window_start target)..<nat stop]) (preset target count r0)"
    using r by (simp add: window_of_def)
  have le: "nat (window_start target) \<le> nat stop" "window_start target \<le> int (nat (window_start target))"
    "rt_offset (counted_target source target) - 1 \<le> window_start target" using b st s by auto
  have fin: ?goal if "loop_inv lines (counted_target source target) (window_start target) r (nat stop)"
    "rb_truncated r = rb_truncated (preset target count r0)" "rb_nextOffset r = rb_nextOffset (preset target count r0)"
    using that b(1) st(1) r0(3,4) by (intro disjI1) (auto simp: preset_def)
  have cut: ?goal if "j < nat stop" "loop_inv lines (counted_target source target) (window_start target) r1 j"
    "rb_content r1 = [] \<longrightarrow> rt_offset (counted_target source target) \<le> int j"
    "r = with_next r1 (if rb_content r1 = [] then int j + 1 else retryOffset (counted_target source target) (int j))" for j r1
    using that by (intro disjI2 exI [of _ j] exI [of _ r1]) auto
  from loop_outcome [OF ne le(3) inv le(2,1) w] show ?goal using fin cut by (elim disjE exE conjE)
qed

lemma with_next_fields [simp]:
  "sr_shown (with_next r n) = sr_shown r" "rb_content (with_next r n) = rb_content r"
  "rb_nextOffset (with_next r n) = Some n" "rb_truncated (with_next r n)"
  by (simp_all add: with_next_def)

lemma with_next_same: "rb_truncated r \<Longrightarrow> rb_nextOffset r = Some n \<Longrightarrow> with_next r n = r"
  by (simp add: with_next_def)

text \<open>What a selection shows: nothing, or the rendered lines of the range it reports, which starts at most one line after the
  requested start.\<close>

lemma single_read_shows_lines:
  assumes "selectSourceLines markdown source target mediaType = Inr r"
    and "\<not> (mediaType = Some (js ''text/markdown'') \<and> rt_offset target > 0 \<and> \<not> rt_raw target)"
    and "0 \<le> rt_offset target" and "0 < boundedReadLineCount (rt_limit target)"
  shows "case sr_shown r of
      None \<Rightarrow> rb_content r = []
    | Some (a, b) \<Rightarrow> rb_content r = shown_text (source_lines source) (rt_raw target) (a, b) \<and>
        window_start target < a \<and> a \<le> rt_offset target + 1 \<and> a \<le> b \<and> b \<le> int (length (source_lines source))"
  using single_outcome [OF assms(1-3)] assms(4)
  by (fastforce simp: loop_inv_def shows_lines_def split: option.splits)

text \<open>C24: A selection that the bound cut, and that shows something, fits the bound as it is stored: its text, with the
  continuation that names the offset it stores, is no wider than the budget of the request.\<close>

theorem cut_read_fits:
  assumes sel: "selectSourceLines markdown source target mediaType = Inr r"
    and nm: "\<not> (mediaType = Some (js ''text/markdown'') \<and> rt_offset target > 0 \<and> \<not> rt_raw target)"
    and o: "0 \<le> rt_offset target" and pos: "0 < boundedReadLineCount (rt_limit target)"
    and cut: "rb_truncated r" "rb_content r \<noteq> []"
  shows "measureReadRendering (single_object r) None \<le> resultBudget target"
proof -
  let ?lines = "source_lines source" and ?count = "int (length (source_lines source))"
  note out = single_outcome [OF sel nm o pos]
  have shown: "sr_shown r' \<noteq> None" if "loop_inv ?lines (counted_target source target) (window_start target) r' k" "rb_content r' \<noteq> []" for r' k
    using that by (cases "sr_shown r'") (auto simp: loop_inv_def shows_lines_def)
  from out(1) show ?thesis
  proof (elim disjE exE conjE)
    assume inv: "loop_inv ?lines (counted_target source target) (window_start target) r (nat (window_stop target ?count))"
      and b: "rb_truncated r \<longrightarrow> bounded_end target ?count < ?count"
      "rb_nextOffset r = (if bounded_end target ?count < ?count then Some (bounded_end target ?count) else None)"
      and st: "0 \<le> window_stop target ?count"
    have be: "bounded_end target ?count = rt_offset target + boundedReadLineCount (rt_limit target)"
      using b cut by (simp add: bounded_end_def)
    have "retryOffset target (window_stop target ?count) = bounded_end target ?count"
      using pos b cut be by (auto simp: retryOffset_def window_stop_def)
    then show ?thesis using inv shown [OF inv cut(2)] b cut st with_next_same [of r "bounded_end target ?count"]
      by (simp add: loop_inv_def)
  next
    fix j r1
    assume inv: "loop_inv ?lines (counted_target source target) (window_start target) r1 j"
      and r: "r = with_next r1 (if rb_content r1 = [] then int j + 1 else retryOffset target (int j))"
    then show ?thesis using shown [OF inv] cut(2) by (simp add: loop_inv_def)
  qed
qed


section \<open>A continuation that stalls\<close>

text \<open>A text without an opening bracket is left as it is, so its width is its length.\<close>

lemma neutralize_plain: "LT \<notin> set t \<Longrightarrow> neutralizeReservedDelimiters t = t"
proof -
  assume "LT \<notin> set t"
  then have "index_of t [LT] 0 = None" by (auto simp: index_of_None occurs_at_single in_set_conv_nth)
  then show ?thesis by (simp add: neutralizeReservedDelimiters_def scanTagTokens_def scan_from.simps)
qed

lemma small_numbers: "int_to_js 1 = [49]" "int_to_js 2 = [50]"
  by code_simp+

definition stall_result :: "jstr \<Rightarrow> int \<Rightarrow> single_read" where
  "stall_result content m =
     \<lparr>rb_path = js ''/f'', rb_realPath = None, rb_raw = False, rb_content = content, rb_nextOffset = None,
      rb_truncated = False, rb_lineCount = Some 2, sr_requested = Some (2, 2), sr_shown = (if m = 0 then None else Some (1, m))\<rparr>"

lemma int_prop_JNum: "prop_of r k = JNum (num_of_int n) \<Longrightarrow> int_prop r k = Some n"
  by (simp add: int_prop_def)

lemma stall_props:
  fixes content m n
  defines "o1 \<equiv> single_object (with_next (stall_result content m) n)"
  shows "prop_of o1 ''kind'' = JStr (js ''file'')" "prop_of o1 ''path'' = JStr (js ''/f'')" "prop_of o1 ''content'' = JStr content"
    "prop_of o1 ''representation'' = JStr (js ''text'')" "prop_of o1 ''truncated'' = JBool True"
    "prop_of o1 ''lineCount'' = JNum (num_of_int 2)" "prop_of o1 ''nextOffset'' = JNum (num_of_int n)"
    "prop_of o1 ''requestedRange'' = range_object (2, 2)" "prop_of o1 ''shownRange'' = range_or_null (if m = 0 then None else Some (1, m))"
    "prop_of o1 ''shownRanges'' = JUndef" "prop_of o1 ''requestedRanges'' = JUndef" "prop_of o1 ''truncationNotice'' = JUndef"
  by (simp_all add: o1_def prop_of_def get_prop_def single_object_def base_object_def with_next_def stall_result_def range_or_null_def)

lemma stall_attribution: "renderAttributionLines (single_object (with_next (stall_result content m) n)) = []"
  by (simp add: renderAttributionLines_def ATTRIBUTION_FIELDS_def attribution_of_def adapterLines_def noteLines_def
      isNonEmptyString_def prop_of_def get_prop_def single_object_def base_object_def with_next_def stall_result_def)

lemma range_or_null_simps [simp]: "asRange JNull = None" "asRange (range_or_null (Some (a, b))) = Some (a, b)"
  "asRange (range_object (a, b)) = Some (a, b)" "range_or_null None = JNull"
  by (simp_all add: range_or_null_def range_object_def asRange_def int_prop_def prop_of_def get_prop_def)

lemmas render_defs = renderReadText_def fileHeader_def header_total_def body_of_def continuationLine_def cap_notice_lines_def
  opt_list_def resumeSelector_def rangeSelector_def is_directory_def has_form_def is_truncated_def path_line_def
  isNonEmptyString_def asRanges_def counted_def noun_def formatRange_def Let_def

lemma path_unbroken: "oneLine (js ''/f'') = js ''/f''" "is_web_locator (js ''/f'') = False" "js ''/f'' \<noteq> []"
  "63 \<notin> set (js ''/f'')" "35 \<notin> set (js ''/f'')"
  by code_simp+

lemma render_empty:
  "renderReadText (single_object (with_next (stall_result [] 0) 1)) =
     js ''/f: line 1 exceeds the result bound and was skipped'' @ [10] @ js ''[1 more line. Use /f:2- to continue]''"
  by (simp add: render_defs stall_props stall_attribution int_prop_JNum path_unbroken small_numbers) (simp add: js.simps)

lemma render_context:
  assumes "c \<noteq> []" 
  shows "renderReadText (single_object (with_next (stall_result (c @ [10]) 1) 1)) =
     js ''/f:1-1 of 2 lines'' @ [10] @ c @ [10] @ js ''[1 more line. Use /f:2- to continue]''"
  using assms
  by (simp add: render_defs chop_line_def stall_props stall_attribution int_prop_JNum path_unbroken small_numbers) (simp add: js.simps)

lemma render_both:
  assumes "c \<noteq> []" "last c \<noteq> 10"
  shows "renderReadText (single_object (with_next (stall_result c 2) 2)) = js ''/f:1-2 of 2 lines'' @ [10] @ c"
  using assms
  by (simp add: render_defs chop_line_def stall_props stall_attribution int_prop_JNum path_unbroken small_numbers) (simp add: js.simps)

text \<open>A request for the second of two lines that fit alone but not together.\<close>

definition second_line :: read_target where
  "second_line = (plain_target (js ''/f'') False)\<lparr>rt_offset := 1, rt_limit := Some 1\<rparr>"

definition plain_line :: "jstr \<Rightarrow> bool" where
  "plain_line s \<longleftrightarrow> s \<noteq> [] \<and> 10 \<notin> set s \<and> LT \<notin> set s"

lemma second_line_fields [simp]:
  "rt_offset second_line = 1" "rt_limit second_line = Some 1" "rt_raw second_line = False" "rt_path second_line = js ''/f''"
  "rt_realPath second_line = None" "rt_ranges second_line = None" "rt_pending second_line = None"
  "rt_reserveCodeUnits second_line = None"
  by (simp_all add: second_line_def plain_target_def)

lemma second_line_windows [simp]:
  "resultBudget second_line = 16000" "bounded_end second_line 2 = 2" "window_start second_line = 0"
  "window_stop second_line 2 = 2" "requested_end second_line = 2" "retryOffset second_line 1 = 1" "retryOffset second_line 2 = 2"
  by (simp_all add: resultBudget_def MAX_RESULT_CODE_UNITS_def RESULT_TRUNCATE_CHARS_def bounded_end_def boundedReadLineCount_def
      MAX_READ_LINES_def window_start_def window_stop_def requested_end_def retryOffset_def)

lemma two_lines: "plain_line a \<Longrightarrow> plain_line b \<Longrightarrow> source_lines (a @ [10] @ b) = [a @ [10], b]"
  by (simp add: plain_line_def source_lines_first source_lines_last)

lemma number_lines: "renderSourceLine s 0 False = js ''1: '' @ s" "renderSourceLine s 1 False = js ''2: '' @ s"
  by (simp_all add: renderSourceLine_def small_numbers js.simps)

lemma measure_plain: "LT \<notin> set (renderReadText r) \<Longrightarrow> measureReadRendering r None = int (length (renderReadText r))"
  by (simp add: measureReadRendering_def neutralize_plain)

lemma stall_empty:
  assumes "plain_line a" "plain_line b"
  shows "emptyReadResult (counted_target (a @ [10] @ b) second_line) 2 = Inr (stall_result [] 0)"
proof -
  have ct: "counted_target (a @ [10] @ b) second_line = second_line\<lparr>rt_lineCount := Some 2\<rparr>"
    unfolding counted_target_def two_lines [OF assms] by simp
  have budget: "resultBudget (second_line\<lparr>rt_lineCount := Some 2\<rparr>) = 16000" unfolding ct [symmetric] by simp
  have "measureReadRendering (single_object (stall_result [] 0)) (Some 1) \<le> 16000"
    unfolding measure_with_next by (subst measure_plain) (simp_all add: render_empty js.simps LT_def)
  moreover have "stall_result [] 0 = \<lparr>rb_path = js ''/f'', rb_realPath = None, rb_raw = False, rb_content = [],
      rb_nextOffset = None, rb_truncated = False, rb_lineCount = Some 2, sr_requested = Some (2, 2), sr_shown = None\<rparr>"
    by (simp add: stall_result_def)
  ultimately show ?thesis unfolding ct by (simp add: emptyReadResult_def budget Let_def)
qed

lemma stall_first:
  assumes "plain_line a" "length a \<le> 15000"
  shows "appendReadLine (stall_result [] 0) (Some (a @ [10])) 0 (counted_target s second_line) =
    (True, stall_result (js ''1: '' @ a @ [10]) 1)"
proof -
  have "js ''1: '' @ a \<noteq> []" using assms by (simp add: plain_line_def)
  note e = render_context [OF this, simplified append_assoc]
  have "measureReadRendering (single_object (stall_result (js ''1: '' @ a @ [10]) 1)) (Some 1) \<le> 16000"
    unfolding measure_with_next by (subst measure_plain; unfold e) (use assms in \<open>simp_all add: js.simps LT_def plain_line_def\<close>)
  moreover have "(stall_result [] 0)\<lparr>rb_content := js ''1: '' @ a @ [10], sr_shown := Some (1, 1)\<rparr> =
    stall_result (js ''1: '' @ a @ [10]) 1" by (simp add: stall_result_def)
  moreover have "rb_content (stall_result [] 0) = []" "sr_shown (stall_result [] 0) = None" by (simp_all add: stall_result_def)
  ultimately show ?thesis by (simp add: appendReadLine_def Let_def number_lines)
qed

lemma stall_second:
  assumes "plain_line a" "plain_line b" "16000 \<le> length a + length b"
  shows "appendReadLine (stall_result (js ''1: '' @ a @ [10]) 1) (Some b) 1 (counted_target s second_line) =
    (False, with_next (stall_result (js ''1: '' @ a @ [10]) 1) 1)"
proof -
  let ?c = "js ''1: '' @ a @ [10] @ js ''2: '' @ b"
  have "last b \<noteq> 10" using assms(2) by (metis last_in_set plain_line_def)
  then have "?c \<noteq> []" "last ?c \<noteq> 10" using assms(2) by (simp_all add: plain_line_def)
  note e = render_both [OF this]
  have "16000 < measureReadRendering (single_object (stall_result ?c 2)) (Some 2)"
    unfolding measure_with_next by (subst measure_plain; unfold e) (use assms in \<open>simp_all add: js.simps LT_def plain_line_def\<close>)
  moreover have "(stall_result (js ''1: '' @ a @ [10]) 1)\<lparr>rb_content := ?c, sr_shown := Some (1, 2)\<rparr> = stall_result ?c 2"
    by (simp add: stall_result_def)
  moreover have "rb_content (stall_result (js ''1: '' @ a @ [10]) 1) = js ''1: '' @ a @ [10]"
    "sr_shown (stall_result (js ''1: '' @ a @ [10]) 1) = Some (1, 1)" by (simp_all add: stall_result_def)
  ultimately show ?thesis by (simp add: appendReadLine_def Let_def number_lines with_next_def)
qed

text \<open>The read shows the context line, drops the requested one, and continues at the offset it was asked for.\<close>

lemma stalled_read:
  assumes "plain_line a" "plain_line b" "length a \<le> 15000" "16000 \<le> length a + length b"
  shows "selectSourceLines markdown (a @ [10] @ b) second_line None = Inr (with_next (stall_result (js ''1: '' @ a @ [10]) 1) 1)"
proof -
  have p: "preset second_line 2 (stall_result [] 0) = stall_result [] 0"
    by (simp add: preset_def) (simp add: stall_result_def)
  have w: "window_of [a @ [10], b] 0 2 = [(0, a @ [10]), (1, b)]"
    by (simp add: window_of_def upt_rec)
  show ?thesis
    by (simp add: select_eq two_lines [OF assms(1,2), simplified] stall_empty [OF assms(1,2), simplified] p w
        stall_first [OF assms(1,3)] stall_second [OF assms(1,2,4)])
qed

lemma continuation_stalls:
  assumes "plain_line a" "plain_line b" "length a \<le> 15000" "16000 \<le> length a + length b"
  shows "\<exists>r. selectSourceLines markdown (a @ [10] @ b) second_line None = Inr r \<and> sr_shown r = Some (1, 1) \<and>
    rb_nextOffset r = Some 1 \<and> resumeSelector (single_object r) 1 = js ''2-'' \<and>
    bind_res (applySelectorSuffix (rb_path r) (Some (js ''2-''))) (\<lambda>t. resolveEndRelativeSelector t 2) = Inr second_line"
proof -
  let ?r = "with_next (stall_result (js ''1: '' @ a @ [10]) 1) 1"
  have "resumeSelector (single_object ?r) 1 = js ''2-''"
    by (simp add: render_defs stall_props int_prop_JNum small_numbers) (simp add: js.simps)
  moreover have "bind_res (applySelectorSuffix (js ''/f'') (Some (js ''2-''))) (\<lambda>t. resolveEndRelativeSelector t 2) = Inr second_line"
    by code_simp
  ultimately show ?thesis using stalled_read [OF assms]
    by (intro exI [of _ ?r]) (simp add: with_next_def stall_result_def)
qed

lemma replicate_plain: "plain_line (replicate 9000 97)"
  by (simp add: plain_line_def LT_def)

lemmas stalled_example = stalled_read [OF replicate_plain replicate_plain]

theorem cut_read_fits_witness:
  "\<exists>r. selectSourceLines (\<lambda>_ _. Inl (file_error Invalid_Input)) (replicate 9000 97 @ [10] @ replicate 9000 97) second_line None = Inr r \<and>
     rb_truncated r \<and> measureReadRendering (single_object r) None \<le> 16000"
proof -
  note sel = stalled_example [of "\<lambda>_ _. Inl (file_error Invalid_Input)"]
  from cut_read_fits [OF sel] have
    "measureReadRendering (single_object (with_next (stall_result (js ''1: '' @ replicate 9000 97 @ [10]) 1) 1)) None \<le> 16000"
    by (simp add: boundedReadLineCount_def MAX_READ_LINES_def stall_result_def)
  with sel show ?thesis by simp
qed


end
