(* ===== verification/Spec2Isabelle.thy ===== *)
theory Spec2Isabelle
  imports Json_Rpc Framer Wire Multiplexer Permission_Policy Permission_Evaluator Protected_Values
    Reserved_Delimiters Result_Truncation Bash_Output Search_Chunking Identity Canonical_Json
    Live_Messages Change_Hub Live_Gateway Stream_Guards Run_Payload Transcript Run_Recorder Recorder_Replay
    Stream_Bridge Read_Selectors Read_Rendering Source_Lines
begin

text \<open>
  A verification library for \<^verbatim>\<open>llame\<close>, a self-hosted assistant: an API server
  (\<^verbatim>\<open>apps/api\<close>) that runs conversations against model providers and lets the model call tools, a
  daemon on the user's machines (\<^verbatim>\<open>apps/machine\<close>) that runs commands and file tools for the server,
  a web client, and shared packages (\<^verbatim>\<open>packages/*\<close>). All of it is TypeScript. What is modelled is
  the program's own core logic: what decides, bounds, hides, orders and carries; not what only calls
  a database, a framework or a service.

  \<^bold>\<open>The language.\<close> \<open>Js_Prelude\<close> fixes what the sources compute with: strings as lists of 16-bit code
  units, numbers by their shortest decimal, JSON-like values with objects as lists of properties in
  order, \<^verbatim>\<open>Map\<close> as an association list in insertion order (the locale \<open>keyed_store\<close>, interpreted on
  it), \<^verbatim>\<open>indexOf\<close>, \<^verbatim>\<open>slice\<close>, \<^verbatim>\<open>Buffer.byteLength\<close>, and a result type for code that throws.
  \<open>Json_Text\<close> is \<^verbatim>\<open>JSON.stringify\<close> and \<open>Json_Parse\<close> is \<^verbatim>\<open>JSON.parse\<close> with the round trip between
  them. The parser runs on fuel \<open>2 * length + 2\<close>; every reader consumes what it reads, so that fuel is
  enough (\<open>fuel_enough\<close>, \<open>parse_fuel\<close>). Rounding a decimal to a double is an argument, \<open>nearest\<close>.

  \<^bold>\<open>The Machine protocol\<close> (\<^verbatim>\<open>packages/machine-protocol\<close>). The server and a daemon talk JSON-RPC in
  newline-delimited frames, with many streams on one connection.
  \<^item> \<open>Json_Rpc\<close>: messages, guards, error codes, bounds and the frame codec.
  \<^item> \<open>Framer\<close>: the line framer, refined to a specification on the whole text, and the heartbeat.
  \<^item> \<open>Wire\<close>: the codec and the framer together; what one peer sends the other decodes, however the
    transport cuts it.
  \<^item> \<open>Multiplexer\<close>: sessions and streams on an explicit heap, as reachable states of a step relation:
    promises settle once, streams are bounded and exact, late answers are dropped.

  \<^bold>\<open>Tool permissions\<close> (\<^verbatim>\<open>apps/api/src/tools/permissions\<close>). \<open>Permission_Policy\<close> compiles the operator's
  configuration; \<open>Permission_Evaluator\<close> decides each call from it and is refined to a reference that
  has neither budget nor cache. Regular expressions (RE2) and the file-locator projection are
  arguments.

  \<^bold>\<open>What leaves a tool.\<close> A result is redacted (\<open>Protected_Values\<close>), its forged framing is neutralized
  and its display part hidden (\<open>Reserved_Delimiters\<close>), and it is cut to the cap with its shape kept
  (\<open>Result_Truncation\<close>), all three from \<^verbatim>\<open>packages/runtime-safety\<close>. \<open>Bash_Output\<close>
  (\<^verbatim>\<open>packages/bash-executor\<close>) redacts and bounds the streams of a command, on the intervals of the
  first and the cut of the third.

  \<^bold>\<open>Live updates\<close> (\<^verbatim>\<open>apps/api/src/live\<close>). A database notification is parsed to a record job and
  folded into run progress (\<open>Live_Messages\<close>); the hub queues the job, reads the record as its owner
  and sends it to the owner's subscribers (\<open>Change_Hub\<close>); the gateway decides who may subscribe
  (\<open>Live_Gateway\<close>). Sets and queues that closures share are objects in a store, and an asynchronous
  function is cut at its \<^verbatim>\<open>await\<close>s, so that everything may happen in between.

  \<^bold>\<open>What a run records\<close> (\<^verbatim>\<open>apps/api/src/runs\<close>). A run writes its stream twice: into a live collector and,
  coalesced, into an append-only event log from which another worker can rebuild the reply.
  \<open>Run_Payload\<close> reads stored payloads; \<open>Transcript\<close> is the collector and the replay of a log;
  \<open>Run_Recorder\<close> is what the callbacks of \<^verbatim>\<open>executeRun\<close> record; \<open>Recorder_Replay\<close> proves that the replay
  gives the live reply (an invariant over every sequence of steps that relates the log and the
  buffers to the collector), and shows the orders of events in which it does not.
  \<open>Stream_Bridge\<close> reads the log for the client: the translator that turns events into stream chunks,
  the loop that polls the log and ends with the run, and the resend of a reply that a continued run
  keeps. What it sends is well bracketed, each event once, and shows what the transcript stores.

  \<^bold>\<open>Native file reads\<close> (\<^verbatim>\<open>packages/native-file-tools\<close>). \<open>Read_Selectors\<close> is the grammar of a
  \<^verbatim>\<open>path:selector\<close> locator and the lines it names of a source of known length; \<open>Read_Rendering\<close> is the
  text the model reads, with the locator that continues a cut read (it asks for exactly the lines not
  passed); \<open>Source_Lines\<close> cuts a source into lines, in hand or as it arrives in pieces, and selects the
  requested windows under the result bound: a cut read fits, its continuation passes over no line, and a
  read of several ranges does not depend on the pieces. Two continuations that do not advance are shown
  too. The Markdown readers and outlines are an argument.

  \<^bold>\<open>Runs and the rest.\<close> \<open>Stream_Guards\<close>: the tool call gate, the idle window, the delta buffer and the
  generation window of a provider stream. \<open>Search_Chunking\<close>: a conversation as search chunks.
  \<open>Canonical_Json\<close>: the text declarations are hashed by. \<open>Identity\<close>: the organisation tree and the
  role a user has in it.

  \<^bold>\<open>What the lemmas show.\<close> In each theory: what the operations preserve, what they compute on every
  branch against a specification that does not follow the code's loop, the bounds they keep, and
  for the state machines invariants over every sequence of steps. A property that holds only under
  a condition has a witness at a concrete input.

  \<^bold>\<open>Not modelled.\<close> The web client and UI packages (presentation); the schema, row-level security and
  queries (executed by PostgreSQL); controllers, modules and DTOs (run by the framework); the
  clients of model providers, MCP servers, SSH and git; media, PDF and repository handling (I/O
  through libraries). Of the server's orchestration, run execution, compaction and the daemon's
  session are mostly sequences of calls to these; the projection of file locators for permissions rests on
  the platform's URL parsing and is an argument of the evaluator. Of the native file tools the Markdown
  readers, directory listings, media and the writing operations are left out.
\<close>

end
